(* ===== verification/Prelude.thy ===== *)
theory Prelude
  imports Main "HOL-Library.Word" "HOL-Library.Monad_Syntax" "HOL-Library.Multiset"
begin

unbundle bit_operations_syntax

text \<open>
  Shared vocabulary of the development: names for the C integer types, checked array
  access (an access outside the array is the value \<open>None\<close>), the fragment of the C
  library that the programs use to read numbers, and generic lemmas on words and lists.
\<close>

section \<open>C integer types\<close>

type_synonym u8 = "8 word"
type_synonym u16 = "16 word"
type_synonym u32 = "32 word"
type_synonym u64 = "64 word"

named_theorems word_xor "linearity of word operations over exclusive or"
named_theorems acc_simps "checked array access"

section \<open>Checked arrays\<close>

text \<open>
  A C array is a list. Reading or writing outside of it is undefined behaviour and is
  modelled by \<open>None\<close>, which every caller propagates.
\<close>

definition aget :: "'a list \<Rightarrow> nat \<Rightarrow> 'a option" where
  "aget xs i = (if i < length xs then Some (xs ! i) else None)"

definition aset :: "'a list \<Rightarrow> nat \<Rightarrow> 'a \<Rightarrow> 'a list option" where
  "aset xs i v = (if i < length xs then Some (xs[i := v]) else None)"

lemma aget_Some [simp, acc_simps]: "i < length xs \<Longrightarrow> aget xs i = Some (xs ! i)"
  by (simp add: aget_def)

lemma aset_Some [simp, acc_simps]: "i < length xs \<Longrightarrow> aset xs i v = Some (xs[i := v])"
  by (simp add: aset_def)

lemma aget_None [simp, acc_simps]: "length xs \<le> i \<Longrightarrow> aget xs i = None"
  by (simp add: aget_def)

lemma aset_None [simp, acc_simps]: "length xs \<le> i \<Longrightarrow> aset xs i v = None"
  by (simp add: aset_def)

lemma aget_eq_SomeD: "aget xs i = Some v \<Longrightarrow> i < length xs \<and> v = xs ! i"
  by (simp add: aget_def split: if_splits)

lemma aset_eq_SomeD: "aset xs i v = Some ys \<Longrightarrow> i < length xs \<and> ys = xs[i := v]"
  by (simp add: aset_def split: if_splits)

text \<open>Evaluate a sequence of steps from the front, without looking at the later ones.\<close>

lemma bind_weak_cong: "m = m' \<Longrightarrow> Option.bind m f = Option.bind m' f"
  by simp

section \<open>Counting loops\<close>

text \<open>
  \<open>for_up lo hi f s\<close> is \<open>for (i = lo; i < hi; i++) f\<close>, \<open>for_down hi lo f s\<close> is
  \<open>for (i = hi; i > lo; i--) f\<close> and \<open>scan lo hi p\<close> is \<open>i = lo; while (i < hi && p(i)) i++;\<close>
  with the final \<open>i\<close> as result. The body and the condition may fail.
\<close>

fun for_n :: "nat \<Rightarrow> nat \<Rightarrow> (nat \<Rightarrow> 's \<Rightarrow> 's option) \<Rightarrow> 's \<Rightarrow> 's option" where
  "for_n 0 i f s = Some s"
| "for_n (Suc k) i f s = do { s \<leftarrow> f i s; for_n k (Suc i) f s }"

definition for_up :: "nat \<Rightarrow> nat \<Rightarrow> (nat \<Rightarrow> 's \<Rightarrow> 's option) \<Rightarrow> 's \<Rightarrow> 's option" where
  "for_up lo hi f s = for_n (hi - lo) lo f s"

fun down_n :: "nat \<Rightarrow> nat \<Rightarrow> (nat \<Rightarrow> 's \<Rightarrow> 's option) \<Rightarrow> 's \<Rightarrow> 's option" where
  "down_n 0 i f s = Some s"
| "down_n (Suc k) i f s = do { s \<leftarrow> f i s; down_n k (i - 1) f s }"

definition for_down :: "nat \<Rightarrow> nat \<Rightarrow> (nat \<Rightarrow> 's \<Rightarrow> 's option) \<Rightarrow> 's \<Rightarrow> 's option" where
  "for_down hi lo f s = down_n (hi - lo) hi f s"

fun scan_n :: "nat \<Rightarrow> nat \<Rightarrow> (nat \<Rightarrow> bool option) \<Rightarrow> nat option" where
  "scan_n 0 i p = Some i"
| "scan_n (Suc k) i p = do { b \<leftarrow> p i; if b then scan_n k (Suc i) p else Some i }"

definition scan :: "nat \<Rightarrow> nat \<Rightarrow> (nat \<Rightarrow> bool option) \<Rightarrow> nat option" where
  "scan lo hi p = scan_n (hi - lo) lo p"

text \<open>Total correctness rules: an invariant at every index, and each body succeeds.\<close>

lemma for_n_rule:
  assumes "P lo s" and "\<And>i s. lo \<le> i \<Longrightarrow> i < lo + k \<Longrightarrow> P i s \<Longrightarrow> \<exists>s'. f i s = Some s' \<and> P (Suc i) s'"
  shows "\<exists>s'. for_n k lo f s = Some s' \<and> P (lo + k) s'"
  using assms
proof (induction k arbitrary: lo s)
  case (Suc k)
  from Suc.prems(2) [of lo s] Suc.prems(1) obtain s1 where s1: "f lo s = Some s1" "P (Suc lo) s1" by auto
  have "\<exists>s'. for_n k (Suc lo) f s1 = Some s' \<and> P (Suc lo + k) s'"
    using s1(2) Suc.prems(2) by (intro Suc.IH) auto
  with s1 show ?case by simp
qed simp

lemma for_up_rule:
  assumes "lo \<le> hi" "P lo s"
    and "\<And>i s. lo \<le> i \<Longrightarrow> i < hi \<Longrightarrow> P i s \<Longrightarrow> \<exists>s'. f i s = Some s' \<and> P (Suc i) s'"
  shows "\<exists>s'. for_up lo hi f s = Some s' \<and> P hi s'"
  using for_n_rule [of P lo s "hi - lo" f] assms by (simp add: for_up_def)

lemma down_n_rule:
  assumes "k \<le> hi" "P hi s" and "\<And>i s. hi - k < i \<Longrightarrow> i \<le> hi \<Longrightarrow> P i s \<Longrightarrow> \<exists>s'. f i s = Some s' \<and> P (i - 1) s'"
  shows "\<exists>s'. down_n k hi f s = Some s' \<and> P (hi - k) s'"
  using assms
proof (induction k arbitrary: hi s)
  case (Suc k)
  from Suc.prems obtain s1 where s1: "f hi s = Some s1" "P (hi - 1) s1" by (metis diff_less le_refl zero_less_Suc le_Suc_ex add_gr_0)
  have "\<exists>s'. down_n k (hi - 1) f s1 = Some s' \<and> P (hi - 1 - k) s'"
    using s1(2) Suc.prems by (intro Suc.IH) auto
  with s1 show ?case by simp
qed simp

lemma for_down_rule:
  assumes "lo \<le> hi" "P hi s"
    and "\<And>i s. lo < i \<Longrightarrow> i \<le> hi \<Longrightarrow> P i s \<Longrightarrow> \<exists>s'. f i s = Some s' \<and> P (i - 1) s'"
  shows "\<exists>s'. for_down hi lo f s = Some s' \<and> P lo s'"
  using down_n_rule [of "hi - lo" hi P s f] assms by (simp add: for_down_def)

lemma scan_n_stop:
  "r \<le> k \<Longrightarrow> (\<And>i. i < r \<Longrightarrow> p (lo + i) = Some True) \<Longrightarrow> (r < k \<Longrightarrow> p (lo + r) = Some False) \<Longrightarrow> scan_n k lo p = Some (lo + r)"
proof (induction k arbitrary: lo r)
  case (Suc k)
  show ?case
  proof (cases r)
    case 0
    with Suc.prems(3) show ?thesis by simp
  next
    case (Suc r')
    have "p lo = Some True" using Suc.prems(2) [of 0] Suc by simp
    moreover have "scan_n k (Suc lo) p = Some (Suc lo + r')"
    proof (rule Suc.IH)
      show "p (Suc lo + i) = Some True" if "i < r'" for i
        using Suc.prems(2) [of "Suc i"] that Suc by simp
    qed (use Suc Suc.prems in auto)
    ultimately show ?thesis using Suc by simp
  qed
qed simp

lemma scan_stop:
  "lo \<le> r \<Longrightarrow> r \<le> hi \<Longrightarrow> (\<And>i. lo \<le> i \<Longrightarrow> i < r \<Longrightarrow> p i = Some True) \<Longrightarrow> (r < hi \<Longrightarrow> p r = Some False) \<Longrightarrow>
    scan lo hi p = Some r"
  using scan_n_stop [of "r - lo" "hi - lo" p lo] by (simp add: scan_def)

text \<open>A scan of an array for the first element that fails \<open>P\<close>.\<close>

lemma scan_takeWhile:
  assumes "n \<le> length xs"
  shows "scan 0 n (\<lambda>i. do { x \<leftarrow> aget xs i; Some (P x) }) = Some (length (takeWhile P (take n xs)))"
proof (rule scan_stop)
  let ?r = "length (takeWhile P (take n xs))"
  have le: "?r \<le> length (take n xs)" by (rule length_takeWhile_le)
  then show "?r \<le> n" by simp
  show "(aget xs i \<bind> (\<lambda>x. Some (P x))) = Some True" if "i < ?r" for i
  proof -
    from that have "P (takeWhile P (take n xs) ! i)" by (metis nth_mem set_takeWhileD)
    with that le assms show ?thesis by (simp add: takeWhile_nth)
  qed
  show "(aget xs ?r \<bind> (\<lambda>x. Some (P x))) = Some False" if "?r < n"
    using nth_length_takeWhile [of P "take n xs"] that assms by simp
qed simp

text \<open>
  \<open>while_do b f s\<close> is \<open>while (b) f\<close> for a condition and a body that may fail; a loop that does not
  end is \<open>None\<close>. Its rule is total: the measure makes it end.
\<close>

partial_function (option) while_do :: "('s \<Rightarrow> bool option) \<Rightarrow> ('s \<Rightarrow> 's option) \<Rightarrow> 's \<Rightarrow> 's option" where
  "while_do b f s = do { c \<leftarrow> b s; if c then do { s \<leftarrow> f s; while_do b f s } else Some s }"

lemma while_do_rule:
  fixes \<mu> :: "'s \<Rightarrow> nat"
  assumes "P s"
    and "\<And>s. P s \<Longrightarrow> \<exists>c. b s = Some c \<and>
           (if c then \<exists>s'. f s = Some s' \<and> P s' \<and> \<mu> s' < \<mu> s else Q s)"
  shows "\<exists>s'. while_do b f s = Some s' \<and> Q s'"
  using assms(1)
proof (induction "\<mu> s" arbitrary: s rule: less_induct)
  case less
  from assms(2) [OF less.prems] obtain c where c: "b s = Some c"
    "if c then \<exists>s'. f s = Some s' \<and> P s' \<and> \<mu> s' < \<mu> s else Q s" by blast
  then show ?case using less.hyps by (cases c) (fastforce simp: while_do.simps)+
qed

text \<open>Recursive calls in the body of a counting loop.\<close>

lemma for_n_mono [partial_function_mono]:
  "(\<And>i s. mono_option (\<lambda>f. B f i s)) \<Longrightarrow> mono_option (\<lambda>f. for_n k lo (B f) s)"
proof (induction k arbitrary: lo s)
  case 0
  show ?case by (simp add: option.const_mono)
next
  case (Suc k)
  show ?case by (simp only: for_n.simps, intro bind_mono Suc.prems Suc.IH)
qed

lemma for_up_mono [partial_function_mono]:
  "(\<And>i s. mono_option (\<lambda>f. B f i s)) \<Longrightarrow> mono_option (\<lambda>f. for_up lo hi (B f) s)"
  unfolding for_up_def by (rule for_n_mono)

section \<open>Reading numbers: strtoull and strtol in base 10\<close>

definition is_space :: "char \<Rightarrow> bool" where
  "is_space c \<longleftrightarrow> c = CHR '' '' \<or> (9 \<le> (of_char c :: nat) \<and> (of_char c :: nat) \<le> 13)"

definition is_digit :: "char \<Rightarrow> bool" where
  "is_digit c \<longleftrightarrow> 48 \<le> (of_char c :: nat) \<and> (of_char c :: nat) \<le> 57"

definition digit_val :: "char \<Rightarrow> nat" where
  "digit_val c = of_char c - 48"

fun digits_val :: "nat \<Rightarrow> string \<Rightarrow> nat" where
  "digits_val acc [] = acc"
| "digits_val acc (c # cs) = digits_val (10 * acc + digit_val c) cs"

definition split_sign :: "string \<Rightarrow> bool \<times> string" where
  "split_sign s = (case s of [] \<Rightarrow> (False, s)
     | c # cs \<Rightarrow> (if c = CHR ''-'' then (True, cs) else if c = CHR ''+'' then (False, cs) else (False, s)))"

text \<open>
  \<open>scan_number s\<close> is the sign, the digits and the rest (the \<open>endptr\<close> of the C functions);
  with no digit at all the C functions leave \<open>endptr\<close> at the start of the string.
\<close>

definition scan_number :: "string \<Rightarrow> bool \<times> string \<times> string" where
  "scan_number s =
     (let (neg, r) = split_sign (dropWhile is_space s);
          ds = takeWhile is_digit r
      in if ds = [] then (False, [], s) else (neg, ds, dropWhile is_digit r))"

definition strtoull10 :: "string \<Rightarrow> u64 \<times> string" where
  "strtoull10 s =
     (let (neg, ds, rest) = scan_number s; v = digits_val 0 ds
      in ((if 2 ^ 64 \<le> v then - 1 else if neg then - word_of_nat v else word_of_nat v), rest))"

definition strtol10 :: "string \<Rightarrow> int" where
  "strtol10 s =
     (let (neg, ds, rest) = scan_number s; v = (if neg then - int (digits_val 0 ds) else int (digits_val 0 ds))
      in if v < - (2 ^ 63) then - (2 ^ 63) else if 2 ^ 63 - 1 < v then 2 ^ 63 - 1 else v)"

section \<open>Words\<close>

lemma take_bit_Suc_xor:
  "take_bit (Suc k) (x :: 'a::len word) = take_bit k x XOR (if bit x k then 2 ^ k else 0)"
  by (rule bit_word_eqI) (auto simp: bit_simps less_Suc_eq)

text \<open>A property of all words follows from the powers of two if it is kept by exclusive or.\<close>

lemma word_xor_induct:
  fixes x :: "'a::len word"
  assumes z: "P 0" and pow: "\<And>j. j < LENGTH('a) \<Longrightarrow> P (2 ^ j)"
    and xor: "\<And>a b. P a \<Longrightarrow> P b \<Longrightarrow> P (a XOR b)"
  shows "P x"
proof -
  have "P (take_bit k x)" if "k \<le> LENGTH('a)" for k
    using that
  proof (induction k)
    case 0
    then show ?case by (simp add: z)
  next
    case (Suc k)
    then show ?case
      by (auto simp: take_bit_Suc_xor z intro!: xor pow)
  qed
  from this [of "LENGTH('a)"] show ?thesis
    by (simp add: take_bit_word_eq_self)
qed

lemma sint_neg_iff_bit: "sint (x :: 'a::len word) < 0 \<longleftrightarrow> bit x (LENGTH('a) - 1)"
  by (simp add: sint_uint bit_uint_iff signed_take_bit_negative_iff)

lemma unat_of_nat_small: "n < 2 ^ LENGTH('a) \<Longrightarrow> unat (word_of_nat n :: 'a::len word) = n"
  by (simp add: unat_of_nat)

lemma word_of_nat_div:
  "m < 2 ^ LENGTH('a) \<Longrightarrow> k < 2 ^ LENGTH('a) \<Longrightarrow>
    (word_of_nat m :: 'a::len word) div word_of_nat k = word_of_nat (m div k)"
  by (simp add: word_unat_eq_iff unat_div unat_of_nat_small le_less_trans [OF div_le_dividend])

lemma unat_pow2: "i < 64 \<Longrightarrow> unat (2 ^ i :: u64) = 2 ^ i"
  using unat_of_nat_small [of "2 ^ i", where 'a = 64] power_strict_increasing [of i 64 "2 :: nat"] by simp

lemma sint_small: "unat w < 2 ^ (LENGTH('a) - 1) \<Longrightarrow> sint (w :: 'a::len word) = int (unat w)"
proof -
  assume "unat w < 2 ^ (LENGTH('a) - 1)"
  then have "int (unat w) < int (2 ^ (LENGTH('a) - 1))" by (simp only: of_nat_less_iff)
  then have "uint w < 2 ^ (LENGTH('a) - 1)" by simp
  moreover have "- (2 ^ (LENGTH('a) - 1)) \<le> uint w" by (rule order_trans [of _ 0]) simp_all
  ultimately show ?thesis by (simp add: sint_uint signed_take_bit_int_eq_self)
qed

section \<open>Integers\<close>

lemma int_div_less:
  assumes "0 < k" "n < c * k"
  shows "n div k < (c :: int)"
proof -
  have "(n div k) * k \<le> n"
    using assms(1) by (simp flip: minus_mod_eq_div_mult)
  with assms show ?thesis by (meson mult_less_cancel_right_pos order_le_less_trans)
qed

section \<open>Iteration\<close>

lemma funpow_double: "(f ^^ (2 * n)) x = ((\<lambda>y. f (f y)) ^^ n) x"
  by (induction n arbitrary: x) (simp_all add: funpow_swap1)

lemma mset_concat_map_upt_swap:
  "mset (concat (map (\<lambda>i. map (f i) [0..<n]) [0..<m])) =
   mset (concat (map (\<lambda>j. map (\<lambda>i. f i j) [0..<m]) [0..<n]))"
proof (induction m)
  case 0
  then show ?case by (induction n) auto
next
  case (Suc m)
  have "mset (concat (map (\<lambda>j. map (\<lambda>i. f i j) [0..<Suc m]) [0..<n])) =
      mset (concat (map (\<lambda>j. map (\<lambda>i. f i j) [0..<m]) [0..<n])) + mset (map (f m) [0..<n])"
    by (induction n) auto
  with Suc show ?case by simp
qed

lemma concat_upt_blocks: "concat (map (\<lambda>j. map (\<lambda>i. g (b * j + i)) [0..<b]) [0..<n]) = map g [0..<b * n]"
proof (induction n)
  case (Suc n)
  have "map g [0..<b * Suc n] = map g [0..<b * n] @ map g [b * n..<b * n + b]"
    by (metis add.commute le_add1 map_append mult_Suc_right upt_add_eq_append zero_le)
  moreover have "map g [b * n..<b * n + b] = map (\<lambda>i. g (b * n + i)) [0..<b]"
    by (simp add: map_equality_iff)
  ultimately show ?case using Suc by simp
qed simp

lemma sum_list_mset_update:
  "i < length xss \<Longrightarrow> (\<Sum>xs\<leftarrow>xss. mset xs) + mset ys = (\<Sum>xs\<leftarrow>xss[i := ys]. mset xs) + mset (xss ! i)"
proof (induction xss arbitrary: i)
  case (Cons xs xss)
  then show ?case by (cases i) (auto simp: ac_simps)
qed simp

lemma mset_concat_map_cong: "mset xs = mset ys \<Longrightarrow> mset (concat (map h xs)) = mset (concat (map h ys))"
  by (simp add: mset_concat) (metis mset_map multiset.map_comp sum_mset_sum_list comp_def)

lemma mset_concat_nested:
  "(\<Sum>x\<leftarrow>xs. mset (concat (map g (F x)))) = mset (concat (map g (concat (map F xs))))"
  by (induction xs) auto

end
