(* ===== verification/Gups.thy ===== *)
theory Gups
  imports Prelude
begin

unbundle bit_operations_syntax

text \<open>
  The GUPS random access benchmark (\<open>gups/gups.c\<close>, \<open>gups/gupstoy.c\<close>): the 64-bit linear
  feedback shift register that produces the update stream, its jump-ahead function
  \<open>HPCC_starts\<close>, and the batched update loops over the table. The lemmas show that the
  jump-ahead is iteration of the register, that the batched loop applies exactly the
  first updates of the stream, and which table cells the loops touch.
\<close>

section \<open>The shift register and HPCC\_starts\<close>

definition POLY :: u64 where "POLY = 0x7"

definition PERIOD :: int where "PERIOD = 1317624576693539401"

definition lfsr_step :: "u64 \<Rightarrow> u64" where
  "lfsr_step temp = push_bit 1 temp XOR (if sint temp < 0 then POLY else 0)"

function starts_up :: "int \<Rightarrow> int" where
  "starts_up n = (if n < 0 then starts_up (n + PERIOD) else n)"
  by pat_completeness auto
termination by (relation "measure (\<lambda>n. nat (- n))") (auto simp: PERIOD_def)

function starts_down :: "int \<Rightarrow> int" where
  "starts_down n = (if n > PERIOD then starts_down (n - PERIOD) else n)"
  by pat_completeness auto
termination by (relation "measure nat") (auto simp: PERIOD_def)

declare starts_up.simps [simp del] starts_down.simps [simp del]

fun m2_loop :: "nat \<Rightarrow> u64 \<Rightarrow> u64 list" where
  "m2_loop 0 temp = []"
| "m2_loop (Suc k) temp = temp # m2_loop k (lfsr_step (lfsr_step temp))"

definition m2 :: "u64 list" where
  "m2 = m2_loop 64 0x1"

fun top_bit :: "int \<Rightarrow> nat \<Rightarrow> int" where
  "top_bit n 0 = - 1"
| "top_bit n (Suc i) = (if bit n i then int i else top_bit n i)"

fun xor_sel :: "u64 list \<Rightarrow> nat \<Rightarrow> u64 \<Rightarrow> u64 \<Rightarrow> u64" where
  "xor_sel [] j rn temp = temp"
| "xor_sel (m # ms) j rn temp = xor_sel ms (Suc j) rn (if bit rn j then temp XOR m else temp)"

fun starts_loop :: "int \<Rightarrow> nat \<Rightarrow> u64 \<Rightarrow> u64" where
  "starts_loop n 0 rn = rn"
| "starts_loop n (Suc i) rn =
     (let rn = xor_sel m2 0 rn 0 in starts_loop n i (if bit n i then lfsr_step rn else rn))"

definition HPCC_starts :: "u64 \<Rightarrow> u64" where
  "HPCC_starts w =
     (let n = starts_down (starts_up (sint w))
      in if n = 0 then 0x1 else starts_loop n (nat (top_bit n 63)) 0x2)"

section \<open>The table and its updates\<close>

text \<open>
  The allocated block is a list of words. \<open>update_st\<close> is the body of the sequential loop,
  whose second access is \<open>Table[TableSize - elm]\<close>; \<open>update_mt\<close> is the body of the OpenMP
  loop, whose second access is \<open>Table[TableSize - 1 - elm]\<close>.
\<close>

definition xor_at :: "u64 list \<Rightarrow> nat \<Rightarrow> u64 \<Rightarrow> u64 list option" where
  "xor_at Table i r = do { old \<leftarrow> aget Table i; aset Table i (old XOR r) }"

definition update_st :: "nat \<Rightarrow> u64 \<Rightarrow> u64 list \<Rightarrow> u64 list option" where
  "update_st TableSize r Table =
     (if TableSize = 0 then None
      else do { let elm = unat r mod TableSize;
                Table \<leftarrow> xor_at Table elm r;
                xor_at Table (TableSize - elm) r })"

definition update_mt :: "nat \<Rightarrow> u64 \<Rightarrow> u64 list \<Rightarrow> u64 list option" where
  "update_mt TableSize r Table =
     (if TableSize = 0 then None
      else do { let elm = unat r mod TableSize;
                Table \<leftarrow> xor_at Table elm r;
                xor_at Table (TableSize - 1 - elm) r })"

fun gups_inner :: "(u64 \<Rightarrow> 't \<Rightarrow> 't option) \<Rightarrow> u64 list \<Rightarrow> 't \<Rightarrow> (u64 list \<times> 't) option" where
  "gups_inner upd [] Table = Some ([], Table)"
| "gups_inner upd (r # rs) Table =
     do { let r' = lfsr_step r;
          Table \<leftarrow> upd r' Table;
          (rs', Table) \<leftarrow> gups_inner upd rs Table;
          Some (r' # rs', Table) }"

fun gups_outer :: "(u64 \<Rightarrow> 't \<Rightarrow> 't option) \<Rightarrow> nat \<Rightarrow> u64 list \<Rightarrow> 't \<Rightarrow> (u64 list \<times> 't) option" where
  "gups_outer upd 0 rn Table = Some (rn, Table)"
| "gups_outer upd (Suc i) rn Table =
     do { (rn, Table) \<leftarrow> gups_inner upd rn Table; gups_outer upd i rn Table }"

section \<open>Configuration: table size and number of updates\<close>

text \<open>
  The loop that rounds the size down to a power of two; \<open>None\<close> is the shift by \<open>-1\<close>,
  reached only with a size of 0.
\<close>

fun round_mem :: "nat \<Rightarrow> nat \<Rightarrow> u64 \<Rightarrow> u64 option" where
  "round_mem 0 i mem = Some mem"
| "round_mem (Suc k) i mem =
     (if mem < push_bit i 1 then (if i = 0 then None else Some (push_bit (i - 1) 1))
      else round_mem k (Suc i) mem)"

definition round_nupdate :: "u64 \<Rightarrow> u64" where
  "round_nupdate nupdate =
     (if nupdate mod 128 \<noteq> 0
      then (let n = (nupdate div 128) * 128 in if n = 0 then 128 else n)
      else nupdate)"

record gups_config =
  cfg_mem :: u64
  cfg_nupdate :: u64

definition gups_parse :: "u64 \<Rightarrow> string list \<Rightarrow> gups_config option" where
  "gups_parse default_nupdate argv =
     (let mem = (if 2 \<le> length argv then push_bit 30 (fst (strtoull10 (argv ! 1))) else push_bit 30 64);
          nupdate = (if 3 \<le> length argv then fst (strtoull10 (argv ! 2)) else default_nupdate)
      in do { mem \<leftarrow> round_mem 64 0 mem;
              Some \<lparr>cfg_mem = mem, cfg_nupdate = round_nupdate nupdate\<rparr> })"

definition init_table :: "nat \<Rightarrow> u64 list" where
  "init_table TableSize = map word_of_nat [0..<TableSize]"

definition starts_st :: "u64 \<Rightarrow> u64 list" where
  "starts_st nupdate = map (\<lambda>j. HPCC_starts ((nupdate div 128) * word_of_nat j)) [0..<128]"

text \<open>
  The sequential program: the block returned by \<open>malloc(mem + 16)\<close> has two words behind
  the table whose content is whatever the allocator left there (\<open>slack\<close>).
\<close>

definition gups_st :: "gups_config \<Rightarrow> u64 list \<Rightarrow> u64 list option" where
  "gups_st cfg slack =
     (let TableSize = unat (cfg_mem cfg div 8)
      in map_option snd (gups_outer (update_st TableSize) (unat (cfg_nupdate cfg div 128))
            (starts_st (cfg_nupdate cfg)) (init_table TableSize @ slack)))"

text \<open>The sequential program of \<open>gupstoy.c\<close>: fixed sizes and no words behind the table.\<close>

definition toy_mem :: u64 where "toy_mem = push_bit 30 1"
definition toy_nupdate :: u64 where "toy_nupdate = push_bit 29 1"

definition gupstoy_rounds :: "nat \<Rightarrow> u64 list option" where
  "gupstoy_rounds rounds =
     (let TableSize = unat (toy_mem div 8)
      in map_option snd (gups_outer (update_st TableSize) rounds (starts_st toy_nupdate) (init_table TableSize)))"

definition gupstoy :: "u64 list option" where
  "gupstoy = gupstoy_rounds (unat (toy_nupdate div 128))"

text \<open>One OpenMP thread: its start values and its share of the updates.\<close>

definition starts_mt :: "u64 \<Rightarrow> u64 \<Rightarrow> u64 \<Rightarrow> u64 list" where
  "starts_mt nupdate nthr tid =
     (let updates_per_thread = nupdate div nthr; start_update = tid * updates_per_thread
      in map (\<lambda>j. HPCC_starts (start_update + (updates_per_thread div 128) * word_of_nat j)) [0..<128])"

definition rounds_mt :: "u64 \<Rightarrow> u64 \<Rightarrow> nat" where
  "rounds_mt nupdate nthr = unat (nupdate div nthr div 128)"

text \<open>The squaring loop of \<open>HPCC_starts\<close> on its own, for the proofs.\<close>

definition sq :: "u64 \<Rightarrow> u64" where "sq x = xor_sel m2 0 x 0"

section \<open>Streams of atomic updates\<close>

text \<open>
  One update is two exclusive-or operations on cells of the table. \<open>run_ops\<close> executes a
  list of operations; \<open>interleaving tss w\<close> says that \<open>w\<close> is one schedule of the threads
  \<open>tss\<close>, each of which issues its operations in order.
\<close>

definition xop :: "nat \<times> u64 \<Rightarrow> u64 list \<Rightarrow> u64 list option" where
  "xop u Table = xor_at Table (fst u) (snd u)"

fun run_ops :: "('u \<Rightarrow> 't \<Rightarrow> 't option) \<Rightarrow> 'u list \<Rightarrow> 't \<Rightarrow> 't option" where
  "run_ops f [] t = Some t"
| "run_ops f (u # us) t = do { t \<leftarrow> f u t; run_ops f us t }"

definition ops_st :: "nat \<Rightarrow> u64 \<Rightarrow> (nat \<times> u64) list" where
  "ops_st n r = [(unat r mod n, r), (n - unat r mod n, r)]"

definition ops_mt :: "nat \<Rightarrow> u64 \<Rightarrow> (nat \<times> u64) list" where
  "ops_mt n r = [(unat r mod n, r), (n - 1 - unat r mod n, r)]"

inductive interleaving :: "'u list list \<Rightarrow> 'u list \<Rightarrow> bool" where
  finished: "(\<And>us. us \<in> set tss \<Longrightarrow> us = []) \<Longrightarrow> interleaving tss []"
| step: "i < length tss \<Longrightarrow> tss ! i = u # us \<Longrightarrow> interleaving (tss[i := us]) w \<Longrightarrow> interleaving tss (u # w)"

definition thread_values :: "u64 list \<Rightarrow> nat \<Rightarrow> u64 list" where
  "thread_values rn k = concat (map (\<lambda>i. map (lfsr_step ^^ Suc i) rn) [0..<k])"

definition lfsr_value :: "nat \<Rightarrow> u64" where
  "lfsr_value m = (lfsr_step ^^ m) 1"

section \<open>The jump-ahead is iteration of the register\<close>

lemma lfsr_step_bit: "lfsr_step x = push_bit 1 x XOR (if bit x 63 then 7 else 0)"
  by (simp add: lfsr_step_def POLY_def sint_neg_iff_bit)

lemma lfsr_step_xor [word_xor]: "lfsr_step (x XOR y) = lfsr_step x XOR lfsr_step y"
  by (auto simp: lfsr_step_bit push_bit_xor bit_xor_iff xor.left_commute xor.commute xor.assoc)

lemma lfsr_step_0 [simp]: "lfsr_step 0 = 0"
  by (simp add: lfsr_step_bit)

lemma lfsr_funpow_xor [word_xor]: "(lfsr_step ^^ n) (x XOR y) = (lfsr_step ^^ n) x XOR (lfsr_step ^^ n) y"
  by (induction n) (simp_all add: lfsr_step_xor)

lemma xor_sel_xor [word_xor]:
  "xor_sel ms j (x XOR y) (s XOR t) = xor_sel ms j x s XOR xor_sel ms j y t"
proof (induction ms arbitrary: j s t)
  case (Cons m ms)
  have "(if bit (x XOR y) j then (s XOR t) XOR m else s XOR t) =
      (if bit x j then s XOR m else s) XOR (if bit y j then t XOR m else t)"
    by (auto simp: bit_xor_iff xor.left_commute xor.commute xor.assoc)
  with Cons show ?case by simp
qed simp

lemma xor_sel_zero: "(\<And>i. j \<le> i \<Longrightarrow> \<not> bit x i) \<Longrightarrow> xor_sel ms j x s = s"
  by (induction ms arbitrary: j) simp_all

lemma xor_sel_pow: "j \<le> k \<Longrightarrow> k < 64 \<Longrightarrow> k - j < length ms \<Longrightarrow> xor_sel ms j (2 ^ k) s = s XOR ms ! (k - j)"
proof (induction ms arbitrary: j s)
  case (Cons m ms)
  show ?case
  proof (cases "j = k")
    case True
    then have "xor_sel ms (Suc j) (2 ^ k) t = t" for t
      by (intro xor_sel_zero) (auto simp: bit_exp_iff)
    with True Cons.prems show ?thesis by (simp add: bit_exp_iff)
  next
    case False
    with Cons.prems have "Suc j \<le> k" "k - Suc j < length ms" "k - j = Suc (k - Suc j)" by auto
    with Cons.IH [of "Suc j"] Cons.prems False show ?thesis by (simp add: bit_exp_iff)
  qed
qed simp

lemma length_m2_loop [simp]: "length (m2_loop k t) = k"
  by (induction k arbitrary: t) simp_all

lemma m2_loop_nth: "j < k \<Longrightarrow> m2_loop k t ! j = (lfsr_step ^^ (2 * j)) t"
proof (induction k arbitrary: t j)
  case (Suc k)
  then show ?case by (cases j) (simp_all add: funpow_swap1)
qed simp


lemma sq_xor [word_xor]: "sq (x XOR y) = sq x XOR sq y"
  using xor_sel_xor [of m2 0 x y 0 0] by (simp add: sq_def)

lemma sq_0 [simp]: "sq 0 = 0"
  by (simp add: sq_def xor_sel_zero)

lemma sq_pow: "j < 64 \<Longrightarrow> sq (2 ^ j) = (lfsr_step ^^ (2 * j)) 1"
  by (simp add: sq_def xor_sel_pow m2_def m2_loop_nth)

lemma lfsr_step_pow: "j < 63 \<Longrightarrow> lfsr_step (2 ^ j) = 2 ^ Suc j"
  by (simp add: lfsr_step_bit bit_exp_iff push_bit_eq_mult)

lemma lfsr_funpow_1: "j < 64 \<Longrightarrow> (lfsr_step ^^ j) 1 = 2 ^ j"
proof (induction j)
  case (Suc j)
  then have "(lfsr_step ^^ j) 1 = 2 ^ j" by simp
  with Suc.prems show ?case by (simp only: funpow.simps o_apply lfsr_step_pow)
qed simp

lemma lfsr_step_63: "lfsr_step (2 ^ 63) = 7"
  by (simp add: lfsr_step_bit)

lemma lfsr_64: "(lfsr_step ^^ 64) 1 = 7"
proof -
  have "(lfsr_step ^^ Suc 63) 1 = 7"
    by (simp only: funpow.simps o_apply lfsr_funpow_1 lfsr_step_63)
  then show ?thesis by simp
qed

lemma lfsr_128: "(lfsr_step ^^ 128) 1 = 21"
proof -
  have seven: "(7 :: u64) = (lfsr_step ^^ 0) 1 XOR (lfsr_step ^^ 1) 1 XOR (lfsr_step ^^ 2) 1"
    by (simp only: lfsr_funpow_1) simp
  have sh: "(lfsr_step ^^ 64) ((lfsr_step ^^ k) 1) = (lfsr_step ^^ k) 7" for k
    by (metis lfsr_64 add.commute comp_apply funpow_add)
  have "(lfsr_step ^^ 128) 1 = (lfsr_step ^^ 64) ((lfsr_step ^^ 64) 1)"
    by (simp flip: funpow_add[THEN fun_cong, unfolded o_apply] )
  also have "\<dots> = (lfsr_step ^^ 0) 7 XOR (lfsr_step ^^ 1) 7 XOR (lfsr_step ^^ 2) 7"
    unfolding lfsr_64 by (subst seven) (simp only: word_xor sh)
  also have "\<dots> = 21" by (simp add: lfsr_step_bit numeral_2_eq_2)
  finally show ?thesis .
qed

lemma sq_step: "sq (lfsr_step x) = lfsr_step (lfsr_step (sq x))"
proof (induction x rule: word_xor_induct)
  case (2 j)
  show ?case
  proof (cases "j < 63")
    case True
    then show ?thesis by (simp only: lfsr_step_pow sq_pow) (simp add: sq_pow)
  next
    case False
    with 2 have j: "j = 63" by simp
    have "sq 7 = sq (2 ^ 0) XOR sq (2 ^ 1) XOR sq (2 ^ 2)"
      by (simp flip: sq_xor)
    also have "\<dots> = 1 XOR 2 ^ 2 XOR 2 ^ 4"
      by (simp only: sq_pow) (simp add: lfsr_funpow_1)
    also have "\<dots> = (lfsr_step ^^ Suc (Suc 126)) 1"
      using lfsr_128 by simp
    finally have "sq 7 = lfsr_step (lfsr_step ((lfsr_step ^^ 126) 1))"
      by (simp only: funpow.simps o_apply)
    moreover have "sq (2 ^ 63) = (lfsr_step ^^ 126) 1"
      using sq_pow [of 63] by simp
    ultimately show ?thesis by (simp only: j lfsr_step_63)
  qed
qed (simp_all add: word_xor)

lemma sq_funpow: "sq ((lfsr_step ^^ k) 1) = (lfsr_step ^^ (2 * k)) 1"
proof (induction k)
  case 0
  show ?case using sq_pow [of 0] by simp
qed (simp add: sq_step)

lemma starts_loop_funpow:
  "0 \<le> n \<Longrightarrow> starts_loop n i ((lfsr_step ^^ nat (n div 2 ^ i)) 1) = (lfsr_step ^^ nat n) 1"
proof (induction i)
  case (Suc i)
  let ?e = "nat (n div 2 ^ Suc i)"
  have "n div 2 ^ i = 2 * (n div 2 ^ Suc i) + (if bit n i then 1 else 0)"
    by (simp add: bit_iff_odd zdiv_zmult2_eq power_Suc2 del: power_Suc)
  then have e: "nat (n div 2 ^ i) = 2 * ?e + (if bit n i then 1 else 0)"
    using Suc.prems by (simp add: nat_add_distrib nat_mult_distrib pos_imp_zdiv_nonneg_iff)
  have "starts_loop n (Suc i) ((lfsr_step ^^ ?e) 1) = starts_loop n i ((lfsr_step ^^ nat (n div 2 ^ i)) 1)"
    by (simp add: e sq_funpow [unfolded sq_def])
  with Suc show ?case by simp
qed simp

lemma top_bit_div: "0 < n \<Longrightarrow> n < 2 ^ i \<Longrightarrow> 0 \<le> top_bit n i \<and> n div 2 ^ nat (top_bit n i) = 1"
proof (induction i)
  case (Suc i)
  show ?case
  proof (cases "bit n i")
    case True
    then have "n div 2 ^ i \<noteq> 0" by (metis bit_iff_odd even_zero)
    moreover have "n div 2 ^ i < 2" using Suc.prems by (intro int_div_less) simp_all
    moreover have "0 \<le> n div 2 ^ i" using Suc.prems by (simp add: pos_imp_zdiv_nonneg_iff)
    ultimately show ?thesis using True by simp
  next
    case False
    have "n div 2 ^ i < 2" using Suc.prems by (intro int_div_less) simp_all
    moreover have "0 \<le> n div 2 ^ i" using Suc.prems by (simp add: pos_imp_zdiv_nonneg_iff)
    moreover have "even (n div 2 ^ i)" using False by (simp add: bit_iff_odd)
    moreover have "q < 2 \<Longrightarrow> 0 \<le> q \<Longrightarrow> even q \<Longrightarrow> q = 0" for q :: int by presburger
    ultimately have "n div 2 ^ i = 0" by blast
    with Suc.prems have "n < 2 ^ i" by (simp add: zdiv_eq_0_iff)
    with Suc False show ?thesis by simp
  qed
qed simp

lemma starts_up_mod: "starts_up n mod PERIOD = n mod PERIOD \<and> 0 \<le> starts_up n"
proof (induction n rule: starts_up.induct)
  case (1 n)
  then show ?case by (subst (1 2) starts_up.simps) auto
qed

lemma starts_down_mod: "0 \<le> n \<Longrightarrow> starts_down n mod PERIOD = n mod PERIOD \<and> 0 \<le> starts_down n \<and> starts_down n \<le> PERIOD"
proof (induction n rule: starts_down.induct)
  case (1 n)
  then show ?case by (subst (1 2 3) starts_down.simps) (auto simp: minus_mod_self2)
qed

lemma HPCC_starts_funpow:
  "HPCC_starts w = (lfsr_step ^^ nat (starts_down (starts_up (sint w)))) 1"
proof -
  define n where "n = starts_down (starts_up (sint w))"
  have n: "0 \<le> n" "n \<le> PERIOD"
    using starts_down_mod starts_up_mod by (auto simp: n_def)
  show ?thesis
  proof (cases "n = 0")
    case True
    then show ?thesis by (simp add: HPCC_starts_def Let_def flip: n_def)
  next
    case False
    with n have "0 < n" "n < 2 ^ 63" by (auto simp: PERIOD_def)
    from top_bit_div [OF this] have "n div 2 ^ nat (top_bit n 63) = 1" by simp
    with starts_loop_funpow [OF n(1), of "nat (top_bit n 63)"]
    have "starts_loop n (nat (top_bit n 63)) (lfsr_step 1) = (lfsr_step ^^ nat n) 1" by simp
    moreover have "lfsr_step 1 = 2" by (simp add: lfsr_step_bit)
    ultimately show ?thesis using False by (simp add: HPCC_starts_def Let_def flip: n_def)
  qed
qed

lemma m2_loop_numeral: "m2_loop (numeral k) t = t # m2_loop (pred_numeral k) (lfsr_step (lfsr_step t))"
  by (simp add: numeral_eq_Suc)
lemma m2_eq: "m2 = [1, 4, 16, 64, 256, 1024, 4096, 16384, 65536, 262144, 1048576, 4194304, 16777216, 67108864, 268435456, 1073741824, 4294967296, 17179869184, 68719476736, 274877906944, 1099511627776, 4398046511104, 17592186044416, 70368744177664, 281474976710656, 1125899906842624, 4503599627370496, 18014398509481984, 72057594037927936, 288230376151711744, 1152921504606846976, 4611686018427387904, 7, 28, 112, 448, 1792, 7168, 28672, 114688, 458752, 1835008, 7340032, 29360128, 117440512, 469762048, 1879048192, 7516192768, 30064771072, 120259084288, 481036337152, 1924145348608, 7696581394432, 30786325577728, 123145302310912, 492581209243648, 1970324836974592, 7881299347898368, 31525197391593472, 126100789566373888, 504403158265495552, 2017612633061982208, 8070450532247928832, 13835058055282163719]"
  by (simp add: m2_def m2_loop_numeral lfsr_step_bit)

lemma starts_loop_numeral: "starts_loop n (numeral k) r =
   starts_loop n (pred_numeral k) (if bit n (pred_numeral k) then lfsr_step (sq r) else sq r)"
  by (simp add: numeral_eq_Suc sq_def)
lemma sq_num: "sq (numeral w) = xor_sel m2 0 (numeral w) 0" by (simp add: sq_def)
lemma starts_loop_PERIOD: "starts_loop 1317624576693539401 60 2 = 1"
  by (simp add: starts_loop_numeral sq_num m2_eq lfsr_step_bit)

section \<open>Streams of commuting updates\<close>

lemma run_ops_app: "run_ops f (us @ vs) t = Option.bind (run_ops f us t) (run_ops f vs)"
  by (induction us arbitrary: t) (auto split: Option.bind_split)

lemma run_ops_bind: "Option.bind m (run_ops f (u # us)) = Option.bind (Option.bind m (f u)) (run_ops f us)"
  by (cases m) simp_all

text \<open>
  What the proofs need of an update: on states that satisfy \<open>ok\<close> every valid update
  succeeds, any two of them commute, and each is its own inverse.
\<close>

locale comm_updates =
  fixes f :: "'u \<Rightarrow> 't \<Rightarrow> 't option" and ok :: "'t \<Rightarrow> bool" and valid :: "'u \<Rightarrow> bool"
  assumes total: "ok t \<Longrightarrow> valid u \<Longrightarrow> \<exists>t'. f u t = Some t' \<and> ok t'"
    and comm: "ok t \<Longrightarrow> valid u \<Longrightarrow> valid v \<Longrightarrow> Option.bind (f u t) (f v) = Option.bind (f v t) (f u)"
    and self_inverse: "ok t \<Longrightarrow> valid u \<Longrightarrow> Option.bind (f u t) (f u) = Some t"
begin

lemma run_ops_total: "ok t \<Longrightarrow> list_all valid us \<Longrightarrow> \<exists>t'. run_ops f us t = Some t' \<and> ok t'"
proof (induction us arbitrary: t)
  case (Cons u us)
  then obtain t1 where "f u t = Some t1" "ok t1" using total by fastforce
  with Cons show ?case by auto
qed simp

lemma run_ops_move: "ok t \<Longrightarrow> list_all valid us \<Longrightarrow> valid v \<Longrightarrow> run_ops f (us @ [v]) t = run_ops f (v # us) t"
proof (induction us arbitrary: t)
  case (Cons u us)
  from Cons.prems obtain t1 where t1: "f u t = Some t1" "ok t1" using total by fastforce
  have "run_ops f ((u # us) @ [v]) t = run_ops f (v # us) t1"
    using Cons t1 by simp
  also have "\<dots> = Option.bind (Option.bind (f u t) (f v)) (run_ops f us)"
    using t1 by simp
  also have "\<dots> = run_ops f (v # u # us) t"
    using comm [of t u v] Cons.prems run_ops_bind [of "f v t" f u us] by simp
  finally show ?case .
qed simp

lemma run_ops_perm:
  "mset us = mset vs \<Longrightarrow> ok t \<Longrightarrow> list_all valid us \<Longrightarrow> run_ops f us t = run_ops f vs t"
proof (induction us arbitrary: vs t)
  case (Cons u us)
  from Cons.prems(1) have "u \<in> set vs" by (metis list.set_intros(1) mset_eq_setD)
  then obtain as bs where vs: "vs = as @ u # bs" by (meson split_list)
  have m: "mset us = mset (as @ bs)" using Cons.prems(1) vs by simp
  have val: "list_all valid as" "list_all valid bs" "valid u"
    using Cons.prems(3) mset_eq_setD [OF Cons.prems(1)] vs by (auto simp: list_all_iff)
  from Cons.prems total val obtain t1 where t1: "f u t = Some t1" "ok t1" by blast
  have "run_ops f vs t = Option.bind (run_ops f (as @ [u]) t) (run_ops f bs)"
    using run_ops_app [of f "as @ [u]" bs t] vs by simp
  also have "\<dots> = Option.bind (run_ops f (u # as) t) (run_ops f bs)"
    using run_ops_move [OF Cons.prems(2) val(1,3)] by simp
  also have "\<dots> = run_ops f (as @ bs) t1"
    using t1 by (simp add: run_ops_app)
  also have "\<dots> = run_ops f us t1"
    using Cons.IH [OF m t1(2)] Cons.prems(3) by simp
  finally show ?case using t1 by simp
qed simp

lemma run_ops_twice:
  "ok t \<Longrightarrow> list_all valid us \<Longrightarrow> Option.bind (run_ops f us t) (run_ops f us) = Some t"
proof (induction us arbitrary: t)
  case (Cons u us)
  from Cons.prems total obtain t1 where t1: "f u t = Some t1" "ok t1" by fastforce
  have "Option.bind (run_ops f (u # us) t) (run_ops f (u # us)) = run_ops f (us @ u # us) t1"
    using t1 by (simp add: run_ops_app)
  also have "\<dots> = run_ops f (u # (us @ us)) t1"
    using run_ops_perm [of "us @ u # us" "u # (us @ us)" t1] Cons.prems t1 by simp
  also have "\<dots> = run_ops f (us @ us) t"
    using self_inverse [of t u] Cons.prems t1 by (auto split: Option.bind_splits)
  also have "\<dots> = Some t" using Cons by (simp add: run_ops_app)
  finally show ?case .
qed simp

end

lemma xor_at_eq: "xor_at T i r = (if i < length T then Some (T[i := T ! i XOR r]) else None)"
  by (simp add: xor_at_def aget_def aset_def)

interpretation xops: comm_updates xop "\<lambda>t. length t = L" "\<lambda>u. fst u < L" for L :: nat
proof unfold_locales
  fix t :: "u64 list" and u v :: "nat \<times> u64"
  assume t: "length t = L" and u: "fst u < L"
  show "\<exists>t'. xop u t = Some t' \<and> length t' = L"
    using t u by (simp add: xop_def xor_at_eq)
  show "Option.bind (xop u t) (xop u) = Some t"
    using t u by (simp add: xop_def xor_at_eq xor.assoc)
  assume v: "fst v < L"
  show "Option.bind (xop u t) (xop v) = Option.bind (xop v t) (xop u)"
    using t u v by (cases "fst u = fst v")
      (simp_all add: xop_def xor_at_eq list_update_swap xor.assoc xor.commute xor.left_commute)
qed

lemma run_xop_None_iff:
  "run_ops xop us T = None \<longleftrightarrow> (\<exists>u \<in> set us. length T \<le> fst u)"
  by (induction us arbitrary: T) (auto simp: xop_def xor_at_eq)

lemma update_st_ops: "0 < n \<Longrightarrow> update_st n r T = run_ops xop (ops_st n r) T"
  by (simp add: update_st_def ops_st_def xop_def [abs_def] Let_def split: Option.bind_split)

lemma update_mt_ops: "0 < n \<Longrightarrow> update_mt n r T = run_ops xop (ops_mt n r) T"
  by (simp add: update_mt_def ops_mt_def xop_def [abs_def] Let_def split: Option.bind_split)

lemma gups_inner_run:
  "gups_inner f rn T = map_option (Pair (map lfsr_step rn)) (run_ops f (map lfsr_step rn) T)"
  by (induction rn arbitrary: T)
    (auto simp: map_option_case split: option.splits Option.bind_splits)

lemma thread_values_Suc:
  "thread_values rn (Suc k) = map lfsr_step rn @ thread_values (map lfsr_step rn) k"
proof -
  have "map (\<lambda>i. map (lfsr_step ^^ Suc i) rn) [1..<Suc k] = map (\<lambda>i. map (lfsr_step ^^ Suc i) (map lfsr_step rn)) [0..<k]"
    by (rule nth_equalityI) (simp_all add: funpow_swap1 del: upt_Suc)
  then show ?thesis by (simp add: thread_values_def upt_conv_Cons del: upt_Suc)
qed

lemma gups_outer_run:
  "gups_outer f k rn T = map_option (Pair (map (lfsr_step ^^ k) rn)) (run_ops f (thread_values rn k) T)"
proof (induction k arbitrary: rn T)
  case 0
  then show ?case by (simp add: thread_values_def)
next
  case (Suc k)
  show ?case
    by (simp add: gups_inner_run thread_values_Suc run_ops_app Suc comp_def funpow_swap1 map_option_case
        split: option.split)
qed

lemma run_ops_concat:
  "(\<And>u t. f u t = run_ops g (h u) t) \<Longrightarrow> run_ops f us t = run_ops g (concat (map h us)) t"
proof (induction us arbitrary: t)
  case (Cons u us)
  then show ?case by (cases "run_ops g (h u) t") (simp_all add: run_ops_app)
qed simp

lemma gups_outer_st:
  "0 < n \<Longrightarrow> map_option snd (gups_outer (update_st n) k rn T) =
     run_ops xop (concat (map (ops_st n) (thread_values rn k))) T"
  by (simp add: gups_outer_run option.map_comp comp_def option.map_ident
      run_ops_concat [of "update_st n" xop "ops_st n", OF update_st_ops])

lemma gups_outer_mt:
  "0 < n \<Longrightarrow> map_option snd (gups_outer (update_mt n) k rn T) =
     run_ops xop (concat (map (ops_mt n) (thread_values rn k))) T"
  by (simp add: gups_outer_run option.map_comp comp_def option.map_ident
      run_ops_concat [of "update_mt n" xop "ops_mt n", OF update_mt_ops])

section \<open>The period\<close>

lemma lfsr_period: "(lfsr_step ^^ nat PERIOD) 1 = 1"
proof -
  have "starts_loop PERIOD 60 ((lfsr_step ^^ nat (PERIOD div 2 ^ 60)) 1) = (lfsr_step ^^ nat PERIOD) 1"
    by (rule starts_loop_funpow) (simp add: PERIOD_def)
  moreover have "(lfsr_step ^^ nat (PERIOD div 2 ^ 60)) 1 = 2"
    by (simp add: PERIOD_def lfsr_step_bit)
  ultimately show ?thesis using starts_loop_PERIOD by (simp only: PERIOD_def)
qed

lemma lfsr_period_mult: "(lfsr_step ^^ (nat PERIOD * k)) 1 = 1"
proof (induction k)
  case (Suc k)
  then show ?case using lfsr_period by (simp add: funpow_add)
qed simp

lemma lfsr_value_mod: "lfsr_value (m mod nat PERIOD) = lfsr_value m"
proof -
  have "lfsr_value m = (lfsr_step ^^ (m mod nat PERIOD + nat PERIOD * (m div nat PERIOD))) 1"
    by (simp add: lfsr_value_def)
  then show ?thesis
    by (simp only: funpow_add o_apply lfsr_period_mult lfsr_value_def)
qed

lemma HPCC_starts_value: "HPCC_starts w = lfsr_value (nat (sint w mod PERIOD))"
proof -
  let ?n = "starts_down (starts_up (sint w))"
  have n: "?n mod PERIOD = sint w mod PERIOD" "0 \<le> ?n"
    using starts_down_mod starts_up_mod by auto
  have "HPCC_starts w = lfsr_value (nat ?n)"
    by (simp add: HPCC_starts_funpow lfsr_value_def)
  also have "\<dots> = lfsr_value (nat (?n mod PERIOD))"
    using lfsr_value_mod [of "nat ?n"] n(2) by (simp add: nat_mod_distrib PERIOD_def)
  finally show ?thesis by (simp add: n)
qed

lemma HPCC_starts_nat: "m < 2 ^ 63 \<Longrightarrow> HPCC_starts (word_of_nat m) = lfsr_value m"
proof -
  assume m: "m < 2 ^ 63"
  have "sint (word_of_nat m :: u64) = int m"
    using m by (simp add: signed_of_nat signed_take_bit_int_eq_self)
  then have "HPCC_starts (word_of_nat m) = lfsr_value (nat (int m mod int (nat PERIOD)))"
    by (simp add: HPCC_starts_value PERIOD_def)
  then show ?thesis by (simp add: nat_mod_distrib lfsr_value_mod)
qed

lemma lfsr_funpow_value: "(lfsr_step ^^ k) (lfsr_value m) = lfsr_value (k + m)"
  by (simp add: lfsr_value_def funpow_add)

lemma mset_thread_values:
  "mset (thread_values (map (\<lambda>j. lfsr_value (s + b * j)) [0..<n]) b) =
   mset (map (\<lambda>m. lfsr_value (Suc s + m)) [0..<b * n])"
proof -
  have "mset (thread_values (map (\<lambda>j. lfsr_value (s + b * j)) [0..<n]) b) =
    mset (concat (map (\<lambda>i. map (\<lambda>j. lfsr_value (Suc s + (b * j + i))) [0..<n]) [0..<b]))"
    by (simp add: thread_values_def lfsr_funpow_value comp_def add.commute add.left_commute del: funpow.simps)
  also have "\<dots> = mset (concat (map (\<lambda>j. map (\<lambda>i. lfsr_value (Suc s + (b * j + i))) [0..<b]) [0..<n]))"
    by (rule mset_concat_map_upt_swap)
  finally show ?thesis by (simp only: concat_upt_blocks [of "\<lambda>m. lfsr_value (Suc s + m)"])
qed

lemma interleaving_mset: "interleaving tss w \<Longrightarrow> mset w = (\<Sum>us\<leftarrow>tss. mset us)"
proof (induction rule: interleaving.induct)
  case (finished tss)
  then have "(\<Sum>us\<leftarrow>tss. mset us) = {#}" by (induction tss) auto
  then show ?case by simp
next
  case (step i tss u us w)
  have "(\<Sum>us\<leftarrow>tss. mset us) + mset us = (\<Sum>us\<leftarrow>tss[i := us]. mset us) + mset (u # us)"
    using sum_list_mset_update [OF step.hyps(1), of us] step.hyps(2) by simp
  then have "(\<Sum>us\<leftarrow>tss. mset us) = add_mset u (\<Sum>us\<leftarrow>tss[i := us]. mset us)"
    by simp
  with step.IH show ?case by simp
qed

lemma interleaving_Nil: "interleaving tss w \<Longrightarrow> interleaving ([] # tss) w"
proof (induction rule: interleaving.induct)
  case (finished tss)
  then show ?case by (intro interleaving.finished) auto
next
  case (step i tss u us w)
  then show ?case by (intro interleaving.step [of "Suc i" _ u us]) simp_all
qed

text \<open>The schedule that runs the threads one after the other.\<close>

lemma interleaving_concat: "interleaving tss (concat tss)"
proof (induction tss)
  case (Cons us tss)
  have "interleaving (us # tss) (us @ concat tss)"
  proof (induction us)
    case (Cons u us)
    then show ?case by (auto intro: interleaving.step [of 0 _ u us])
  qed (simp add: Cons interleaving_Nil)
  then show ?case by simp
qed (auto intro: interleaving.finished)

lemma length_init_table [simp]: "length (init_table n) = n"
  by (simp add: init_table_def)

lemma concat_ops_valid:
  "0 < n \<Longrightarrow> L > n \<Longrightarrow> list_all (\<lambda>u. fst u < L) (concat (map (ops_st n) rs))"
  "0 < n \<Longrightarrow> list_all (\<lambda>u. fst u < n) (concat (map (ops_mt n) rs))"
  by (auto simp: list_all_iff ops_st_def ops_mt_def intro: less_trans [OF mod_less_divisor] le_less_trans [OF diff_le_self])

lemma starts_mt_values:
  assumes "0 < t" "tid < t" "t * (128 * b) < 2 ^ 63"
  shows "starts_mt (word_of_nat (t * (128 * b))) (word_of_nat t) (word_of_nat tid) =
    map (\<lambda>j. lfsr_value (tid * (128 * b) + b * j)) [0..<128]"
    and "rounds_mt (word_of_nat (t * (128 * b))) (word_of_nat t) = b"
proof -
  have lt: "t < 2 ^ 63 \<or> b = 0" using assms(3) by (cases b) (auto intro: le_less_trans [rotated])
  have upt: "(word_of_nat (t * (128 * b)) :: u64) div word_of_nat t = word_of_nat (128 * b)"
    using lt assms word_of_nat_div [of "t * (128 * b)" t, where 'a = 64] by (cases "b = 0") auto
  have b: "128 * b < 2 ^ 63" using assms(1,3) by (cases t) (auto intro: le_less_trans [rotated])
  have div: "(word_of_nat (128 * b) :: u64) div 128 = word_of_nat b"
    using b word_of_nat_div [of "128 * b" 128, where 'a = 64] by simp
  show "rounds_mt (word_of_nat (t * (128 * b))) (word_of_nat t) = b"
    using b unfolding rounds_mt_def upt div by (simp add: unat_of_nat_small)
  have "tid * (128 * b) + b * j < 2 ^ 63" if "j < 128" for j
  proof -
    have "tid * (128 * b) + b * j \<le> tid * (128 * b) + 128 * b" using that by simp
    also have "\<dots> = Suc tid * (128 * b)" by simp
    also have "\<dots> \<le> t * (128 * b)" using assms(2) by (intro mult_le_mono1) simp
    finally show ?thesis using assms(3) by (rule le_less_trans)
  qed
  then show "starts_mt (word_of_nat (t * (128 * b))) (word_of_nat t) (word_of_nat tid) =
      map (\<lambda>j. lfsr_value (tid * (128 * b) + b * j)) [0..<128]"
    unfolding starts_mt_def Let_def upt div
    by (auto simp flip: of_nat_mult of_nat_add intro!: HPCC_starts_nat)
qed

lemma starts_st_values:
  "128 * b < 2 ^ 63 \<Longrightarrow> starts_st (word_of_nat (128 * b)) = map (\<lambda>j. lfsr_value (0 + b * j)) [0..<128]"
  using starts_mt_values(1) [of 1 0 b] by (simp add: starts_mt_def starts_st_def)

text \<open>
  C11: the jump-ahead function of the generator is iteration of the shift register: for every
  64-bit argument, taken as a signed position modulo the period, \<open>HPCC_starts\<close> returns the
  register after that many steps from 1.
\<close>

theorem HPCC_starts_jump: "HPCC_starts w = (lfsr_step ^^ nat (sint w mod PERIOD)) 1"
  by (simp add: HPCC_starts_value lfsr_value_def)

text \<open>
  C12: the sequential batched loop never leaves the allocated block, and the table it ends
  with is the one obtained by applying the first \<open>nupdate\<close> values of the stream one after
  the other.
\<close>

theorem gups_st_reference:
  assumes n_def: "n = unat (cfg_mem cfg div 8)"
    and asm: "cfg_nupdate cfg = word_of_nat (128 * b)" "128 * b < 2 ^ 63" "8 \<le> cfg_mem cfg" "length slack = 2"
  shows "\<exists>Table. gups_st cfg slack = Some Table \<and> length Table = n + 2 \<and>
    run_ops xop (concat (map (\<lambda>m. ops_st n (lfsr_value (Suc m))) [0..<128 * b])) (init_table n @ slack) = Some Table"
proof -
  let ?T = "init_table n @ slack" and ?vs = "thread_values (starts_st (cfg_nupdate cfg)) b"
  have n: "0 < n" using asm(3) by (simp add: n_def unat_div word_le_nat_alt)
  have "(word_of_nat (128 * b) :: u64) div 128 = word_of_nat b"
    using asm(2) word_of_nat_div [of "128 * b" 128, where 'a = 64] by simp
  then have rounds: "unat (cfg_nupdate cfg div 128) = b"
    using asm(1,2) by (simp add: unat_of_nat_small)
  have st: "gups_st cfg slack = run_ops xop (concat (map (ops_st n) ?vs)) ?T"
    using n by (simp add: gups_st_def Let_def rounds gups_outer_st flip: n_def)
  have "mset ?vs = mset (map (\<lambda>m. lfsr_value (Suc 0 + m)) [0..<b * 128])"
    unfolding asm(1) starts_st_values [OF asm(2)] by (rule mset_thread_values)
  then have "mset ?vs = mset (map (\<lambda>m. lfsr_value (Suc m)) [0..<128 * b])"
    by (simp add: mult.commute)
  from mset_concat_map_cong [OF this, of "ops_st n"]
  have ms: "mset (concat (map (ops_st n) ?vs)) =
      mset (concat (map (\<lambda>m. ops_st n (lfsr_value (Suc m))) [0..<128 * b]))"
    by (simp add: comp_def)
  have L: "length ?T = n + 2" using asm(4) by simp
  have val: "list_all (\<lambda>u. fst u < n + 2) (concat (map (ops_st n) ?vs))"
    using n by (intro concat_ops_valid) auto
  from xops.run_ops_total [OF L val] xops.run_ops_perm [OF ms L val] st show ?thesis by auto
qed

theorem gups_st_reference_witness:
  "\<exists>Table. gups_st \<lparr>cfg_mem = 64, cfg_nupdate = word_of_nat (128 * 3)\<rparr> [5, 6] = Some Table \<and> length Table = 8 + 2 \<and>
    run_ops xop (concat (map (\<lambda>m. ops_st 8 (lfsr_value (Suc m))) [0..<128 * 3])) (init_table 8 @ [5, 6]) = Some Table"
  by (rule gups_st_reference) simp_all



lemma thread_values_mem: "r \<in> set rn \<Longrightarrow> i < k \<Longrightarrow> (lfsr_step ^^ Suc i) r \<in> set (thread_values rn k)"
  by (auto simp: thread_values_def simp del: funpow.simps)

lemma gupstoy_rounds_None:
  assumes "27 \<le> rounds"
  shows "gupstoy_rounds rounds = None"
proof -
  define n :: nat where "n = 2 ^ 27"
  define vs where "vs = thread_values (starts_st toy_nupdate) rounds"
  have n: "unat (toy_mem div 8) = n" by (simp add: toy_mem_def n_def)
  have "HPCC_starts 0 = 1" using HPCC_starts_nat [of 0] by (simp add: lfsr_value_def)
  then have "1 \<in> set (starts_st toy_nupdate)"
    unfolding starts_st_def set_map by (intro image_eqI [where x = 0]) simp_all
  then have "(lfsr_step ^^ Suc 26) 1 \<in> set vs"
    unfolding vs_def using assms by (intro thread_values_mem) simp_all
  moreover have "(lfsr_step ^^ Suc 26) 1 = 2 ^ 27"
    by (rule trans [OF lfsr_funpow_1]) simp_all
  ultimately have v: "2 ^ 27 \<in> set vs"
    by (simp only:)
  have "unat (2 ^ 27 :: u64) mod n = 0" using unat_pow2 [of 27] by (simp only: n_def) simp
  then have "(n, 2 ^ 27) \<in> set (ops_st n (2 ^ 27))" by (simp add: ops_st_def)
  with v have "(n, 2 ^ 27) \<in> set (concat (map (ops_st n) vs))" by (auto simp only: set_concat set_map)
  then have "run_ops xop (concat (map (ops_st n) vs)) (init_table n) = None"
    unfolding run_xop_None_iff by (rule bexI [rotated]) simp
  moreover have "0 < n" by (simp add: n_def)
  ultimately show ?thesis
    by (simp only: gupstoy_rounds_def Let_def n gups_outer_st vs_def)
qed


lemma round_mem_search:
  "i + k = 64 \<Longrightarrow> 0 < i \<Longrightarrow> 2 ^ (i - 1) \<le> unat mem \<Longrightarrow>
    (unat mem < 2 ^ 63 \<longrightarrow> (\<exists>j < 63. round_mem k i mem = Some (2 ^ j) \<and> 2 ^ j \<le> unat mem \<and> unat mem < 2 ^ Suc j)) \<and>
    (2 ^ 63 \<le> unat mem \<longrightarrow> round_mem k i mem = Some mem)"
proof (induction k arbitrary: i)
  case 0
  then show ?case by auto
next
  case (Suc k)
  have i: "i < 64" using Suc.prems by simp
  show ?case
  proof (cases "unat mem < 2 ^ i")
    case True
    then have "round_mem (Suc k) i mem = Some (2 ^ (i - 1))"
      using Suc.prems i by (simp add: word_less_nat_alt unat_pow2)
    moreover have "unat mem < 2 ^ 63 \<and> i - 1 < 63 \<and> 2 ^ (i - 1) \<le> unat mem \<and> unat mem < 2 ^ Suc (i - 1)"
      using True Suc.prems i power_increasing [of i 63 "2 :: nat"] by auto
    ultimately show ?thesis by (meson not_le)
  next
    case False
    with Suc.IH [of "Suc i"] Suc.prems i show ?thesis
      by (simp add: word_less_nat_alt unat_pow2)
  qed
qed

text \<open>
  C15: the size in bytes is rounded down to the largest power of two not above it.
\<close>

theorem round_mem_power_of_two:
  assumes "0 < mem" "unat mem < 2 ^ 63"
  shows "\<exists>j < 63. round_mem 64 0 mem = Some (2 ^ j) \<and> 2 ^ j \<le> unat mem \<and> unat mem < 2 ^ Suc j"
proof -
  have m: "1 \<le> unat mem" using assms(1) by (simp add: word_less_nat_alt)
  have "round_mem (Suc 63) 0 mem = round_mem 63 1 mem"
    using m by (simp only: round_mem.simps push_bit_of_1 power_0 word_less_nat_alt) simp
  moreover have "Suc 63 = 64" by simp
  ultimately have "round_mem 64 0 mem = round_mem 63 1 mem" by (simp only:)
  with round_mem_search [of 1 63 mem] m assms(2) show ?thesis by auto
qed

theorem round_mem_power_of_two_witness:
  "\<exists>j < 63. round_mem 64 0 (push_bit 30 48) = Some (2 ^ j) \<and> 2 ^ j \<le> unat (push_bit 30 48 :: u64) \<and> unat (push_bit 30 48 :: u64) < 2 ^ Suc j"
  by (rule round_mem_power_of_two) simp_all

text \<open>
  The OpenMP version never performs more updates than the \<open>nupdate\<close> it reports: each of
  the threads does 128 updates per round.
\<close>

lemma mt_updates_bound:
  "unat nthr * (128 * rounds_mt nupdate nthr) \<le> unat nupdate"
proof -
  let ?q = "unat nupdate div unat nthr"
  have "128 * (?q div 128) \<le> ?q" by simp
  then have "unat nthr * (128 * (?q div 128)) \<le> unat nthr * ?q" by (rule mult_le_mono2)
  also have "\<dots> \<le> unat nupdate" by simp
  finally show ?thesis by (simp add: rounds_mt_def unat_div)
qed

end
