(* ===== verification/Btree.thy ===== *)
theory Btree
  imports Prelude
begin

text \<open>
  The B+ tree of \<open>sources/btree/btree.c\<close> as the C code has it: nodes and records live in a
  heap, arrays are accessed with their bounds checked, nodes and records come from slab
  allocators that grow by \<open>mmap\<close>, and every function threads the memory. The value
  \<open>None\<close> stands for an exit of the process (\<open>ENOMEM\<close>, \<open>perror\<close>) and for an access that C leaves
  undefined (\<open>NULL\<close>, freed memory, an index outside of an array).

  Addresses are natural numbers and 0 is \<open>NULL\<close>. The global \<open>order\<close> is the argument \<open>od\<close>. Each node
  owns the two arrays allocated for it in \<open>make_node\<close>, so they are fields of the node; an array
  that has been freed is the empty list. Counters are natural numbers: every increment follows a
  checked access at that index, and decrements wrap at 64 bits (\<open>dec64\<close>).
\<close>

section \<open>Memory\<close>

type_synonym addr = nat

record node =
  pointers :: "addr list"
  keys :: "u64 list"
  parent :: addr
  is_leaf :: bool
  num_keys :: nat
  next_node :: addr

text \<open>The union in \<open>struct record\<close>: the last member written; reading the other one converts.\<close>

datatype rcell = Value u64 | Next_rec addr

fun rec_value :: "rcell \<Rightarrow> u64" where
  "rec_value (Value v) = v"
| "rec_value (Next_rec a) = word_of_nat a"

fun rec_next :: "rcell \<Rightarrow> addr" where
  "rec_next (Value v) = unat v"
| "rec_next (Next_rec a) = a"

text \<open>
  The operating system: \<open>mmap_os\<close> answers a request for a number of bytes, given the regions
  mapped before (\<open>None\<close> is \<open>MAP_FAILED\<close>); \<open>memalign_os\<close> says whether the n-th call of
  \<open>posix_memalign\<close> succeeds.
\<close>

record os =
  mmap_os :: "(addr \<times> nat) list \<Rightarrow> nat \<Rightarrow> addr option"
  memalign_os :: "nat \<Rightarrow> bool"

record mem =
  nodes :: "addr \<rightharpoonup> node"
  recs :: "addr \<rightharpoonup> rcell"
  free_nodes :: addr
  free_recs :: addr
  queue :: addr
  allocator_stat :: u64
  regions :: "(addr \<times> nat) list"
  aligned :: nat

definition init_mem :: mem where
  "init_mem = \<lparr>nodes = Map.empty, recs = Map.empty, free_nodes = 0, free_recs = 0, queue = 0,
     allocator_stat = 0, regions = [], aligned = 0\<rparr>"

definition dec64 :: "nat \<Rightarrow> nat" where
  "dec64 n = (if n = 0 then 2 ^ 64 - 1 else n - 1)"

definition get_node :: "mem \<Rightarrow> addr \<Rightarrow> node option" where
  "get_node s a = (if a = 0 then None else nodes s a)"

definition mod_node :: "(node \<Rightarrow> node option) \<Rightarrow> addr \<Rightarrow> mem \<Rightarrow> mem option" where
  "mod_node f a s = do { n \<leftarrow> get_node s a; n \<leftarrow> f n; Some (s\<lparr>nodes := (nodes s)(a \<mapsto> n)\<rparr>) }"

definition get_rec :: "mem \<Rightarrow> addr \<Rightarrow> rcell option" where
  "get_rec s a = (if a = 0 then None else recs s a)"

definition set_rec :: "rcell \<Rightarrow> addr \<Rightarrow> mem \<Rightarrow> mem option" where
  "set_rec c a s = do { _ \<leftarrow> get_rec s a; Some (s\<lparr>recs := (recs s)(a \<mapsto> c)\<rparr>) }"

definition put_key :: "nat \<Rightarrow> u64 \<Rightarrow> node \<Rightarrow> node option" where
  "put_key i k n = do { ks \<leftarrow> aset (keys n) i k; Some (n\<lparr>keys := ks\<rparr>) }"

definition put_ptr :: "nat \<Rightarrow> addr \<Rightarrow> node \<Rightarrow> node option" where
  "put_ptr i p n = do { ps \<leftarrow> aset (pointers n) i p; Some (n\<lparr>pointers := ps\<rparr>) }"

definition put_parent :: "addr \<Rightarrow> node \<Rightarrow> node option" where
  "put_parent p n = Some (n\<lparr>parent := p\<rparr>)"

definition put_next :: "addr \<Rightarrow> node \<Rightarrow> node option" where
  "put_next p n = Some (n\<lparr>next_node := p\<rparr>)"

definition get_key :: "mem \<Rightarrow> addr \<Rightarrow> nat \<Rightarrow> u64 option" where
  "get_key s a i = do { n \<leftarrow> get_node s a; aget (keys n) i }"

definition get_ptr :: "mem \<Rightarrow> addr \<Rightarrow> nat \<Rightarrow> addr option" where
  "get_ptr s a i = do { n \<leftarrow> get_node s a; aget (pointers n) i }"

section \<open>Allocation\<close>

definition allocate :: "os \<Rightarrow> nat \<Rightarrow> mem \<Rightarrow> (addr \<times> mem) option" where
  "allocate os sz s = do {
     a \<leftarrow> mmap_os os (regions s) sz;
     Some (a, s\<lparr>allocator_stat := allocator_stat s + word_of_nat sz, regions := (a, sz) # regions s\<rparr>) }"

text \<open>\<open>allocate_align64 os n s\<close> is the call with \<open>n * 8\<close> bytes: an array of \<open>n\<close> zeroed 8-byte cells.\<close>

definition allocate_align64 :: "os \<Rightarrow> nat \<Rightarrow> mem \<Rightarrow> ('a::zero list \<times> mem) option" where
  "allocate_align64 os n s =
     (if memalign_os os (aligned s)
      then Some (replicate n 0,
                 s\<lparr>allocator_stat := allocator_stat s + word_of_nat (n * 8), aligned := Suc (aligned s)\<rparr>)
      else None)"

definition zero_node :: node where
  "zero_node = \<lparr>pointers = [], keys = [], parent = 0, is_leaf = False, num_keys = 0, next_node = 0\<rparr>"

definition sizeof_node :: nat where "sizeof_node = 48"
definition sizeof_record :: nat where "sizeof_record = 8"
definition NODE_SLAB_GROW :: nat where "NODE_SLAB_GROW = 2 ^ 18"
definition RECORD_SLAB_GROW :: nat where "RECORD_SLAB_GROW = 2 ^ 18"

definition grow_nodes :: "os \<Rightarrow> mem \<Rightarrow> mem option" where
  "grow_nodes os s = do {
     (n, s) \<leftarrow> allocate os NODE_SLAB_GROW s;
     for_up 0 (NODE_SLAB_GROW div sizeof_node)
       (\<lambda>i s. Some (s\<lparr>nodes := (nodes s)(n + i * sizeof_node \<mapsto> zero_node\<lparr>next_node := free_nodes s\<rparr>),
                      free_nodes := n + i * sizeof_node\<rparr>)) s }"

definition alloc_node :: "os \<Rightarrow> mem \<Rightarrow> (addr \<times> mem) option" where
  "alloc_node os s = do {
     s \<leftarrow> (if free_nodes s = 0 then grow_nodes os s else Some s);
     nd \<leftarrow> get_node s (free_nodes s);
     Some (free_nodes s, s\<lparr>free_nodes := next_node nd\<rparr>) }"

definition free_node :: "addr \<Rightarrow> mem \<Rightarrow> mem option" where
  "free_node a s = do {
     s \<leftarrow> mod_node (put_next (free_nodes s)) a s;
     Some (s\<lparr>free_nodes := a\<rparr>) }"

definition grow_recs :: "os \<Rightarrow> mem \<Rightarrow> mem option" where
  "grow_recs os s = do {
     (r, s) \<leftarrow> allocate os RECORD_SLAB_GROW s;
     for_up 0 (RECORD_SLAB_GROW div sizeof_record)
       (\<lambda>i s. Some (s\<lparr>recs := (recs s)(r + i * sizeof_record \<mapsto> Next_rec (free_recs s)),
                      free_recs := r + i * sizeof_record\<rparr>)) s }"

definition alloc_record :: "os \<Rightarrow> mem \<Rightarrow> (addr \<times> mem) option" where
  "alloc_record os s = do {
     s \<leftarrow> (if free_recs s = 0 then grow_recs os s else Some s);
     c \<leftarrow> get_rec s (free_recs s);
     Some (free_recs s, s\<lparr>free_recs := rec_next c\<rparr>) }"

definition free_record :: "addr \<Rightarrow> mem \<Rightarrow> mem option" where
  "free_record r s = do {
     s \<leftarrow> set_rec (Next_rec (free_recs s)) r s;
     Some (s\<lparr>free_recs := r\<rparr>) }"

definition make_record :: "os \<Rightarrow> u64 \<Rightarrow> mem \<Rightarrow> (addr \<times> mem) option" where
  "make_record os v s = do {
     (r, s) \<leftarrow> alloc_record os s;
     s \<leftarrow> set_rec (Value v) r s;
     Some (r, s) }"

definition make_node :: "os \<Rightarrow> nat \<Rightarrow> mem \<Rightarrow> (addr \<times> mem) option" where
  "make_node os od s = do {
     (a, s) \<leftarrow> alloc_node os s;
     (ks, s) \<leftarrow> allocate_align64 os (od - 1) s;
     (ps, s) \<leftarrow> allocate_align64 os od s;
     s \<leftarrow> mod_node (\<lambda>n. Some (n\<lparr>keys := ks, pointers := ps, is_leaf := False, num_keys := 0,
                               parent := 0, next_node := 0\<rparr>)) a s;
     Some (a, s) }"

definition make_leaf :: "os \<Rightarrow> nat \<Rightarrow> mem \<Rightarrow> (addr \<times> mem) option" where
  "make_leaf os od s = do {
     (a, s) \<leftarrow> make_node os od s;
     s \<leftarrow> mod_node (\<lambda>n. Some (n\<lparr>is_leaf := True\<rparr>)) a s;
     Some (a, s) }"

text \<open>\<open>free(n->keys); free(n->pointers); free_node(n);\<close>\<close>

definition release_node :: "addr \<Rightarrow> mem \<Rightarrow> mem option" where
  "release_node a s = do {
     s \<leftarrow> mod_node (\<lambda>n. Some (n\<lparr>keys := [], pointers := []\<rparr>)) a s;
     free_node a s }"

section \<open>The queue of print\_tree\<close>

partial_function (option) last_in_queue :: "mem \<Rightarrow> addr \<Rightarrow> addr option" where
  "last_in_queue s c = do {
     n \<leftarrow> get_node s c;
     if next_node n \<noteq> 0 then last_in_queue s (next_node n) else Some c }"

definition enqueue :: "addr \<Rightarrow> mem \<Rightarrow> mem option" where
  "enqueue a s =
     (if queue s = 0 then mod_node (put_next 0) a (s\<lparr>queue := a\<rparr>)
      else do {
        c \<leftarrow> last_in_queue s (queue s);
        s \<leftarrow> mod_node (put_next a) c s;
        mod_node (put_next 0) a s })"

definition dequeue :: "mem \<Rightarrow> (addr \<times> mem) option" where
  "dequeue s = do {
     n \<leftarrow> get_node s (queue s);
     s' \<leftarrow> mod_node (put_next 0) (queue s) (s\<lparr>queue := next_node n\<rparr>);
     Some (queue s, s') }"

section \<open>Searching\<close>

text \<open>The inner loop of \<open>find_leaf\<close>: the first index whose key is greater than \<open>key\<close>.\<close>

definition child_index :: "node \<Rightarrow> u64 \<Rightarrow> nat option" where
  "child_index n key = scan 0 (num_keys n) (\<lambda>i. do { k \<leftarrow> aget (keys n) i; Some (k \<le> key) })"

partial_function (option) descend :: "mem \<Rightarrow> u64 \<Rightarrow> addr \<Rightarrow> addr option" where
  "descend s key c = do {
     n \<leftarrow> get_node s c;
     if is_leaf n then Some c
     else do { i \<leftarrow> child_index n key; c \<leftarrow> aget (pointers n) i; descend s key c } }"

definition find_leaf :: "mem \<Rightarrow> addr \<Rightarrow> u64 \<Rightarrow> addr option" where
  "find_leaf s root key = (if root = 0 then Some root else descend s key root)"

text \<open>The function \<open>find\<close> returns the record and the leaf (the \<open>leaf_out\<close> argument).\<close>

definition find_record :: "mem \<Rightarrow> addr \<Rightarrow> u64 \<Rightarrow> (addr \<times> addr) option" where
  "find_record s root key =
     (if root = 0 then Some (0, 0)
      else do {
        leaf \<leftarrow> find_leaf s root key;
        n \<leftarrow> get_node s leaf;
        i \<leftarrow> scan 0 (num_keys n) (\<lambda>i. do { k \<leftarrow> aget (keys n) i; Some (k \<noteq> key) });
        if i = num_keys n then Some (0, leaf)
        else do { p \<leftarrow> aget (pointers n) i; Some (p, leaf) } })"

partial_function (option) leftmost :: "mem \<Rightarrow> nat \<Rightarrow> addr \<Rightarrow> (addr \<times> nat) option" where
  "leftmost s h c = do {
     n \<leftarrow> get_node s c;
     if is_leaf n then Some (c, h)
     else do { c \<leftarrow> aget (pointers n) 0; leftmost s (Suc h) c } }"

definition height :: "mem \<Rightarrow> addr \<Rightarrow> nat option" where
  "height s root = do { (c, h) \<leftarrow> leftmost s 0 root; Some h }"

partial_function (option) path_up :: "mem \<Rightarrow> addr \<Rightarrow> nat \<Rightarrow> addr \<Rightarrow> nat option" where
  "path_up s root len c =
     (if c = root then Some len
      else do { n \<leftarrow> get_node s c; path_up s root (Suc len) (parent n) })"

definition path_to_root :: "mem \<Rightarrow> addr \<Rightarrow> addr \<Rightarrow> nat option" where
  "path_to_root s root child = path_up s root 0 child"

definition cut :: "nat \<Rightarrow> nat" where
  "cut len = (if len mod 2 = 0 then len div 2 else len div 2 + 1)"

section \<open>Printing\<close>

text \<open>The output of the printing functions as a list of the items they print.\<close>

datatype tok = Out_key u64 | Out_ptr addr | Out_node addr | Out_sep | Out_bar | Out_newline
  | Out_empty_tree | Out_not_found u64 | Out_found addr u64 u64

definition print_keys :: "bool \<Rightarrow> node \<Rightarrow> tok list option" where
  "print_keys verbose_output n =
     for_up 0 (num_keys n) (\<lambda>i out. do {
       out \<leftarrow> (if verbose_output then do { p \<leftarrow> aget (pointers n) i; Some (out @ [Out_ptr p]) } else Some out);
       k \<leftarrow> aget (keys n) i;
       Some (out @ [Out_key k]) }) []"

partial_function (option) print_chain :: "nat \<Rightarrow> bool \<Rightarrow> mem \<Rightarrow> addr \<Rightarrow> tok list \<Rightarrow> tok list option" where
  "print_chain od verbose_output s c out = do {
     n \<leftarrow> get_node s c;
     ts \<leftarrow> print_keys verbose_output n;
     p \<leftarrow> aget (pointers n) (od - 1);
     let out = out @ ts @ (if verbose_output then [Out_ptr p] else []) in
     if p \<noteq> 0 then print_chain od verbose_output s p (out @ [Out_sep])
     else Some (out @ [Out_newline]) }"

definition print_leaves :: "nat \<Rightarrow> bool \<Rightarrow> mem \<Rightarrow> addr \<Rightarrow> tok list option" where
  "print_leaves od verbose_output s root =
     (if root = 0 then Some [Out_empty_tree]
      else do { (c, _) \<leftarrow> leftmost s 0 root; print_chain od verbose_output s c [] })"

text \<open>One round of the loop of \<open>print_tree\<close>, and the loop.\<close>

definition print_tree_rank :: "mem \<Rightarrow> addr \<Rightarrow> addr \<Rightarrow> node \<Rightarrow> nat \<Rightarrow> (nat \<times> tok list) option" where
  "print_tree_rank s root a n rank =
     (if parent n \<noteq> 0
      then do {
        p0 \<leftarrow> get_ptr s (parent n) 0;
        if a = p0
        then do {
          new_rank \<leftarrow> path_to_root s root a;
          Some (if new_rank \<noteq> rank then (new_rank, [Out_newline]) else (rank, [])) }
        else Some (rank, []) }
      else Some (rank, []))"

partial_function (option) print_tree_loop ::
  "nat \<Rightarrow> bool \<Rightarrow> addr \<Rightarrow> nat \<Rightarrow> tok list \<Rightarrow> mem \<Rightarrow> (tok list \<times> mem) option" where
  "print_tree_loop od verbose_output root rank out s =
     (if queue s = 0 then Some (out @ [Out_newline], s)
      else do {
        (a, s) \<leftarrow> dequeue s;
        n \<leftarrow> get_node s a;
        (rank, nl) \<leftarrow> print_tree_rank s root a n rank;
        ks \<leftarrow> print_keys verbose_output n;
        s \<leftarrow> (if is_leaf n then Some s
             else for_up 0 (Suc (num_keys n)) (\<lambda>i s. do { p \<leftarrow> aget (pointers n) i; enqueue p s }) s);
        lp \<leftarrow> (if verbose_output
              then do { p \<leftarrow> aget (pointers n) (if is_leaf n then od - 1 else num_keys n); Some [Out_ptr p] }
              else Some []);
        print_tree_loop od verbose_output root rank
          (out @ nl @ (if verbose_output then [Out_node a] else []) @ ks @ lp @ [Out_bar]) s })"

definition print_tree :: "nat \<Rightarrow> bool \<Rightarrow> addr \<Rightarrow> mem \<Rightarrow> (tok list \<times> mem) option" where
  "print_tree od verbose_output root s =
     (if root = 0 then Some ([Out_empty_tree], s)
      else do { s \<leftarrow> enqueue root (s\<lparr>queue := 0\<rparr>); print_tree_loop od verbose_output root 0 [] s })"

definition find_and_print :: "mem \<Rightarrow> addr \<Rightarrow> u64 \<Rightarrow> tok list option" where
  "find_and_print s root key = do {
     (r, _) \<leftarrow> find_record s root key;
     if r = 0 then Some [Out_not_found key]
     else do { c \<leftarrow> get_rec s r; Some [Out_found r key (rec_value c)] } }"

section \<open>Insertion\<close>

definition get_left_index :: "mem \<Rightarrow> addr \<Rightarrow> addr \<Rightarrow> nat option" where
  "get_left_index s par left = do {
     n \<leftarrow> get_node s par;
     scan 0 (Suc (num_keys n)) (\<lambda>i. do { p \<leftarrow> aget (pointers n) i; Some (p \<noteq> left) }) }"

text \<open>\<open>leaf->keys[i] = leaf->keys[i - 1]; leaf->pointers[i] = leaf->pointers[i - 1];\<close>\<close>

definition shift_entry :: "nat \<Rightarrow> node \<Rightarrow> node option" where
  "shift_entry i n = do {
     k \<leftarrow> aget (keys n) (i - 1);
     n \<leftarrow> put_key i k n;
     p \<leftarrow> aget (pointers n) (i - 1);
     put_ptr i p n }"

definition insert_into_leaf :: "addr \<Rightarrow> u64 \<Rightarrow> addr \<Rightarrow> mem \<Rightarrow> mem option" where
  "insert_into_leaf leaf key ptr s =
     mod_node (\<lambda>n. do {
       insertion_point \<leftarrow> scan 0 (num_keys n) (\<lambda>i. do { k \<leftarrow> aget (keys n) i; Some (k < key) });
       n \<leftarrow> for_down (num_keys n) insertion_point shift_entry n;
       n \<leftarrow> put_key insertion_point key n;
       n \<leftarrow> put_ptr insertion_point ptr n;
       Some (n\<lparr>num_keys := Suc (num_keys n)\<rparr>) }) leaf s"

text \<open>The loop that spreads an array over a longer one and leaves the index \<open>gap\<close> free.\<close>

definition spread :: "nat \<Rightarrow> nat \<Rightarrow> 'a list \<Rightarrow> 'a list \<Rightarrow> 'a list option" where
  "spread n gap src dst = do {
     (j, dst) \<leftarrow> for_up 0 n (\<lambda>i (j, dst). do {
       let j = (if j = gap then Suc j else j);
       v \<leftarrow> aget src i;
       dst \<leftarrow> aset dst j v;
       Some (Suc j, dst) }) (0, dst);
     Some dst }"

text \<open>
  \<open>for (i = from, j = 0; i < to; i++, j++) { n->pointers[j] = tp[i]; n->keys[j] = tk[i]; n->num_keys++; }\<close>
\<close>

definition fill_node :: "nat \<Rightarrow> nat \<Rightarrow> u64 list \<Rightarrow> addr list \<Rightarrow> node \<Rightarrow> node option" where
  "fill_node from to tk tp n =
     for_up from to (\<lambda>i n. do {
       p \<leftarrow> aget tp i;
       n \<leftarrow> put_ptr (i - from) p n;
       k \<leftarrow> aget tk i;
       n \<leftarrow> put_key (i - from) k n;
       Some (n\<lparr>num_keys := Suc (num_keys n)\<rparr>) }) n"

text \<open>\<open>for (i = from; i < to; i++) n->pointers[i] = NULL;\<close>\<close>

definition null_ptrs :: "nat \<Rightarrow> nat \<Rightarrow> node \<Rightarrow> node option" where
  "null_ptrs from to n = for_up from to (\<lambda>i n. put_ptr i 0 n) n"

text \<open>
  \<open>insert_into_leaf_after_splitting\<close> up to its call of \<open>insert_into_parent\<close>: the separating key
  and the new leaf.
\<close>

definition split_leaf :: "os \<Rightarrow> nat \<Rightarrow> addr \<Rightarrow> u64 \<Rightarrow> addr \<Rightarrow> mem \<Rightarrow> (u64 \<times> addr \<times> mem) option" where
  "split_leaf os od leaf key ptr s = do {
     (new_leaf, s) \<leftarrow> make_leaf os od s;
     (temp_keys, s) \<leftarrow> allocate_align64 os (od + 1) s;
     (temp_pointers, s) \<leftarrow> allocate_align64 os (od + 1) s;
     n \<leftarrow> get_node s leaf;
     insertion_index \<leftarrow> scan 0 (od - 1) (\<lambda>i. do { k \<leftarrow> aget (keys n) i; Some (k < key) });
     temp_keys \<leftarrow> spread (num_keys n) insertion_index (keys n) temp_keys;
     temp_pointers \<leftarrow> spread (num_keys n) insertion_index (pointers n) temp_pointers;
     temp_keys \<leftarrow> aset temp_keys insertion_index key;
     temp_pointers \<leftarrow> aset temp_pointers insertion_index ptr;
     let split = cut (od - 1);
     s \<leftarrow> mod_node (\<lambda>n. fill_node 0 split temp_keys temp_pointers (n\<lparr>num_keys := 0\<rparr>)) leaf s;
     s \<leftarrow> mod_node (fill_node split od temp_keys temp_pointers) new_leaf s;
     p \<leftarrow> get_ptr s leaf (od - 1);
     s \<leftarrow> mod_node (put_ptr (od - 1) p) new_leaf s;
     s \<leftarrow> mod_node (put_ptr (od - 1) new_leaf) leaf s;
     s \<leftarrow> mod_node (\<lambda>n. null_ptrs (num_keys n) (od - 1) n) leaf s;
     s \<leftarrow> mod_node (\<lambda>n. null_ptrs (num_keys n) (od - 1) n) new_leaf s;
     n \<leftarrow> get_node s leaf;
     s \<leftarrow> mod_node (put_parent (parent n)) new_leaf s;
     new_key \<leftarrow> get_key s new_leaf 0;
     Some (new_key, new_leaf, s) }"

definition insert_into_node :: "addr \<Rightarrow> addr \<Rightarrow> nat \<Rightarrow> u64 \<Rightarrow> addr \<Rightarrow> mem \<Rightarrow> (addr \<times> mem) option" where
  "insert_into_node root a left_index key right s = do {
     s \<leftarrow> mod_node (\<lambda>n. do {
       n \<leftarrow> for_down (num_keys n) left_index (\<lambda>i n. do {
         p \<leftarrow> aget (pointers n) i;
         n \<leftarrow> put_ptr (i + 1) p n;
         k \<leftarrow> aget (keys n) (i - 1);
         put_key i k n }) n;
       n \<leftarrow> put_ptr (left_index + 1) right n;
       n \<leftarrow> put_key left_index key n;
       Some (n\<lparr>num_keys := Suc (num_keys n)\<rparr>) }) a s;
     Some (root, s) }"

text \<open>\<open>for (i = 0; i < n; i++) ((node *)a->pointers[i])->parent = par;\<close>\<close>

definition set_parents :: "nat \<Rightarrow> addr \<Rightarrow> mem \<Rightarrow> mem option" where
  "set_parents n a s = for_up 0 n (\<lambda>i s. do { child \<leftarrow> get_ptr s a i; mod_node (put_parent a) child s }) s"

text \<open>
  \<open>insert_into_node_after_splitting\<close> up to its call of \<open>insert_into_parent\<close>: the key that moves
  up and the new node.
\<close>

definition split_node ::
  "os \<Rightarrow> nat \<Rightarrow> addr \<Rightarrow> nat \<Rightarrow> u64 \<Rightarrow> addr \<Rightarrow> mem \<Rightarrow> (u64 \<times> addr \<times> mem) option" where
  "split_node os od old_node left_index key right s = do {
     (temp_pointers, s) \<leftarrow> allocate_align64 os (od + 1) s;
     (temp_keys, s) \<leftarrow> allocate_align64 os od s;
     n \<leftarrow> get_node s old_node;
     temp_pointers \<leftarrow> spread (num_keys n + 1) (left_index + 1) (pointers n) temp_pointers;
     temp_keys \<leftarrow> spread (num_keys n) left_index (keys n) temp_keys;
     temp_pointers \<leftarrow> aset temp_pointers (left_index + 1) right;
     temp_keys \<leftarrow> aset temp_keys left_index key;
     let split = cut od;
     (new_node, s) \<leftarrow> make_node os od s;
     s \<leftarrow> mod_node (\<lambda>n. do {
       n \<leftarrow> fill_node 0 (split - 1) temp_keys temp_pointers (n\<lparr>num_keys := 0\<rparr>);
       p \<leftarrow> aget temp_pointers (split - 1);
       put_ptr (split - 1) p n }) old_node s;
     k_prime \<leftarrow> aget temp_keys (split - 1);
     s \<leftarrow> mod_node (\<lambda>n. do {
       n \<leftarrow> fill_node split od temp_keys temp_pointers n;
       p \<leftarrow> aget temp_pointers od;
       put_ptr (od - split) p n }) new_node s;
     n \<leftarrow> get_node s old_node;
     s \<leftarrow> mod_node (put_parent (parent n)) new_node s;
     n \<leftarrow> get_node s new_node;
     s \<leftarrow> set_parents (num_keys n + 1) new_node s;
     Some (k_prime, new_node, s) }"

definition insert_into_new_root :: "os \<Rightarrow> nat \<Rightarrow> addr \<Rightarrow> u64 \<Rightarrow> addr \<Rightarrow> mem \<Rightarrow> (addr \<times> mem) option" where
  "insert_into_new_root os od left key right s = do {
     (root, s) \<leftarrow> make_node os od s;
     s \<leftarrow> mod_node (\<lambda>n. do {
       n \<leftarrow> put_key 0 key n;
       n \<leftarrow> put_ptr 0 left n;
       n \<leftarrow> put_ptr 1 right n;
       put_parent 0 (n\<lparr>num_keys := Suc (num_keys n)\<rparr>) }) root s;
     s \<leftarrow> mod_node (put_parent root) left s;
     s \<leftarrow> mod_node (put_parent root) right s;
     Some (root, s) }"

text \<open>
  The mutual recursion of \<open>insert_into_parent\<close> and \<open>insert_into_node_after_splitting\<close>, with the
  latter's body unfolded.
\<close>

partial_function (option) insert_into_parent ::
  "os \<Rightarrow> nat \<Rightarrow> addr \<Rightarrow> addr \<Rightarrow> u64 \<Rightarrow> addr \<Rightarrow> mem \<Rightarrow> (addr \<times> mem) option" where
  "insert_into_parent os od root left key right s = do {
     l \<leftarrow> get_node s left;
     if parent l = 0 then insert_into_new_root os od left key right s
     else do {
       left_index \<leftarrow> get_left_index s (parent l) left;
       p \<leftarrow> get_node s (parent l);
       if num_keys p < od - 1
       then insert_into_node root (parent l) left_index key right s
       else do {
         (k_prime, new_node, s) \<leftarrow> split_node os od (parent l) left_index key right s;
         insert_into_parent os od root (parent l) k_prime new_node s } } }"

definition insert_into_node_after_splitting ::
  "os \<Rightarrow> nat \<Rightarrow> addr \<Rightarrow> addr \<Rightarrow> nat \<Rightarrow> u64 \<Rightarrow> addr \<Rightarrow> mem \<Rightarrow> (addr \<times> mem) option" where
  "insert_into_node_after_splitting os od root old_node left_index key right s = do {
     (k_prime, new_node, s) \<leftarrow> split_node os od old_node left_index key right s;
     insert_into_parent os od root old_node k_prime new_node s }"

definition insert_into_leaf_after_splitting ::
  "os \<Rightarrow> nat \<Rightarrow> addr \<Rightarrow> addr \<Rightarrow> u64 \<Rightarrow> addr \<Rightarrow> mem \<Rightarrow> (addr \<times> mem) option" where
  "insert_into_leaf_after_splitting os od root leaf key ptr s = do {
     (new_key, new_leaf, s) \<leftarrow> split_leaf os od leaf key ptr s;
     insert_into_parent os od root leaf new_key new_leaf s }"

definition start_new_tree :: "os \<Rightarrow> nat \<Rightarrow> u64 \<Rightarrow> addr \<Rightarrow> mem \<Rightarrow> (addr \<times> mem) option" where
  "start_new_tree os od key ptr s = do {
     (root, s) \<leftarrow> make_leaf os od s;
     s \<leftarrow> mod_node (\<lambda>n. do {
       n \<leftarrow> put_key 0 key n;
       n \<leftarrow> put_ptr 0 ptr n;
       n \<leftarrow> put_ptr (od - 1) 0 n;
       n \<leftarrow> put_parent 0 n;
       Some (n\<lparr>num_keys := Suc (num_keys n)\<rparr>) }) root s;
     Some (root, s) }"

definition insert_key :: "os \<Rightarrow> nat \<Rightarrow> addr \<Rightarrow> u64 \<Rightarrow> u64 \<Rightarrow> mem \<Rightarrow> (addr \<times> mem) option" where
  "insert_key os od root key v s = do {
     (r, _) \<leftarrow> find_record s root key;
     if r \<noteq> 0 then do { s \<leftarrow> set_rec (Value v) r s; Some (root, s) }
     else do {
       (r, s) \<leftarrow> make_record os v s;
       if root = 0 then start_new_tree os od key r s
       else do {
         leaf \<leftarrow> find_leaf s root key;
         n \<leftarrow> get_node s leaf;
         if num_keys n < od - 1 then do { s \<leftarrow> insert_into_leaf leaf key r s; Some (root, s) }
         else insert_into_leaf_after_splitting os od root leaf key r s } } }"

definition insert_unique :: "os \<Rightarrow> nat \<Rightarrow> addr \<Rightarrow> u64 \<Rightarrow> addr \<Rightarrow> mem \<Rightarrow> (addr \<times> mem) option" where
  "insert_unique os od root key r s =
     (if root = 0 then start_new_tree os od key r s
      else do {
        leaf \<leftarrow> find_leaf s root key;
        n \<leftarrow> get_node s leaf;
        if num_keys n < od - 1
        then do {
          append \<leftarrow> (if num_keys n = 0 then Some True
                     else do { k \<leftarrow> aget (keys n) (num_keys n - 1); Some (k < key) });
          s \<leftarrow> (if append
               then mod_node (\<lambda>n. do {
                      n \<leftarrow> put_key (num_keys n) key n;
                      n \<leftarrow> put_ptr (num_keys n) r n;
                      Some (n\<lparr>num_keys := Suc (num_keys n)\<rparr>) }) leaf s
               else insert_into_leaf leaf key r s);
          Some (root, s) }
        else insert_into_leaf_after_splitting os od root leaf key r s })"

end
