(* ===== verification/BtreeMem.thy ===== *)
theory BtreeMem
  imports Btree
begin

text \<open>
  The slab allocators of the B+ tree. Nodes and records use the same scheme: cells are carved
  out of a mapped region, linked into a free list through the cells themselves, and handed out
  from its head. The locale \<open>slab\<close> states what an instance of the scheme provides and shows what a
  client may rely on: an allocation succeeds, its cell was not in use, and the cells in use keep
  their contents. It is interpreted for \<open>alloc_node\<close> and for \<open>alloc_record\<close>.
\<close>

section \<open>The operating system\<close>

text \<open>
  What the code relies on: a request for at least one byte is answered by a region that overlaps no
  region mapped before and does not start at \<open>NULL\<close>, and \<open>posix_memalign\<close> succeeds.
\<close>

definition good_os :: "os \<Rightarrow> bool" where
  "good_os os \<longleftrightarrow>
     (\<forall>rs sz. 0 < sz \<longrightarrow> (\<exists>a. mmap_os os rs sz = Some a \<and> a \<noteq> 0 \<and>
        (\<forall>(b, z)\<in>set rs. a + sz \<le> b \<or> b + z \<le> a))) \<and>
     (\<forall>k. memalign_os os k)"

definition in_regions :: "(addr \<times> nat) list \<Rightarrow> addr set" where
  "in_regions rs = (\<Union>(b, z)\<in>set rs. {b..<b + z})"

lemma in_regions_Cons [simp]: "in_regions ((b, z) # rs) = {b..<b + z} \<union> in_regions rs"
  by (simp add: in_regions_def)

lemma in_regions_Nil [simp]: "in_regions [] = {}"
  by (simp add: in_regions_def)

lemma allocate_fresh:
  assumes "good_os os" "0 < sz"
  obtains a where "allocate os sz s =
      Some (a, s\<lparr>allocator_stat := allocator_stat s + word_of_nat sz, regions := (a, sz) # regions s\<rparr>)"
    and "a \<noteq> 0" and "{a..<a + sz} \<inter> in_regions (regions s) = {}"
proof -
  from assms obtain a where a: "mmap_os os (regions s) sz = Some a" "a \<noteq> 0"
    "\<forall>(b, z)\<in>set (regions s). a + sz \<le> b \<or> b + z \<le> a"
    unfolding good_os_def by blast
  then have "{a..<a + sz} \<inter> in_regions (regions s) = {}"
    by (fastforce simp: in_regions_def)
  with a show ?thesis by (intro that [of a]) (auto simp: allocate_def)
qed

lemma allocate_align64_ok [simp]:
  "good_os os \<Longrightarrow> allocate_align64 os n s = Some (replicate n 0,
     s\<lparr>allocator_stat := allocator_stat s + word_of_nat (n * 8), aligned := Suc (aligned s)\<rparr>)"
  by (simp add: allocate_align64_def good_os_def)

section \<open>Free lists\<close>

text \<open>\<open>chain m link a xs\<close>: following \<open>link\<close> from \<open>a\<close> visits the cells \<open>xs\<close> and ends at \<open>NULL\<close>.\<close>

fun chain :: "(addr \<rightharpoonup> 'c) \<Rightarrow> ('c \<Rightarrow> addr) \<Rightarrow> addr \<Rightarrow> addr list \<Rightarrow> bool" where
  "chain m link a [] \<longleftrightarrow> a = 0"
| "chain m link a (x # xs) \<longleftrightarrow> a = x \<and> a \<noteq> 0 \<and> (\<exists>c. m a = Some c \<and> chain m link (link c) xs)"

lemma chain_cong: "(\<And>x. x \<in> set xs \<Longrightarrow> m x = m' x) \<Longrightarrow> chain m link a xs = chain m' link a xs"
  by (induction xs arbitrary: a) auto

lemma chain_dom: "chain m link a xs \<Longrightarrow> set xs \<subseteq> dom m \<and> 0 \<notin> set xs"
  by (induction xs arbitrary: a) auto

lemma chain_at_null: "chain m link 0 xs \<longleftrightarrow> xs = []"
  by (cases xs) auto

text \<open>
  \<open>slab_ok m link h rs U\<close>: the free list from \<open>h\<close> is a chain without repetition, the set \<open>U\<close> of cells
  in use is allocated and disjoint from it, and all cells lie in mapped regions.
\<close>

definition slab_ok :: "(addr \<rightharpoonup> 'c) \<Rightarrow> ('c \<Rightarrow> addr) \<Rightarrow> addr \<Rightarrow> (addr \<times> nat) list \<Rightarrow> addr set \<Rightarrow> bool" where
  "slab_ok m link h rs U \<longleftrightarrow>
     (\<exists>xs. chain m link h xs \<and> distinct xs \<and> set xs \<inter> U = {}) \<and>
     U \<subseteq> dom m \<and> 0 \<notin> U \<and> dom m \<subseteq> in_regions rs"

lemma slab_ok_update:
  assumes "slab_ok m link h rs U" "a \<in> U"
  shows "slab_ok (m(a \<mapsto> c)) link h rs U"
proof -
  from assms(1) obtain xs where xs: "chain m link h xs" "distinct xs" "set xs \<inter> U = {}"
    by (auto simp: slab_ok_def)
  then have "chain (m(a \<mapsto> c)) link h xs"
    using assms(2) by (subst chain_cong [where m' = m]) auto
  with xs assms show ?thesis by (auto simp: slab_ok_def)
qed

lemma slab_ok_frame:
  assumes "slab_ok m link h rs U" "\<And>x. x \<notin> U \<Longrightarrow> m' x = m x" "dom m' = dom m"
  shows "slab_ok m' link h rs U"
proof -
  from assms(1) obtain xs where xs: "chain m link h xs" "distinct xs" "set xs \<inter> U = {}"
    by (auto simp: slab_ok_def)
  then have "chain m' link h xs"
    using assms(2) by (subst chain_cong [where m' = m]) auto
  with xs assms(1,3) show ?thesis by (auto simp: slab_ok_def)
qed

lemma slab_ok_mono:
  "slab_ok m link h rs U \<Longrightarrow> V \<subseteq> U \<Longrightarrow> in_regions rs \<subseteq> in_regions rs' \<Longrightarrow> slab_ok m link h rs' V"
  unfolding slab_ok_def by blast

lemma slab_ok_pop:
  assumes "slab_ok m link h rs U" "h \<noteq> 0"
  shows "\<exists>c. m h = Some c \<and> slab_ok m link (link c) rs (insert h U) \<and> h \<notin> U"
proof -
  from assms obtain xs where xs: "chain m link h xs" "distinct xs" "set xs \<inter> U = {}"
    by (auto simp: slab_ok_def)
  with assms show ?thesis
    by (cases xs) (auto simp: slab_ok_def)
qed

lemma slab_ok_push:
  assumes "slab_ok m link h rs U" "a \<in> U" "link c = h"
  shows "slab_ok (m(a \<mapsto> c)) link a rs (U - {a})"
proof -
  from assms(1) obtain xs where xs: "chain m link h xs" "distinct xs" "set xs \<inter> U = {}"
    by (auto simp: slab_ok_def)
  then have "chain (m(a \<mapsto> c)) link h xs"
    using assms(2) by (subst chain_cong [where m' = m]) auto
  with xs assms have "chain (m(a \<mapsto> c)) link a (a # xs)" "distinct (a # xs)" "set (a # xs) \<inter> (U - {a}) = {}"
    by (auto simp: slab_ok_def)
  moreover have "U - {a} \<subseteq> dom (m(a \<mapsto> c)) \<and> 0 \<notin> U - {a} \<and> dom (m(a \<mapsto> c)) \<subseteq> in_regions rs"
    using assms by (auto simp: slab_ok_def)
  ultimately show ?thesis unfolding slab_ok_def by blast
qed

text \<open>Carving \<open>n\<close> cells of \<open>w\<close> bytes out of a fresh region.\<close>

fun carve :: "(addr \<Rightarrow> 'c) \<Rightarrow> addr \<Rightarrow> nat \<Rightarrow> nat \<Rightarrow> (addr \<rightharpoonup> 'c) \<Rightarrow> addr \<Rightarrow> (addr \<rightharpoonup> 'c) \<times> addr" where
  "carve mk b w 0 m h = (m, h)"
| "carve mk b w (Suc n) m h = (let (m, h) = carve mk b w n m h in (m(b + n * w \<mapsto> mk h), b + n * w))"

lemma carve_chain:
  assumes "0 < w" "b \<noteq> 0" "\<And>h. link (mk h) = h" "{b..<b + n * w} \<inter> dom m = {}"
    and "carve mk b w n m 0 = (m', h)"
  shows "chain m' link h (map (\<lambda>i. b + i * w) (rev [0..<n])) \<and>
         dom m' = dom m \<union> (\<lambda>i. b + i * w) ` {..<n} \<and> (\<forall>x\<in>dom m. m' x = m x)"
  using assms(4,5)
proof (induction n arbitrary: m' h)
  case (Suc n)
  obtain m1 h1 where c: "carve mk b w n m 0 = (m1, h1)" by force
  have d: "{b..<b + n * w} \<inter> dom m = {}" using Suc.prems(1) by (auto simp: disjoint_iff)
  note IH = Suc.IH [OF d c]
  have m': "m' = m1(b + n * w \<mapsto> mk h1)" "h = b + n * w" using Suc.prems(2) c by auto
  have "b + n * w \<notin> dom m" using Suc.prems(1) \<open>0 < w\<close> by (auto simp: disjoint_iff)
  then have new: "x \<in> dom m \<Longrightarrow> x \<noteq> b + n * w" for x by blast
  have "chain m' link h1 (map (\<lambda>i. b + i * w) (rev [0..<n]))"
    using IH \<open>0 < w\<close> m' by (subst chain_cong [where m' = m1]) auto
  then have "chain m' link h (map (\<lambda>i. b + i * w) (rev [0..<Suc n]))"
    using m' assms(2,3) by simp
  moreover have "dom m' = dom m \<union> (\<lambda>i. b + i * w) ` {..<Suc n}"
    using IH m' by (auto simp: lessThan_Suc)
  moreover have "\<forall>x\<in>dom m. m' x = m x" using IH m' new by auto
  ultimately show ?case by blast
qed simp

lemma carve_slab_ok:
  assumes ok: "slab_ok m link 0 rs U" and "0 < w" "b \<noteq> 0" "\<And>h. link (mk h) = h" "0 < n" "n * w \<le> z"
    and fresh: "{b..<b + z} \<inter> in_regions rs = {}" and c: "carve mk b w n m 0 = (m', h)"
  shows "slab_ok m' link h ((b, z) # rs) U \<and> h \<noteq> 0 \<and> (\<forall>x\<in>U. m' x = m x)"
proof -
  let ?xs = "map (\<lambda>i. b + i * w) (rev [0..<n])"
  have sub: "U \<subseteq> dom m" "0 \<notin> U" "dom m \<subseteq> in_regions rs" using ok by (auto simp: slab_ok_def)
  have in_slab: "i < n \<Longrightarrow> b + i * w \<in> {b..<b + z}" for i
  proof -
    assume "i < n"
    then have "i * w < n * w" using \<open>0 < w\<close> by simp
    then have "i * w < z" using \<open>n * w \<le> z\<close> by (rule less_le_trans)
    then show ?thesis by simp
  qed
  have "{b..<b + n * w} \<subseteq> {b..<b + z}" using \<open>n * w \<le> z\<close> by auto
  then have "{b..<b + n * w} \<inter> dom m = {}" using fresh sub(3) by blast
  note cc = carve_chain [where link = link and mk = mk, OF \<open>0 < w\<close> \<open>b \<noteq> 0\<close> assms(4) this c]
  have "set ?xs \<subseteq> {b..<b + z}" using in_slab by auto
  then have "set ?xs \<inter> dom m = {}" using fresh sub(3) by blast
  moreover have "distinct ?xs" using \<open>0 < w\<close> by (auto simp: distinct_map inj_on_def)
  ultimately have "chain m' link h ?xs \<and> distinct ?xs \<and> set ?xs \<inter> U = {}"
    using cc sub(1) by fast
  then have free: "\<exists>xs. chain m' link h xs \<and> distinct xs \<and> set xs \<inter> U = {}" by (rule exI)
  have "dom m' = dom m \<union> (\<lambda>i. b + i * w) ` {..<n}" using cc by simp
  then have "dom m' \<subseteq> in_regions ((b, z) # rs)" using sub(3) in_slab by auto
  moreover have "h \<noteq> 0" using cc \<open>0 < n\<close> \<open>b \<noteq> 0\<close> by (cases n) auto
  moreover have "U \<subseteq> dom m'" "\<forall>x\<in>U. m' x = m x" using cc sub(1) by auto
  ultimately show ?thesis using free sub(2) by (auto simp: slab_ok_def)
qed

section \<open>The allocator interface\<close>

text \<open>
  A slab in the memory: its cells, its free list (\<open>head\<close>, \<open>link\<close>, and \<open>set_head\<close> to move it), the
  function that maps a new region and the one that allocates. The laws are those of the code:
  \<open>alloc\<close> grows an empty free list and then takes its head, and growing carves cells out of
  a fresh region.
\<close>

locale slab =
  fixes cells :: "mem \<Rightarrow> addr \<rightharpoonup> 'c" and head :: "mem \<Rightarrow> addr" and link :: "'c \<Rightarrow> addr"
    and set_head :: "addr \<Rightarrow> mem \<Rightarrow> mem"
    and grow :: "os \<Rightarrow> mem \<Rightarrow> mem option" and alloc :: "os \<Rightarrow> mem \<Rightarrow> (addr \<times> mem) option"
    and mk :: "addr \<Rightarrow> 'c" and width :: nat and bytes :: nat
    and rest :: "mem \<Rightarrow> 'r"
  assumes set_head: "cells (set_head a s) = cells s" "head (set_head a s) = a"
      "regions (set_head a s) = regions s" "rest (set_head a s) = rest s"
    and alloc_eq: "alloc os s = do {
        s \<leftarrow> (if head s = 0 then grow os s else Some s);
        c \<leftarrow> (if head s = 0 then None else cells s (head s));
        Some (head s, set_head (link c) s) }"
    and grow_eq: "allocate os bytes s = Some (b, s1) \<Longrightarrow> head s = 0 \<Longrightarrow> \<exists>s'. grow os s = Some s' \<and>
        carve mk b width (bytes div width) (cells s) 0 = (cells s', head s') \<and>
        regions s' = (b, bytes) # regions s \<and> rest s' = rest s"
    and link_mk: "link (mk h) = h"
    and sizes: "0 < width" "width \<le> bytes"
begin

definition ok :: "mem \<Rightarrow> addr set \<Rightarrow> bool" where
  "ok s U \<longleftrightarrow> slab_ok (cells s) link (head s) (regions s) U"

lemma grow_ok:
  assumes "good_os os" "ok s U" "head s = 0"
  shows "\<exists>s'. grow os s = Some s' \<and> ok s' U \<and> head s' \<noteq> 0 \<and> (\<forall>x\<in>U. cells s' x = cells s x) \<and>
    in_regions (regions s) \<subseteq> in_regions (regions s') \<and> rest s' = rest s"
proof -
  have "0 < bytes" using sizes by simp
  from allocate_fresh [OF assms(1) this, of s] obtain b s1 where b: "allocate os bytes s = Some (b, s1)"
    "b \<noteq> 0" "{b..<b + bytes} \<inter> in_regions (regions s) = {}" by metis
  from grow_eq [OF b(1) assms(3)] obtain s' where s': "grow os s = Some s'"
    "carve mk b width (bytes div width) (cells s) 0 = (cells s', head s')"
    "regions s' = (b, bytes) # regions s" "rest s' = rest s" by blast
  have "slab_ok (cells s) link 0 (regions s) U" using assms by (simp add: ok_def)
  from carve_slab_ok [OF this sizes(1) b(2) link_mk _ _ b(3) s'(2)] sizes
  have "slab_ok (cells s') link (head s') ((b, bytes) # regions s) U \<and> head s' \<noteq> 0 \<and>
      (\<forall>x\<in>U. cells s' x = cells s x)"
    by (simp add: div_greater_zero_iff)
  then show ?thesis unfolding ok_def using s' by auto
qed

theorem alloc_fresh:
  assumes "good_os os" "ok s U"
  shows "\<exists>a s'. alloc os s = Some (a, s') \<and> a \<noteq> 0 \<and> a \<notin> U \<and> ok s' (insert a U) \<and>
    (\<forall>x\<in>U. cells s' x = cells s x) \<and> in_regions (regions s) \<subseteq> in_regions (regions s') \<and> rest s' = rest s"
proof -
  obtain s1 where s1: "(if head s = 0 then grow os s else Some s) = Some s1" "ok s1 U" "head s1 \<noteq> 0"
    "\<forall>x\<in>U. cells s1 x = cells s x" "in_regions (regions s) \<subseteq> in_regions (regions s1)" "rest s1 = rest s"
    using grow_ok [OF assms] assms by (cases "head s = 0") auto
  from slab_ok_pop [of "cells s1" link "head s1" "regions s1" U] s1
  obtain c where c: "cells s1 (head s1) = Some c"
    "slab_ok (cells s1) link (link c) (regions s1) (insert (head s1) U)" "head s1 \<notin> U"
    by (auto simp: ok_def)
  with s1 have "alloc os s = Some (head s1, set_head (link c) s1)"
    by (subst alloc_eq) (simp only: s1(1) Option.bind.simps if_False c(1))
  with s1 c show ?thesis by (simp add: ok_def set_head)
qed

end

section \<open>The node and the record allocator\<close>

lemma for_up_carve:
  assumes step: "\<And>i s. f i s = Some (upd ((g s)(b + i * w \<mapsto> mk (h s))) (b + i * w) s)"
    and get: "\<And>m a s. g (upd m a s) = m \<and> h (upd m a s) = a \<and> r (upd m a s) = r s"
  shows "\<exists>s'. for_up 0 n f s = Some s' \<and> carve mk b w n (g s) (h s) = (g s', h s') \<and> r s' = r s"
proof (rule for_up_rule [where P = "\<lambda>n s'. carve mk b w n (g s) (h s) = (g s', h s') \<and> r s' = r s"])
  fix i s' assume "carve mk b w i (g s) (h s) = (g s', h s') \<and> r s' = r s"
  then show "\<exists>s''. f i s' = Some s'' \<and> carve mk b w (Suc i) (g s) (h s) = (g s'', h s'') \<and> r s'' = r s"
    by (simp add: step get)
qed simp_all

lemma grow_nodes_carve:
  assumes "allocate os NODE_SLAB_GROW s = Some (b, s1)" "free_nodes s = 0"
  shows "\<exists>s'. grow_nodes os s = Some s' \<and>
    carve (\<lambda>h. zero_node\<lparr>next_node := h\<rparr>) b sizeof_node (NODE_SLAB_GROW div sizeof_node) (nodes s) 0 =
      (nodes s', free_nodes s') \<and>
    regions s' = (b, NODE_SLAB_GROW) # regions s \<and>
    (recs s', free_recs s', queue s') = (recs s, free_recs s, queue s)"
proof -
  have s1: "nodes s1 = nodes s" "free_nodes s1 = 0" "regions s1 = (b, NODE_SLAB_GROW) # regions s"
    "recs s1 = recs s" "free_recs s1 = free_recs s" "queue s1 = queue s"
    using assms by (auto simp: allocate_def bind_eq_Some_conv)
  have "\<exists>s'. for_up 0 (NODE_SLAB_GROW div sizeof_node)
       (\<lambda>i s. Some (s\<lparr>nodes := (nodes s)(b + i * sizeof_node \<mapsto> zero_node\<lparr>next_node := free_nodes s\<rparr>),
                      free_nodes := b + i * sizeof_node\<rparr>)) s1 = Some s' \<and>
     carve (\<lambda>h. zero_node\<lparr>next_node := h\<rparr>) b sizeof_node (NODE_SLAB_GROW div sizeof_node) (nodes s1) (free_nodes s1) =
      (nodes s', free_nodes s') \<and>
     (recs s', free_recs s', queue s', regions s') = (recs s1, free_recs s1, queue s1, regions s1)"
    by (rule for_up_carve [where upd = "\<lambda>m a s. s\<lparr>nodes := m, free_nodes := a\<rparr>"
        and g = nodes and h = free_nodes and mk = "\<lambda>h. zero_node\<lparr>next_node := h\<rparr>"]) simp_all
  then show ?thesis using s1 assms(1) by (auto simp: grow_nodes_def)
qed

lemma grow_recs_carve:
  assumes "allocate os RECORD_SLAB_GROW s = Some (b, s1)" "free_recs s = 0"
  shows "\<exists>s'. grow_recs os s = Some s' \<and>
    carve Next_rec b sizeof_record (RECORD_SLAB_GROW div sizeof_record) (recs s) 0 = (recs s', free_recs s') \<and>
    regions s' = (b, RECORD_SLAB_GROW) # regions s \<and>
    (nodes s', free_nodes s', queue s') = (nodes s, free_nodes s, queue s)"
proof -
  have s1: "recs s1 = recs s" "free_recs s1 = 0" "regions s1 = (b, RECORD_SLAB_GROW) # regions s"
    "nodes s1 = nodes s" "free_nodes s1 = free_nodes s" "queue s1 = queue s"
    using assms by (auto simp: allocate_def bind_eq_Some_conv)
  have "\<exists>s'. for_up 0 (RECORD_SLAB_GROW div sizeof_record)
       (\<lambda>i s. Some (s\<lparr>recs := (recs s)(b + i * sizeof_record \<mapsto> Next_rec (free_recs s)),
                      free_recs := b + i * sizeof_record\<rparr>)) s1 = Some s' \<and>
     carve Next_rec b sizeof_record (RECORD_SLAB_GROW div sizeof_record) (recs s1) (free_recs s1) =
      (recs s', free_recs s') \<and>
     (nodes s', free_nodes s', queue s', regions s') = (nodes s1, free_nodes s1, queue s1, regions s1)"
    by (rule for_up_carve [where upd = "\<lambda>m a s. s\<lparr>recs := m, free_recs := a\<rparr>"
        and g = recs and h = free_recs and mk = Next_rec]) simp_all
  then show ?thesis using s1 assms(1) by (auto simp: grow_recs_def)
qed

interpretation node_slab: slab nodes free_nodes next_node "\<lambda>a s. s\<lparr>free_nodes := a\<rparr>" grow_nodes alloc_node
  "\<lambda>h. zero_node\<lparr>next_node := h\<rparr>" sizeof_node NODE_SLAB_GROW "\<lambda>s. (recs s, free_recs s, queue s)"
proof
  show "alloc_node os s = do {
        s \<leftarrow> (if free_nodes s = 0 then grow_nodes os s else Some s);
        c \<leftarrow> (if free_nodes s = 0 then None else nodes s (free_nodes s));
        Some (free_nodes s, s\<lparr>free_nodes := next_node c\<rparr>) }" for os s
    by (simp add: alloc_node_def get_node_def)
  show "0 < sizeof_node" "sizeof_node \<le> NODE_SLAB_GROW"
    by (simp_all add: sizeof_node_def NODE_SLAB_GROW_def)
qed (auto dest: grow_nodes_carve)

interpretation rec_slab: slab recs free_recs rec_next "\<lambda>a s. s\<lparr>free_recs := a\<rparr>" grow_recs alloc_record
  Next_rec sizeof_record RECORD_SLAB_GROW "\<lambda>s. (nodes s, free_nodes s, queue s)"
proof
  show "alloc_record os s = do {
        s \<leftarrow> (if free_recs s = 0 then grow_recs os s else Some s);
        c \<leftarrow> (if free_recs s = 0 then None else recs s (free_recs s));
        Some (free_recs s, s\<lparr>free_recs := rec_next c\<rparr>) }" for os s
    by (simp add: alloc_record_def get_rec_def)
  show "0 < sizeof_record" "sizeof_record \<le> RECORD_SLAB_GROW"
    by (simp_all add: sizeof_record_def RECORD_SLAB_GROW_def)
qed (auto dest: grow_recs_carve)

text \<open>\<open>keeps s s'\<close>: the records, the record allocator and the queue are as before, and no region is lost.\<close>

definition keeps :: "mem \<Rightarrow> mem \<Rightarrow> bool" where
  "keeps s s' \<longleftrightarrow> (recs s', free_recs s', queue s') = (recs s, free_recs s, queue s) \<and>
     in_regions (regions s) \<subseteq> in_regions (regions s')"

lemma keeps_refl [simp]: "keeps s s"
  by (simp add: keeps_def)

lemma keeps_trans [trans]: "keeps s s' \<Longrightarrow> keeps s' s'' \<Longrightarrow> keeps s s''"
  by (auto simp: keeps_def)

lemma keeps_simps [simp]:
  "keeps s (s'\<lparr>nodes := m\<rparr>) = keeps s s'" "keeps s (s'\<lparr>free_nodes := a\<rparr>) = keeps s s'"
  "keeps s (s'\<lparr>allocator_stat := w\<rparr>) = keeps s s'" "keeps s (s'\<lparr>aligned := n\<rparr>) = keeps s s'"
  "keeps (s\<lparr>allocator_stat := w\<rparr>) s' = keeps s s'" "keeps (s\<lparr>aligned := n\<rparr>) s' = keeps s s'"
  "keeps (s\<lparr>nodes := m\<rparr>) s' = keeps s s'"
  by (simp_all add: keeps_def)

lemma rec_slab_keeps: "keeps s s' \<Longrightarrow> rec_slab.ok s R \<Longrightarrow> rec_slab.ok s' R"
  by (auto simp: rec_slab.ok_def keeps_def intro: slab_ok_mono)

lemma node_ok_simps [simp]:
  "node_slab.ok (s\<lparr>allocator_stat := w\<rparr>) U = node_slab.ok s U"
  "node_slab.ok (s\<lparr>aligned := n\<rparr>) U = node_slab.ok s U"
  "node_slab.ok (s\<lparr>recs := r\<rparr>) U = node_slab.ok s U"
  by (simp_all add: node_slab.ok_def)

lemma node_ok_update: "node_slab.ok s U \<Longrightarrow> a \<in> U \<Longrightarrow> node_slab.ok (s\<lparr>nodes := (nodes s)(a \<mapsto> n)\<rparr>) U"
  by (simp add: node_slab.ok_def slab_ok_update)

lemma node_ok_frame:
  "node_slab.ok s U \<Longrightarrow> (\<And>x. x \<notin> U \<Longrightarrow> m x = nodes s x) \<Longrightarrow> dom m = dom (nodes s) \<Longrightarrow> node_slab.ok (s\<lparr>nodes := m\<rparr>) U"
  by (auto simp: node_slab.ok_def intro: slab_ok_frame)

lemma node_okD: "node_slab.ok s U \<Longrightarrow> a \<in> U \<Longrightarrow> a \<noteq> 0 \<and> a \<in> dom (nodes s)"
  by (auto simp: node_slab.ok_def slab_ok_def)

lemma rec_ok_update: "rec_slab.ok s R \<Longrightarrow> a \<in> R \<Longrightarrow> rec_slab.ok (s\<lparr>recs := (recs s)(a \<mapsto> c)\<rparr>) R"
  by (simp add: rec_slab.ok_def slab_ok_update)

lemma init_mem_ok: "node_slab.ok init_mem {} \<and> rec_slab.ok init_mem {}"
  by (simp add: node_slab.ok_def rec_slab.ok_def slab_ok_def init_mem_def exI [of _ "[]"])

definition new_node :: "nat \<Rightarrow> bool \<Rightarrow> node" where
  "new_node od leaf = \<lparr>pointers = replicate od 0, keys = replicate (od - 1) 0, parent = 0,
     is_leaf = leaf, num_keys = 0, next_node = 0\<rparr>"

lemma make_node_fresh:
  assumes "good_os os" "node_slab.ok s U"
  obtains a s' where "make_node os od s = Some (a, s')" "a \<noteq> 0" "a \<notin> U" "node_slab.ok s' (insert a U)"
    "nodes s' a = Some (new_node od False)" "\<And>x. x \<in> U \<Longrightarrow> nodes s' x = nodes s x" "keeps s s'"
proof -
  from node_slab.alloc_fresh [OF assms] obtain a s1 where s1: "alloc_node os s = Some (a, s1)" "a \<noteq> 0"
    "a \<notin> U" "node_slab.ok s1 (insert a U)" "\<forall>x\<in>U. nodes s1 x = nodes s x" "keeps s s1"
    by (auto simp: keeps_def)
  from node_okD [OF s1(4), of a] obtain n where n: "nodes s1 a = Some n" by auto
  define s2 where "s2 = s1\<lparr>allocator_stat := allocator_stat s1 + word_of_nat ((od - 1) * 8) + word_of_nat (od * 8),
    aligned := Suc (Suc (aligned s1)), nodes := (nodes s1)(a \<mapsto> new_node od False)\<rparr>"
  have "make_node os od s = Some (a, s2)"
    using s1 n assms(1) by (cases n) (simp add: make_node_def mod_node_def get_node_def s2_def new_node_def)
  moreover have "node_slab.ok s2 (insert a U)"
    using node_ok_update [OF s1(4), of a "new_node od False"] by (simp add: node_slab.ok_def s2_def)
  ultimately show ?thesis using s1 by (intro that [of a s2]) (auto simp: s2_def)
qed

lemma make_leaf_fresh:
  assumes "good_os os" "node_slab.ok s U"
  obtains a s' where "make_leaf os od s = Some (a, s')" "a \<noteq> 0" "a \<notin> U" "node_slab.ok s' (insert a U)"
    "nodes s' a = Some (new_node od True)" "\<And>x. x \<in> U \<Longrightarrow> nodes s' x = nodes s x" "keeps s s'"
proof -
  from make_node_fresh [OF assms, of od] obtain a s1 where s1: "make_node os od s = Some (a, s1)" "a \<noteq> 0" "a \<notin> U"
    "node_slab.ok s1 (insert a U)" "nodes s1 a = Some (new_node od False)" "\<forall>x\<in>U. nodes s1 x = nodes s x" "keeps s s1"
    by metis
  then have "make_leaf os od s = Some (a, s1\<lparr>nodes := (nodes s1)(a \<mapsto> new_node od True)\<rparr>)"
    by (simp add: make_leaf_def mod_node_def get_node_def new_node_def)
  then show ?thesis by (rule that) (use s1 in \<open>auto intro: node_ok_update\<close>)
qed

lemma make_record_fresh:
  assumes "good_os os" "rec_slab.ok s R"
  obtains a s' where "make_record os v s = Some (a, s')" "a \<noteq> 0" "a \<notin> R" "rec_slab.ok s' (insert a R)"
    "recs s' a = Some (Value v)" "\<And>x. x \<in> R \<Longrightarrow> recs s' x = recs s x"
    "nodes s' = nodes s" "free_nodes s' = free_nodes s" "queue s' = queue s"
    "in_regions (regions s) \<subseteq> in_regions (regions s')"
proof -
  from rec_slab.alloc_fresh [OF assms] obtain a s1 where s1: "alloc_record os s = Some (a, s1)" "a \<noteq> 0"
    "a \<notin> R" "rec_slab.ok s1 (insert a R)" "\<forall>x\<in>R. recs s1 x = recs s x"
    "nodes s1 = nodes s" "free_nodes s1 = free_nodes s" "queue s1 = queue s"
    "in_regions (regions s) \<subseteq> in_regions (regions s1)" by auto
  from s1(4) have "a \<in> dom (recs s1)" by (auto simp: rec_slab.ok_def slab_ok_def)
  then obtain c where "recs s1 a = Some c" by auto
  with s1 have "make_record os v s = Some (a, s1\<lparr>recs := (recs s1)(a \<mapsto> Value v)\<rparr>)"
    by (simp add: make_record_def set_rec_def get_rec_def)
  then show ?thesis by (rule that) (use s1 in \<open>auto intro: rec_ok_update\<close>)
qed

end
