(* ===== verification/BtreeTree.thy ===== *)
theory BtreeTree
  imports BtreeMem
begin

text \<open>
  The abstract B+ tree and its relation to the heap. A \<open>bt\<close> is the shape of the tree with the
  address of each node; \<open>hrep\<close> says that the heap holds it, with parent pointers; \<open>ordered\<close> and
  \<open>bal\<close> are the search tree and the occupancy invariants; a list of \<open>frame\<close>s is a path from a
  subtree up to the root, which is how the code walks after a split.
\<close>

section \<open>Trees\<close>

datatype bt = Lf addr "u64 list" "addr list" | Nd addr "u64 list" "bt list"

fun root_of :: "bt \<Rightarrow> addr" where
  "root_of (Lf a _ _) = a"
| "root_of (Nd a _ _) = a"

fun addrs :: "bt \<Rightarrow> addr list" where
  "addrs (Lf a _ _) = [a]"
| "addrs (Nd a _ ts) = a # concat (map addrs ts)"

fun entries :: "bt \<Rightarrow> (u64 \<times> addr) list" where
  "entries (Lf _ ks rs) = zip ks rs"
| "entries (Nd _ _ ts) = concat (map entries ts)"

fun leaves :: "bt \<Rightarrow> addr list" where
  "leaves (Lf a _ _) = [a]"
| "leaves (Nd _ _ ts) = concat (map leaves ts)"

lemma root_of_in_addrs [simp]: "root_of t \<in> set (addrs t)"
  by (cases t) auto

lemma leaves_in_addrs: "set (leaves t) \<subseteq> set (addrs t)"
  by (induction t) auto

section \<open>The heap holds a tree\<close>

definition node_at :: "nat \<Rightarrow> addr \<Rightarrow> bool \<Rightarrow> u64 list \<Rightarrow> addr list \<Rightarrow> node \<Rightarrow> bool" where
  "node_at od p leaf ks ps n \<longleftrightarrow>
     length (keys n) = od - 1 \<and> length (pointers n) = od \<and> is_leaf n = leaf \<and> parent n = p \<and>
     num_keys n = length ks \<and> length ks < od \<and> length ps = (if leaf then length ks else Suc (length ks)) \<and>
     take (length ks) (keys n) = ks \<and> take (length ps) (pointers n) = ps"

fun hrep :: "nat \<Rightarrow> (addr \<rightharpoonup> node) \<Rightarrow> addr \<Rightarrow> bt \<Rightarrow> bool" where
  "hrep od m p (Lf a ks rs) \<longleftrightarrow> a \<noteq> 0 \<and> (\<exists>n. m a = Some n \<and> node_at od p True ks rs n)"
| "hrep od m p (Nd a ks ts) \<longleftrightarrow> a \<noteq> 0 \<and> (\<exists>n. m a = Some n \<and> node_at od p False ks (map root_of ts) n) \<and>
     (\<forall>t\<in>set ts. hrep od m a t)"

lemma node_at_parent [simp]: "node_at od p leaf ks ps (n\<lparr>parent := q\<rparr>) \<longleftrightarrow> (p = q \<and> node_at od (parent n) leaf ks ps n)"
  by (auto simp: node_at_def)

lemma hrep_cong:
  "(\<And>a. a \<in> set (addrs t) \<Longrightarrow> m a = m' a) \<Longrightarrow> hrep od m p t = hrep od m' p t"
proof (induction t arbitrary: p)
  case (Nd a ks ts)
  have "hrep od m a t = hrep od m' a t" if "t \<in> set ts" for t
    using Nd.IH [OF that] Nd.prems that by auto
  with Nd.prems show ?case by simp
qed simp

lemma hrep_root: "hrep od m p t \<Longrightarrow> root_of t \<noteq> 0 \<and> (\<exists>n. m (root_of t) = Some n \<and> parent n = p)"
  by (cases t) (auto simp: node_at_def)

lemma hrep_dom: "hrep od m p t \<Longrightarrow> set (addrs t) \<subseteq> dom m"
  by (induction t arbitrary: p) auto

text \<open>Moving a subtree under another parent changes one field.\<close>

lemma hrep_set_parent:
  assumes "hrep od m p t" "distinct (addrs t)" "m (root_of t) = Some n"
  shows "hrep od (m(root_of t \<mapsto> n\<lparr>parent := q\<rparr>)) q t"
proof (cases t)
  case (Lf a ks rs)
  with assms show ?thesis by (auto simp: node_at_def)
next
  case (Nd a ks ts)
  have "hrep od (m(a \<mapsto> n\<lparr>parent := q\<rparr>)) a t'" if "t' \<in> set ts" for t'
    using that assms Nd by (subst hrep_cong [where m' = m]) auto
  with assms Nd show ?thesis by (auto simp: node_at_def)
qed

section \<open>Order\<close>

text \<open>All keys of \<open>ordered lo hi t\<close> lie in \<open>[lo, hi)\<close>; the keys of a node separate its children.\<close>

fun ordered :: "nat \<Rightarrow> nat \<Rightarrow> bt \<Rightarrow> bool" and ord_l :: "nat \<Rightarrow> nat \<Rightarrow> u64 list \<Rightarrow> bt list \<Rightarrow> bool" where
  "ordered lo hi (Lf _ ks rs) \<longleftrightarrow> length ks = length rs \<and> sorted_wrt (<) ks \<and> (\<forall>k\<in>set ks. lo \<le> unat k \<and> unat k < hi)"
| "ordered lo hi (Nd _ ks ts) \<longleftrightarrow> ord_l lo hi ks ts"
| "ord_l lo hi [] [t] \<longleftrightarrow> lo \<le> hi \<and> ordered lo hi t"
| "ord_l lo hi (k # ks) (t # ts) \<longleftrightarrow> lo \<le> unat k \<and> ordered lo (unat k) t \<and> ord_l (unat k) hi ks ts"
| "ord_l lo hi _ _ \<longleftrightarrow> False"

fun ord_pre :: "nat \<Rightarrow> u64 list \<Rightarrow> bt list \<Rightarrow> bool" where
  "ord_pre lo [] [] \<longleftrightarrow> True"
| "ord_pre lo (k # ks) (t # ts) \<longleftrightarrow> lo \<le> unat k \<and> ordered lo (unat k) t \<and> ord_pre (unat k) ks ts"
| "ord_pre lo _ _ \<longleftrightarrow> False"

fun ord_post :: "nat \<Rightarrow> u64 list \<Rightarrow> bt list \<Rightarrow> bool" where
  "ord_post hi [] ts \<longleftrightarrow> ts = []"
| "ord_post hi (k # ks) ts \<longleftrightarrow> ord_l (unat k) hi ks ts"

definition hole_lo :: "nat \<Rightarrow> u64 list \<Rightarrow> nat" where
  "hole_lo lo ks = (if ks = [] then lo else unat (last ks))"

definition hole_hi :: "nat \<Rightarrow> u64 list \<Rightarrow> nat" where
  "hole_hi hi ks = (if ks = [] then hi else unat (hd ks))"

lemma hole_simps [simp]:
  "hole_lo lo [] = lo" "hole_lo lo (k # ks) = hole_lo (unat k) ks" "hole_lo lo (ks @ [k]) = unat k"
  "hole_hi hi [] = hi" "hole_hi hi (k # ks) = unat k"
  by (simp_all add: hole_lo_def hole_hi_def)

lemma ord_l_Nil [simp]: "ord_l lo hi [] ts \<longleftrightarrow> (\<exists>t. ts = [t] \<and> lo \<le> hi \<and> ordered lo hi t)"
  by (cases ts; cases "tl ts") auto

lemma ord_l_Cons: "ord_l lo hi (k # ks) ts \<longleftrightarrow>
    (\<exists>t ts'. ts = t # ts' \<and> lo \<le> unat k \<and> ordered lo (unat k) t \<and> ord_l (unat k) hi ks ts')"
  by (cases ts) auto

lemma ord_l_length: "ord_l lo hi ks ts \<Longrightarrow> length ts = Suc (length ks)"
  by (induction ks arbitrary: lo ts) (auto simp: ord_l_Cons)

lemma ord_l_le: "ord_l lo hi ks ts \<Longrightarrow> lo \<le> hi"
  by (induction ks arbitrary: lo ts) (auto simp: ord_l_Cons intro: le_trans)

lemma ord_pre_length: "ord_pre lo ks ts \<Longrightarrow> length ts = length ks"
  by (induction lo ks ts rule: ord_pre.induct) auto

lemma ord_l_append:
  "length ks1 = length ts1 \<Longrightarrow>
     ord_l lo hi (ks1 @ ks2) (ts1 @ ts2) \<longleftrightarrow> ord_pre lo ks1 ts1 \<and> ord_l (hole_lo lo ks1) hi ks2 ts2"
  by (induction ks1 ts1 arbitrary: lo rule: list_induct2) auto

lemma ord_l_hole:
  "ord_l lo hi ks (t # ts) \<longleftrightarrow> ordered lo (hole_hi hi ks) t \<and> lo \<le> hole_hi hi ks \<and> ord_post hi ks ts"
  by (cases ks; cases ts) auto

lemma ordered_hole:
  "length ks1 = length ts1 \<Longrightarrow>
     ordered lo hi (Nd a (ks1 @ ks2) (ts1 @ t # ts2)) \<longleftrightarrow>
     ord_pre lo ks1 ts1 \<and> ordered (hole_lo lo ks1) (hole_hi hi ks2) t \<and>
     hole_lo lo ks1 \<le> hole_hi hi ks2 \<and> ord_post hi ks2 ts2"
  by (auto simp: ord_l_append ord_l_hole)

lemma ordered_hole2:
  "length ks1 = length ts1 \<Longrightarrow>
     ordered lo hi (Nd a (ks1 @ k # ks2) (ts1 @ l # r # ts2)) \<longleftrightarrow>
     ord_pre lo ks1 ts1 \<and> ordered (hole_lo lo ks1) (unat k) l \<and> ordered (unat k) (hole_hi hi ks2) r \<and>
     hole_lo lo ks1 \<le> unat k \<and> unat k \<le> hole_hi hi ks2 \<and> ord_post hi ks2 ts2"
  by (auto simp: ord_l_append ord_l_hole)

text \<open>Splitting a node at one of its keys.\<close>

lemma ord_l_split:
  assumes "ord_l lo hi ks ts" "i < length ks"
  shows "ord_l lo (unat (ks ! i)) (take i ks) (take (Suc i) ts) \<and> ord_l (unat (ks ! i)) hi (drop (Suc i) ks) (drop (Suc i) ts) \<and>
    lo \<le> unat (ks ! i) \<and> unat (ks ! i) \<le> hi"
  using assms
proof (induction i arbitrary: lo ks ts)
  case 0
  then obtain k ks' t ts' where *: "ks = k # ks'" "ts = t # ts'" by (cases ks; cases ts) auto
  with 0 show ?case by (auto dest: ord_l_le)
next
  case (Suc i)
  then obtain k ks' t ts' where *: "ks = k # ks'" "ts = t # ts'" by (cases ks; cases ts) auto
  with Suc.IH [of "unat k" ks' ts'] Suc.prems show ?case by auto
qed

text \<open>An ordered tree lists its keys in strictly increasing order, all within the bounds.\<close>

lemma ord_l_entries:
  assumes "\<And>t lo hi. t \<in> set ts \<Longrightarrow> ordered lo hi t \<Longrightarrow>
      sorted_wrt (<) (map fst (entries t)) \<and> (\<forall>k\<in>fst ` set (entries t). lo \<le> unat k \<and> unat k < hi)"
    and "ord_l lo hi ks ts"
  shows "sorted_wrt (<) (map fst (concat (map entries ts))) \<and>
    (\<forall>k\<in>fst ` set (concat (map entries ts)). lo \<le> unat k \<and> unat k < hi)"
  using assms
proof (induction ks arbitrary: lo ts)
  case Nil
  from Nil.prems(2) obtain t where "ts = [t]" "ordered lo hi t" by auto
  with Nil.prems(1) [of t lo hi] show ?case by simp
next
  case (Cons k ks)
  from Cons.prems(2) obtain t ts' where ts: "ts = t # ts'" "lo \<le> unat k" "ordered lo (unat k) t" "ord_l (unat k) hi ks ts'"
    by (auto simp: ord_l_Cons)
  have t: "sorted_wrt (<) (map fst (entries t))" "\<forall>k'\<in>fst ` set (entries t). lo \<le> unat k' \<and> unat k' < unat k"
    using Cons.prems(1) [of t lo "unat k"] ts(1,3) by simp_all
  have ts': "sorted_wrt (<) (map fst (concat (map entries ts')))"
    "\<forall>k'\<in>fst ` set (concat (map entries ts')). unat k \<le> unat k' \<and> unat k' < hi"
    using Cons.IH [of ts' "unat k", OF Cons.prems(1) ts(4)] ts(1) by simp_all
  have "x < y" if "x \<in> fst ` set (entries t)" "y \<in> fst ` set (concat (map entries ts'))" for x y
    using t(2) ts'(2) that by (force simp: word_less_nat_alt)
  moreover have "\<forall>k'\<in>fst ` set (entries t) \<union> fst ` set (concat (map entries ts')). lo \<le> unat k' \<and> unat k' < hi"
    using t(2) ts'(2) ts(2) ord_l_le [OF ts(4)] by fastforce
  ultimately show ?case
    using t(1) ts'(1) by (simp add: ts(1) sorted_wrt_append image_Un)
qed

lemma ordered_entries:
  "ordered lo hi t \<Longrightarrow>
    sorted_wrt (<) (map fst (entries t)) \<and> (\<forall>k\<in>fst ` set (entries t). lo \<le> unat k \<and> unat k < hi)"
proof (induction t arbitrary: lo hi)
  case (Lf a ks rs)
  then show ?case by (auto dest: set_zip_leftD)
next
  case (Nd a ks ts)
  then show ?case using ord_l_entries [of ts lo hi ks] by simp
qed

section \<open>Occupancy\<close>

text \<open>
  \<open>bal od h t\<close>: all leaves of \<open>t\<close> are at depth \<open>h\<close>, and every node is at least half full, as the code
  counts it; \<open>rbal\<close> is the same for the root, which may be emptier.
\<close>

fun bal :: "nat \<Rightarrow> nat \<Rightarrow> bt \<Rightarrow> bool" where
  "bal od h (Lf _ ks rs) \<longleftrightarrow> h = 0 \<and> cut (od - 1) \<le> length ks"
| "bal od h (Nd _ ks ts) \<longleftrightarrow> 0 < h \<and> cut od \<le> length ts \<and> (\<forall>t\<in>set ts. bal od (h - 1) t)"

fun rbal :: "nat \<Rightarrow> nat \<Rightarrow> bt \<Rightarrow> bool" where
  "rbal od h (Lf _ ks rs) \<longleftrightarrow> h = 0 \<and> ks \<noteq> []"
| "rbal od h (Nd _ ks ts) \<longleftrightarrow> 0 < h \<and> 2 \<le> length ts \<and> (\<forall>t\<in>set ts. bal od (h - 1) t)"

section \<open>Paths to the root\<close>

text \<open>
  \<open>Fr a ts1 ks1 ks2 ts2\<close> is the node \<open>a\<close> around one of its children: the children and keys before
  it and those after it. A context lists the frames from the innermost one to the root.
\<close>

datatype frame = Fr addr "bt list" "u64 list" "u64 list" "bt list"

type_synonym ctx = "frame list"

fun plug :: "bt \<Rightarrow> ctx \<Rightarrow> bt" where
  "plug t [] = t"
| "plug t (Fr a ts1 ks1 ks2 ts2 # C) = plug (Nd a (ks1 @ ks2) (ts1 @ t # ts2)) C"

fun par :: "ctx \<Rightarrow> addr" where
  "par [] = 0"
| "par (Fr a _ _ _ _ # C) = a"

fun top_of :: "addr \<Rightarrow> ctx \<Rightarrow> addr" where
  "top_of x [] = x"
| "top_of x (Fr a _ _ _ _ # C) = top_of a C"

fun caddrs :: "ctx \<Rightarrow> addr list" where
  "caddrs [] = []"
| "caddrs (Fr a ts1 _ _ ts2 # C) = a # concat (map addrs (ts1 @ ts2)) @ caddrs C"

fun cleft :: "(bt \<Rightarrow> 'b list) \<Rightarrow> ctx \<Rightarrow> 'b list" where
  "cleft f [] = []"
| "cleft f (Fr a ts1 _ _ ts2 # C) = cleft f C @ concat (map f ts1)"

fun cright :: "(bt \<Rightarrow> 'b list) \<Rightarrow> ctx \<Rightarrow> 'b list" where
  "cright f [] = []"
| "cright f (Fr a ts1 _ _ ts2 # C) = concat (map f ts2) @ cright f C"

fun crep :: "nat \<Rightarrow> (addr \<rightharpoonup> node) \<Rightarrow> addr \<Rightarrow> ctx \<Rightarrow> bool" where
  "crep od m x [] \<longleftrightarrow> True"
| "crep od m x (Fr a ts1 ks1 ks2 ts2 # C) \<longleftrightarrow> a \<noteq> 0 \<and>
     (\<exists>n. m a = Some n \<and> node_at od (par C) False (ks1 @ ks2) (map root_of ts1 @ x # map root_of ts2) n) \<and>
     (\<forall>t\<in>set ts1 \<union> set ts2. hrep od m a t) \<and> length ks1 = length ts1 \<and> crep od m a C"

fun clo :: "nat \<Rightarrow> ctx \<Rightarrow> nat" where
  "clo lo [] = lo"
| "clo lo (Fr _ _ ks1 _ _ # C) = hole_lo (clo lo C) ks1"

fun chi :: "nat \<Rightarrow> ctx \<Rightarrow> nat" where
  "chi hi [] = hi"
| "chi hi (Fr _ _ _ ks2 _ # C) = hole_hi (chi hi C) ks2"

fun cord :: "nat \<Rightarrow> nat \<Rightarrow> ctx \<Rightarrow> bool" where
  "cord lo hi [] \<longleftrightarrow> True"
| "cord lo hi (Fr a ts1 ks1 ks2 ts2 # C) \<longleftrightarrow> ord_pre (clo lo C) ks1 ts1 \<and> ord_post (chi hi C) ks2 ts2 \<and>
     hole_lo (clo lo C) ks1 \<le> hole_hi (chi hi C) ks2 \<and> cord lo hi C"

fun cbal :: "nat \<Rightarrow> nat \<Rightarrow> ctx \<Rightarrow> bool" where
  "cbal od h [] \<longleftrightarrow> True"
| "cbal od h (Fr a ts1 ks1 ks2 ts2 # C) \<longleftrightarrow> (\<forall>t\<in>set ts1 \<union> set ts2. bal od h t) \<and>
     (if C = [] then 2 else cut od) \<le> Suc (length ts1 + length ts2) \<and> cbal od (Suc h) C"

lemma root_of_plug: "root_of (plug t C) = top_of (root_of t) C"
  by (induction t C rule: plug.induct) auto

lemma plug_addrs: "mset (addrs (plug t C)) = mset (addrs t) + mset (caddrs C)"
  by (induction t C rule: plug.induct) auto

lemma plug_addrs_set: "set (addrs (plug t C)) = set (addrs t) \<union> set (caddrs C)"
  using arg_cong [OF plug_addrs, of set_mset] by simp

lemma plug_addrs_distinct: "distinct (addrs (plug t C)) \<longleftrightarrow> distinct (addrs t @ caddrs C)"
  by (rule mset_eq_imp_distinct_iff) (simp add: plug_addrs)

lemma plug_entries: "entries (plug t C) = cleft entries C @ entries t @ cright entries C"
  by (induction t C rule: plug.induct) auto

lemma plug_leaves: "leaves (plug t C) = cleft leaves C @ leaves t @ cright leaves C"
  by (induction t C rule: plug.induct) auto

fun sized :: "ctx \<Rightarrow> bool" where
  "sized [] \<longleftrightarrow> True"
| "sized (Fr _ ts1 ks1 _ _ # C) \<longleftrightarrow> length ks1 = length ts1 \<and> sized C"

lemma plug_hrep: "sized C \<Longrightarrow> hrep od m 0 (plug t C) \<longleftrightarrow> hrep od m (par C) t \<and> crep od m (root_of t) C"
  by (induction t C rule: plug.induct) (auto simp: ball_Un)

lemma crep_sized: "crep od m x C \<Longrightarrow> sized C"
  by (induction od m x C rule: crep.induct) auto

lemma plug_ordered: "sized C \<Longrightarrow>
    ordered lo hi (plug t C) \<longleftrightarrow> ordered (clo lo C) (chi hi C) t \<and> cord lo hi C"
  by (induction t C rule: plug.induct) (auto simp: ordered_hole simp del: ordered.simps(2))

lemma plug_rbal_ne:
  "C \<noteq> [] \<Longrightarrow> (\<exists>h. rbal od h (plug t C)) \<longleftrightarrow> (\<exists>h. bal od h t \<and> cbal od h C)"
proof (induction t C rule: plug.induct)
  case (2 t a ts1 ks1 ks2 ts2 C)
  show ?case
  proof (cases "C = []")
    case True
    then show ?thesis by (auto simp: ball_Un gr0_conv_Suc)
  next
    case False
    with 2 show ?thesis by (auto simp: ball_Un gr0_conv_Suc)
  qed
qed simp

lemma crep_cong:
  "(\<And>a. a \<in> set (caddrs C) \<Longrightarrow> m a = m' a) \<Longrightarrow> crep od m x C = crep od m' x C"
proof (induction od m x C rule: crep.induct)
  case (2 od m x a ts1 ks1 ks2 ts2 C)
  have "hrep od m a t = hrep od m' a t" if "t \<in> set ts1 \<union> set ts2" for t
    using 2(2) that by (intro hrep_cong) auto
  with 2 show ?case by auto
qed simp

lemma par_in_caddrs: "C \<noteq> [] \<Longrightarrow> par C \<in> set (caddrs C)"
  by (cases C rule: par.cases) auto

end
