(* ===== verification/BtreeFind.thy ===== *)
theory BtreeFind
  imports BtreeTree
begin

text \<open>
  Searching. The descent of \<open>find_leaf\<close> ends at the leaf whose key interval contains the key, and
  \<open>find\<close> computes the lookup in the list of entries of the tree.
\<close>

section \<open>The tree invariant\<close>

text \<open>\<open>linked od m xs z\<close>: the leaves \<open>xs\<close> are chained by their last pointers, and the last one points to \<open>z\<close>.\<close>

fun linked :: "nat \<Rightarrow> (addr \<rightharpoonup> node) \<Rightarrow> addr list \<Rightarrow> addr \<Rightarrow> bool" where
  "linked od m [] z \<longleftrightarrow> True"
| "linked od m (x # xs) z \<longleftrightarrow>
     (\<exists>n. m x = Some n \<and> pointers n ! (od - 1) = (if xs = [] then z else hd xs)) \<and> linked od m xs z"

lemma linked_append:
  "linked od m (xs @ ys) z \<longleftrightarrow> linked od m xs (if ys = [] then z else hd ys) \<and> linked od m ys z"
  by (induction xs) auto

lemma linked_cong:
  "(\<And>x. x \<in> set xs \<Longrightarrow> map_option pointers (m x) = map_option pointers (m' x)) \<Longrightarrow> linked od m xs z = linked od m' xs z"
proof (induction xs)
  case (Cons x xs)
  have "map_option pointers (m x) = map_option pointers (m' x)" using Cons.prems by simp
  with Cons show ?case by (cases "m x"; cases "m' x") auto
qed simp

definition tree_ok :: "nat \<Rightarrow> mem \<Rightarrow> bt \<Rightarrow> bool" where
  "tree_ok od s t \<longleftrightarrow> hrep od (nodes s) 0 t \<and> distinct (addrs t) \<and> ordered 0 (2 ^ 64) t \<and>
     (\<exists>h. rbal od h t) \<and> linked od (nodes s) (leaves t) 0 \<and> node_slab.ok s (set (addrs t))"

text \<open>
  \<open>btree od s root es\<close>: the memory holds at \<open>root\<close> a B+ tree of order \<open>od\<close> with the entries \<open>es\<close>, in
  key order.
\<close>

definition btree :: "nat \<Rightarrow> mem \<Rightarrow> addr \<Rightarrow> (u64 \<times> addr) list \<Rightarrow> bool" where
  "btree od s root es \<longleftrightarrow>
     (root = 0 \<and> es = [] \<and> node_slab.ok s {}) \<or> (\<exists>t. tree_ok od s t \<and> root = root_of t \<and> es = entries t)"

definition tree_keys :: "(u64 \<times> addr) list \<Rightarrow> u64 set" where
  "tree_keys es = fst ` set es"

lemma btree_sorted: "btree od s root es \<Longrightarrow> sorted_wrt (<) (map fst es)"
  using ordered_entries by (auto simp: btree_def tree_ok_def)

lemma btree_distinct: "btree od s root es \<Longrightarrow> distinct (map fst es)"
  using btree_sorted strict_sorted_iff by blast

section \<open>The descent\<close>

definition leaf_for :: "nat \<Rightarrow> u64 \<Rightarrow> bt \<Rightarrow> addr \<Rightarrow> u64 list \<Rightarrow> addr list \<Rightarrow> ctx \<Rightarrow> bool" where
  "leaf_for od key t a ks rs C \<longleftrightarrow> plug (Lf a ks rs) C = t \<and> sized C \<and>
     clo 0 C \<le> unat key \<and> unat key < chi (2 ^ 64) C"

lemma child_index_takeWhile:
  "node_at od p False ks ps n \<Longrightarrow> child_index n key = Some (length (takeWhile (\<lambda>k. k \<le> key) ks))"
  unfolding child_index_def by (subst scan_takeWhile) (auto simp: node_at_def)

lemma frame_at:
  assumes "length ts = Suc (length ks)" "i = length (takeWhile (\<lambda>k. k \<le> key) ks)"
    and "lo \<le> unat key" "unat key < hi"
  shows "hole_lo lo (take i ks) \<le> unat key" "unat key < hole_hi hi (drop i ks)"
    "take i ks @ drop i ks = ks" "take i ts @ ts ! i # drop (Suc i) ts = ts" "length (take i ks) = length (take i ts)"
    "i < length ts"
proof -
  have le: "i \<le> length ks" using assms(2) length_takeWhile_le by auto
  have eq: "take i ks = takeWhile (\<lambda>k. k \<le> key) ks" "drop i ks = dropWhile (\<lambda>k. k \<le> key) ks"
    unfolding assms(2) by (rule takeWhile_eq_take [symmetric], rule dropWhile_eq_drop [symmetric])
  have "last (takeWhile (\<lambda>k. k \<le> key) ks) \<le> key" if "takeWhile (\<lambda>k. k \<le> key) ks \<noteq> []"
    using set_takeWhileD [OF last_in_set [OF that]] by (rule conjunct2)
  then show "hole_lo lo (take i ks) \<le> unat key"
    using assms(3) unfolding eq hole_lo_def by (simp add: word_le_nat_alt)
  have "\<not> hd (dropWhile (\<lambda>k. k \<le> key) ks) \<le> key" if "dropWhile (\<lambda>k. k \<le> key) ks \<noteq> []"
    by (rule hd_dropWhile [OF that])
  then show "unat key < hole_hi hi (drop i ks)"
    using assms(4) unfolding eq hole_hi_def by (auto simp: word_le_nat_alt not_le)
  show "take i ts @ ts ! i # drop (Suc i) ts = ts"
    using le assms(1) by (simp add: id_take_nth_drop [symmetric])
  show "take i ks @ drop i ks = ks" "length (take i ks) = length (take i ts)" "i < length ts"
    using le assms(1) by simp_all
qed

lemma descend_leaf:
  assumes "hrep od (nodes s) p t" "sized C" "clo 0 C \<le> unat key" "unat key < chi (2 ^ 64) C"
  shows "\<exists>a ks rs C'. descend s key (root_of t) = Some a \<and> leaf_for od key (plug t C) a ks rs C'"
  using assms
proof (induction t arbitrary: p C)
  case (Lf a ks rs)
  then have "descend s key a = Some a"
    by (auto simp: descend.simps get_node_def node_at_def)
  with Lf show ?case by (auto simp: leaf_for_def)
next
  case (Nd a ks ts)
  from Nd.prems(1) obtain n where n: "a \<noteq> 0" "nodes s a = Some n" "node_at od p False ks (map root_of ts) n"
    and sub: "\<forall>t\<in>set ts. hrep od (nodes s) a t" by auto
  have len: "length ts = Suc (length ks)" using n(3) by (simp add: node_at_def)
  define i where "i = length (takeWhile (\<lambda>k. k \<le> key) ks)"
  note fr = frame_at [OF len i_def Nd.prems(3,4)]
  let ?C = "Fr a (take i ts) (take i ks) (drop i ks) (drop (Suc i) ts) # C"
  have "pointers n ! i = root_of (ts ! i)" "i < length (pointers n)"
    using n(3) fr(6) len by (auto simp: node_at_def dest!: arg_cong [where f = "\<lambda>xs. xs ! i"])
  then have "descend s key a = descend s key (root_of (ts ! i))"
    using n by (subst descend.simps) (simp add: get_node_def child_index_takeWhile [OF n(3)] i_def [symmetric] node_at_def)
  moreover have "plug (ts ! i) ?C = plug (Nd a ks ts) C" using fr(3,4) by simp
  moreover have "\<exists>b ks' rs C'. descend s key (root_of (ts ! i)) = Some b \<and> leaf_for od key (plug (ts ! i) ?C) b ks' rs C'"
    using Nd.IH [of "ts ! i" a ?C] fr Nd.prems(2) sub by simp
  ultimately show ?case by simp
qed

lemma find_leaf_for:
  assumes "tree_ok od s t"
  obtains a ks rs C where "find_leaf s (root_of t) key = Some a" "leaf_for od key t a ks rs C"
proof -
  have "hrep od (nodes s) 0 t" using assms by (simp add: tree_ok_def)
  moreover have "unat key < 2 ^ 64" using unsigned_less [of key, where 'a = nat] by simp
  ultimately obtain a ks rs C where "descend s key (root_of t) = Some a" "leaf_for od key t a ks rs C"
    using descend_leaf [of od s 0 t "[]" key] by auto
  with hrep_root [OF \<open>hrep od (nodes s) 0 t\<close>] show ?thesis by (auto simp: find_leaf_def intro: that)
qed

section \<open>Lookup\<close>

lemma ord_pre_entries:
  "ord_pre lo ks ts \<Longrightarrow> lo \<le> hole_lo lo ks \<and> (\<forall>k\<in>fst ` set (concat (map entries ts)). unat k < hole_lo lo ks)"
proof (induction lo ks ts rule: ord_pre.induct)
  case (2 lo k ks t ts)
  then have IH: "unat k \<le> hole_lo (unat k) ks" "\<forall>x\<in>fst ` set (concat (map entries ts)). unat x < hole_lo (unat k) ks"
    by simp_all
  have "\<forall>x\<in>fst ` set (entries t). unat x < unat k" using 2 ordered_entries by auto
  with IH 2 show ?case by (auto simp: image_Un intro: less_le_trans)
qed auto

lemma ord_post_entries:
  "ord_post hi ks ts \<Longrightarrow> hole_hi hi ks \<le> hi \<and> (\<forall>k\<in>fst ` set (concat (map entries ts)). hole_hi hi ks \<le> unat k)"
  using ord_l_entries [of ts] ordered_entries by (cases ks) (auto dest: ord_l_le)

lemma cord_entries:
  "cord lo hi C \<Longrightarrow> lo \<le> clo lo C \<and> chi hi C \<le> hi \<and>
    (\<forall>k\<in>fst ` set (cleft entries C). unat k < clo lo C) \<and> (\<forall>k\<in>fst ` set (cright entries C). chi hi C \<le> unat k)"
proof (induction C rule: sized.induct)
  case (2 a ts1 ks1 ks2 ts2 C)
  then have IH: "lo \<le> clo lo C" "chi hi C \<le> hi" "\<forall>k\<in>fst ` set (cleft entries C). unat k < clo lo C"
    "\<forall>k\<in>fst ` set (cright entries C). chi hi C \<le> unat k" by auto
  from 2 have pre: "ord_pre (clo lo C) ks1 ts1" and post: "ord_post (chi hi C) ks2 ts2" by auto
  have "\<forall>k\<in>fst ` set (cleft entries C) \<union> fst ` set (concat (map entries ts1)). unat k < hole_lo (clo lo C) ks1"
    using IH(3) ord_pre_entries [OF pre] less_le_trans by blast
  moreover have "\<forall>k\<in>fst ` set (concat (map entries ts2)) \<union> fst ` set (cright entries C). hole_hi (chi hi C) ks2 \<le> unat k"
    using IH(4) ord_post_entries [OF post] le_trans by blast
  ultimately show ?case
    using IH(1,2) ord_pre_entries [OF pre] ord_post_entries [OF post] by (simp add: image_Un)
qed simp

lemma leaf_for_entries:
  assumes "leaf_for od key t a ks rs C" "ordered 0 (2 ^ 64) t"
  shows "entries t = cleft entries C @ zip ks rs @ cright entries C"
    "\<forall>k\<in>fst ` set (cleft entries C). k < key" "\<forall>k\<in>fst ` set (cright entries C). key < k"
proof -
  have t: "t = plug (Lf a ks rs) C" "sized C" "clo 0 C \<le> unat key" "unat key < chi (2 ^ 64) C"
    using assms(1) by (auto simp: leaf_for_def)
  then have "cord 0 (2 ^ 64) C" using assms(2) by (simp add: plug_ordered)
  from cord_entries [OF this] t(3,4)
  show "\<forall>k\<in>fst ` set (cleft entries C). k < key" "\<forall>k\<in>fst ` set (cright entries C). key < k"
    by (auto simp: word_less_nat_alt intro: less_le_trans)
  show "entries t = cleft entries C @ zip ks rs @ cright entries C"
    by (simp add: t(1) plug_entries)
qed

lemma leaf_for_lookup:
  assumes "leaf_for od key t a ks rs C" "ordered 0 (2 ^ 64) t"
  shows "map_of (entries t) key = map_of (zip ks rs) key"
proof -
  have "key \<notin> fst ` set (cleft entries C)" "key \<notin> fst ` set (cright entries C)"
    using leaf_for_entries(2,3) [OF assms] by auto
  then have "map_of (cleft entries C) key = None" "map_of (cright entries C) key = None"
    by (simp_all add: map_of_eq_None_iff)
  then show ?thesis
    using leaf_for_entries(1) [OF assms] by (auto simp: map_add_def split: option.splits)
qed

lemma map_of_zip_scan:
  "length ks = length rs \<Longrightarrow> map_of (zip ks rs) key =
    (let i = length (takeWhile (\<lambda>k. k \<noteq> key) ks) in if i = length ks then None else Some (rs ! i))"
  by (induction ks rs rule: list_induct2) (auto simp: Let_def)

lemma find_record_lookup:
  assumes "tree_ok od s t"
  shows "\<exists>leaf. find_record s (root_of t) key =
    Some (case map_of (entries t) key of None \<Rightarrow> 0 | Some r \<Rightarrow> r, leaf)"
proof -
  obtain a ks rs C where fl: "find_leaf s (root_of t) key = Some a" and lf: "leaf_for od key t a ks rs C"
    using find_leaf_for [OF assms] .
  have "hrep od (nodes s) 0 (plug (Lf a ks rs) C)" "sized C"
    using assms lf by (auto simp: tree_ok_def leaf_for_def)
  then obtain n where n: "a \<noteq> 0" "nodes s a = Some n" "node_at od (par C) True ks rs n"
    by (auto simp: plug_hrep)
  have ks: "take (num_keys n) (keys n) = ks" "num_keys n \<le> length (keys n)" "length ks = length rs"
    "num_keys n = length ks" and rs: "i < length ks \<Longrightarrow> aget (pointers n) i = Some (rs ! i)" for i
    using n(3) by (auto simp: node_at_def aget_def dest!: arg_cong [where f = "\<lambda>xs. xs ! i"])
  have root: "root_of t \<noteq> 0" using assms hrep_root by (auto simp: tree_ok_def)
  define i where "i = length (takeWhile (\<lambda>k. k \<noteq> key) ks)"
  have "find_record s (root_of t) key =
      (if i = length ks then Some (0, a) else do { p \<leftarrow> aget (pointers n) i; Some (p, a) })"
    using root n ks by (simp add: find_record_def fl get_node_def scan_takeWhile i_def)
  moreover have "i \<le> length ks" unfolding i_def by (rule length_takeWhile_le)
  ultimately show ?thesis
    using assms lf rs ks(3)
    by (auto simp: tree_ok_def leaf_for_lookup map_of_zip_scan Let_def i_def [symmetric])
qed

end
