(* ===== verification/BtreeNode.thy ===== *)
theory BtreeNode
  imports BtreeFind
begin

text \<open>
  The array loops of the insertion functions on one node: what they compute, as list operations.
  Each loop is shown to succeed (no index leaves its array) and its result is given in closed form.
\<close>

section \<open>Inserting into an array prefix\<close>

definition ins_at :: "nat \<Rightarrow> 'a \<Rightarrow> 'a list \<Rightarrow> 'a list" where
  "ins_at i x xs = take i xs @ x # drop i xs"

lemma length_ins_at [simp]: "length (ins_at i x xs) = Suc (length xs)"
  by (simp add: ins_at_def)

lemma nth_ins_at:
  "i \<le> length xs \<Longrightarrow> j \<le> length xs \<Longrightarrow> ins_at i x xs ! j = (if j < i then xs ! j else if j = i then x else xs ! (j - 1))"
  by (auto simp: ins_at_def nth_append min_def nth_Cons')

text \<open>\<open>shiftr i n xs\<close> moves the elements at \<open>i, ..., n - 1\<close> one place to the right.\<close>

definition shiftr :: "nat \<Rightarrow> nat \<Rightarrow> 'a list \<Rightarrow> 'a list" where
  "shiftr i n xs = map (\<lambda>j. if i < j \<and> j \<le> n then xs ! (j - 1) else xs ! j) [0..<length xs]"

lemma length_shiftr [simp]: "length (shiftr i n xs) = length xs"
  by (simp add: shiftr_def)

lemma nth_shiftr: "j < length xs \<Longrightarrow> shiftr i n xs ! j = (if i < j \<and> j \<le> n then xs ! (j - 1) else xs ! j)"
  by (simp add: shiftr_def)

lemma shiftr_self: "n \<le> i \<Longrightarrow> shiftr i n xs = xs"
  by (rule nth_equalityI) (auto simp: nth_shiftr)

lemma nth_shiftr_pred: "0 < i \<Longrightarrow> i \<le> length xs \<Longrightarrow> shiftr i n xs ! (i - 1) = xs ! (i - 1)"
  by (auto simp: nth_shiftr)

lemma shiftr_step:
  "0 < i \<Longrightarrow> i \<le> n \<Longrightarrow> n < length xs \<Longrightarrow> (shiftr i n xs)[i := xs ! (i - 1)] = shiftr (i - 1) n xs"
  by (rule nth_equalityI) (auto simp: nth_shiftr nth_list_update)

lemma take_shiftr:
  "i \<le> n \<Longrightarrow> n < length xs \<Longrightarrow> take (Suc n) ((shiftr i n xs)[i := x]) = ins_at i x (take n xs)"
proof (rule nth_equalityI)
  fix j assume "i \<le> n" "n < length xs" "j < length (take (Suc n) ((shiftr i n xs)[i := x]))"
  then show "take (Suc n) ((shiftr i n xs)[i := x]) ! j = ins_at i x (take n xs) ! j"
    by (auto simp: nth_shiftr nth_list_update nth_ins_at)
qed simp

lemma put_key_Some [simp]: "i < length (keys n) \<Longrightarrow> put_key i k n = Some (n\<lparr>keys := (keys n)[i := k]\<rparr>)"
  by (simp add: put_key_def)

lemma put_ptr_Some [simp]: "i < length (pointers n) \<Longrightarrow> put_ptr i p n = Some (n\<lparr>pointers := (pointers n)[i := p]\<rparr>)"
  by (simp add: put_ptr_def)

lemma shift_entries:
  assumes "ip \<le> k" "k < length (keys n)" "k < length (pointers n)"
  shows "for_down k ip shift_entry n = Some (n\<lparr>keys := shiftr ip k (keys n), pointers := shiftr ip k (pointers n)\<rparr>)"
proof -
  have "\<exists>n'. for_down k ip shift_entry n = Some n' \<and>
      n' = n\<lparr>keys := shiftr ip k (keys n), pointers := shiftr ip k (pointers n)\<rparr>"
  proof (rule for_down_rule)
    show "n = n\<lparr>keys := shiftr k k (keys n), pointers := shiftr k k (pointers n)\<rparr>" by (simp add: shiftr_self)
    show "\<exists>s'. shift_entry i s = Some s' \<and> s' = n\<lparr>keys := shiftr (i - 1) k (keys n), pointers := shiftr (i - 1) k (pointers n)\<rparr>"
      if "ip < i" "i \<le> k" "s = n\<lparr>keys := shiftr i k (keys n), pointers := shiftr i k (pointers n)\<rparr>" for i s
      using that assms
        shiftr_step [of i k "keys n"] shiftr_step [of i k "pointers n"]
        nth_shiftr_pred [of i "keys n" k] nth_shiftr_pred [of i "pointers n" k]
      by (simp add: shift_entry_def)
  qed (use assms in auto)
  then show ?thesis by simp
qed

text \<open>Where a key goes among sorted keys.\<close>

definition key_pos :: "u64 \<Rightarrow> u64 list \<Rightarrow> nat" where
  "key_pos key ks = length (takeWhile (\<lambda>k. k < key) ks)"

lemma key_pos_le: "key_pos key ks \<le> length ks"
  by (simp add: key_pos_def length_takeWhile_le)

definition ins_leaf :: "u64 \<Rightarrow> addr \<Rightarrow> u64 list \<Rightarrow> addr list \<Rightarrow> u64 list \<times> addr list" where
  "ins_leaf key r ks rs = (ins_at (key_pos key ks) key ks, ins_at (key_pos key ks) r rs)"

lemma insert_into_leaf_node:
  assumes n: "nodes s a = Some n" "a \<noteq> 0" "node_at od p True ks rs n" and room: "length ks < od - 1"
  shows "\<exists>n'. insert_into_leaf a key r s = Some (s\<lparr>nodes := (nodes s)(a \<mapsto> n')\<rparr>) \<and>
    node_at od p True (ins_at (key_pos key ks) key ks) (ins_at (key_pos key ks) r rs) n' \<and>
    pointers n' ! (od - 1) = pointers n ! (od - 1)"
proof -
  have f: "num_keys n = length ks" "length (keys n) = od - 1" "length (pointers n) = od" "length rs = length ks"
    "take (length ks) (keys n) = ks" "take (length ks) (pointers n) = rs"
    using n(3) by (auto simp: node_at_def)
  let ?i = "key_pos key ks"
  have i: "?i \<le> length ks" by (rule key_pos_le)
  have sc: "scan 0 (length ks) (\<lambda>i. do { k \<leftarrow> aget (keys n) i; Some (k < key) }) = Some ?i"
    using f room by (subst scan_takeWhile) (simp_all add: key_pos_def)
  define n' where "n' = n\<lparr>keys := (shiftr ?i (length ks) (keys n))[?i := key],
    pointers := (shiftr ?i (length ks) (pointers n))[?i := r], num_keys := Suc (length ks)\<rparr>"
  have "for_down (length ks) ?i shift_entry n =
      Some (n\<lparr>keys := shiftr ?i (length ks) (keys n), pointers := shiftr ?i (length ks) (pointers n)\<rparr>)"
    by (rule shift_entries) (use i f room in auto)
  then have "insert_into_leaf a key r s = Some (s\<lparr>nodes := (nodes s)(a \<mapsto> n')\<rparr>)"
    using n(1,2) f i room by (simp add: insert_into_leaf_def mod_node_def get_node_def sc n'_def)
  moreover have "node_at od p True (ins_at ?i key ks) (ins_at ?i r rs) n'"
    using n(3) room i take_shiftr [of ?i "length ks" "keys n" key] take_shiftr [of ?i "length ks" "pointers n" r]
    by (auto simp: node_at_def n'_def)
  moreover have "pointers n' ! (od - 1) = pointers n ! (od - 1)"
    using f i room by (simp add: n'_def nth_shiftr)
  ultimately show ?thesis by blast
qed

text \<open>The short cut of \<open>insert_unique\<close>: appending is the insertion at the end.\<close>

lemma append_node_at:
  assumes "node_at od p True ks rs n" "length ks < od - 1"
  shows "node_at od p True (ks @ [key]) (rs @ [r])
      (n\<lparr>keys := (keys n)[length ks := key], pointers := (pointers n)[length ks := r], num_keys := Suc (length ks)\<rparr>)"
  using assms by (auto simp: node_at_def take_Suc_conv_app_nth)

lemma key_pos_append:
  assumes "sorted_wrt (<) ks" "ks = [] \<or> last ks < key"
  shows "ins_at (key_pos key ks) x xs = (if length xs = length ks then xs @ [x] else ins_at (length ks) x xs)"
proof -
  have "k < key" if "k \<in> set ks" for k
    using assms that by (cases ks rule: rev_cases) (auto simp: sorted_wrt_append)
  then have "takeWhile (\<lambda>k. k < key) ks = ks" by (simp add: takeWhile_eq_all_conv)
  then have "key_pos key ks = length ks" by (simp only: key_pos_def)
  then show ?thesis by (simp add: ins_at_def)
qed

section \<open>Spreading and filling arrays\<close>

lemma spread_ok:
  assumes "n \<le> length src" "gap \<le> n" "n < length dst"
  shows "\<exists>d. spread n gap src dst = Some d \<and> length d = length dst \<and>
    take (Suc n) (d[gap := v]) = ins_at gap v (take n src)"
proof -
  define J where "J i = (if i \<le> gap then i else Suc i)" for i :: nat
  define Q where "Q i d \<longleftrightarrow> length d = length dst \<and> (\<forall>j<i. d ! (if j < gap then j else Suc j) = src ! j)"
    for i :: nat and d :: "'a list"
  have "\<exists>p. for_up 0 n (\<lambda>i (j, dst). do {
       let j = (if j = gap then Suc j else j);
       v \<leftarrow> aget src i;
       dst \<leftarrow> aset dst j v;
       Some (Suc j, dst) }) (0, dst) = Some p \<and> (fst p = J n \<and> Q n (snd p))"
  proof (rule for_up_rule)
    fix i and p :: "nat \<times> 'a list"
    assume i: "0 \<le> i" "i < n" and p: "fst p = J i \<and> Q i (snd p)"
    then obtain d where d: "p = (J i, d)" "Q i d" by (cases p) auto
    let ?j = "if i < gap then i else Suc i"
    have j: "(if J i = gap then Suc (J i) else J i) = ?j" "Suc ?j = J (Suc i)" by (auto simp: J_def)
    have len: "?j < length d" using d(2) i assms by (auto simp: Q_def)
    have "Q (Suc i) (d[?j := src ! i])"
      using d(2) len i assms by (auto simp: Q_def less_Suc_eq nth_list_update)
    then show "\<exists>s'. (case p of (j, dst) \<Rightarrow> do {
       let j = (if j = gap then Suc j else j);
       v \<leftarrow> aget src i;
       dst \<leftarrow> aset dst j v;
       Some (Suc j, dst) }) = Some s' \<and> fst s' = J (Suc i) \<and> Q (Suc i) (snd s')"
      using len i assms by (auto simp: d(1) Let_def j)
  qed (auto simp: J_def Q_def)
  then obtain d where d: "spread n gap src dst = Some d" "Q n d" by (auto simp: spread_def)
  have "take (Suc n) (d[gap := v]) = ins_at gap v (take n src)"
  proof (rule nth_equalityI)
    show "length (take (Suc n) (d[gap := v])) = length (ins_at gap v (take n src))"
      using d(2) assms by (simp add: Q_def)
    fix j assume "j < length (take (Suc n) (d[gap := v]))"
    then have j: "j \<le> n" "j < length d" by auto
    from d(2) have q: "i < n \<Longrightarrow> d ! (if i < gap then i else Suc i) = src ! i" for i by (simp add: Q_def)
    consider "j < gap" | "j = gap" | "gap < j" by linarith
    then show "take (Suc n) (d[gap := v]) ! j = ins_at gap v (take n src) ! j"
    proof cases
      case 3
      then have "\<not> j - 1 < gap" "Suc (j - 1) = j" "j - 1 < n" using j(1) by auto
      then have "d ! j = src ! (j - 1)" using q [of "j - 1"] by (simp only: if_False)
      with 3 j assms d(2) show ?thesis by (simp add: nth_ins_at)
    qed (use q [of j] j assms in \<open>auto simp: nth_ins_at\<close>)
  qed
  with d show ?thesis by (auto simp: Q_def)
qed

lemma drop_take_Suc: "from \<le> i \<Longrightarrow> i < length xs \<Longrightarrow> drop from (take (Suc i) xs) = drop from (take i xs) @ [xs ! i]"
  by (simp add: take_Suc_conv_app_nth)

lemma update_next: "length xs = i \<Longrightarrow> i < j + length ys \<Longrightarrow> j = i \<Longrightarrow> (xs @ ys)[i := v] = (xs @ [v]) @ drop 1 ys"
  by (cases ys) (auto simp: list_update_append)

lemma fill_node_ok:
  assumes "from \<le> to" "to \<le> length tk" "to \<le> length tp" "to - from \<le> length (keys n)" "to - from \<le> length (pointers n)"
  shows "fill_node from to tk tp n = Some (n\<lparr>keys := drop from (take to tk) @ drop (to - from) (keys n),
    pointers := drop from (take to tp) @ drop (to - from) (pointers n), num_keys := num_keys n + (to - from)\<rparr>)"
proof -
  let ?N = "\<lambda>i. n\<lparr>keys := drop from (take i tk) @ drop (i - from) (keys n),
    pointers := drop from (take i tp) @ drop (i - from) (pointers n), num_keys := num_keys n + (i - from)\<rparr>"
  have "\<exists>n'. fill_node from to tk tp n = Some n' \<and> n' = ?N to"
    unfolding fill_node_def
  proof (rule for_up_rule)
    fix i s assume i: "from \<le> i" "i < to" and s: "s = ?N i"
    have "(drop from (take i tk) @ drop (i - from) (keys n))[i - from := tk ! i] =
        drop from (take (Suc i) tk) @ drop (Suc i - from) (keys n)"
      using i assms by (subst update_next [where j = "i - from"]) (auto simp: drop_take_Suc Suc_diff_le)
    moreover have "(drop from (take i tp) @ drop (i - from) (pointers n))[i - from := tp ! i] =
        drop from (take (Suc i) tp) @ drop (Suc i - from) (pointers n)"
      using i assms by (subst update_next [where j = "i - from"]) (auto simp: drop_take_Suc Suc_diff_le)
    ultimately show "\<exists>s'. do {
       p \<leftarrow> aget tp i;
       n \<leftarrow> put_ptr (i - from) p s;
       k \<leftarrow> aget tk i;
       n \<leftarrow> put_key (i - from) k n;
       Some (n\<lparr>num_keys := Suc (num_keys n)\<rparr>) } = Some s' \<and> s' = ?N (Suc i)"
      using i assms by (simp add: s Suc_diff_le min_def)
  qed (use assms in auto)
  then show ?thesis by simp
qed

lemma null_ptrs_ok:
  assumes "from \<le> to" "to \<le> length (pointers n)"
  shows "null_ptrs from to n =
    Some (n\<lparr>pointers := take from (pointers n) @ replicate (to - from) 0 @ drop to (pointers n)\<rparr>)"
proof -
  let ?N = "\<lambda>i. n\<lparr>pointers := (take from (pointers n) @ replicate (i - from) 0) @ drop i (pointers n)\<rparr>"
  have "\<exists>n'. null_ptrs from to n = Some n' \<and> n' = ?N to"
    unfolding null_ptrs_def
  proof (rule for_up_rule)
    fix i s assume i: "from \<le> i" "i < to" and s: "s = ?N i"
    have "((take from (pointers n) @ replicate (i - from) 0) @ drop i (pointers n))[i := 0] =
        (take from (pointers n) @ replicate (Suc i - from) 0) @ drop (Suc i) (pointers n)"
      using i assms by (subst update_next [where j = i]) (auto simp: Suc_diff_le replicate_append_same)
    then show "\<exists>s'. put_ptr i 0 s = Some s' \<and> s' = ?N (Suc i)"
      using i assms by (simp add: s)
  qed (use assms in auto)
  then show ?thesis by simp
qed

end
