(* ===== verification/BtreeSplit.thy ===== *)
theory BtreeSplit
  imports BtreeNode
begin

text \<open>
  Splitting a full leaf and a full inner node: the two halves that the code leaves in the heap, and
  that nothing else in use changes.
\<close>

lemma cut_eq: "cut n = (n + 1) div 2"
  unfolding cut_def by presburger

lemma mod_node_Some:
  "nodes s a = Some n \<Longrightarrow> a \<noteq> 0 \<Longrightarrow> f n = Some n' \<Longrightarrow> mod_node f a s = Some (s\<lparr>nodes := (nodes s)(a \<mapsto> n')\<rparr>)"
  by (simp add: mod_node_def get_node_def)

section \<open>Leaves\<close>

text \<open>The two nodes after the loops of \<open>insert_into_leaf_after_splitting\<close>.\<close>

lemma split_leaf_left:
  assumes n: "node_at od p True ks rs n" and full: "length ks = od - 1" and od: "3 \<le> od"
    and tk: "take od tk = KS" "length KS = od" and tp: "take od tp = RS" "length RS = od"
  defines "c \<equiv> cut (od - 1)"
  shows "\<exists>n1. fill_node 0 c tk tp (n\<lparr>num_keys := 0\<rparr>) = Some n1 \<and> parent n1 = p \<and>
    length (pointers n1) = od \<and> pointers n1 ! (od - 1) = pointers n ! (od - 1) \<and>
    (\<exists>n2. null_ptrs (num_keys n1) (od - 1) (n1\<lparr>pointers := (pointers n1)[od - 1 := b]\<rparr>) = Some n2 \<and>
      node_at od p True (take c KS) (take c RS) n2 \<and> pointers n2 ! (od - 1) = b)"
proof -
  have f: "length (keys n) = od - 1" "length (pointers n) = od" "is_leaf n" "parent n = p"
    using n by (auto simp: node_at_def)
  have c: "0 < c" "c < od" using od by (auto simp: c_def cut_eq)
  have tks: "take c tk = take c KS" "take c tp = take c RS" "c \<le> length tk" "c \<le> length tp"
    using tk tp c by (auto simp flip: tk(1) tp(1) simp: min_def split: if_splits)
  define n1 where "n1 = n\<lparr>keys := take c KS @ drop c (keys n), pointers := take c RS @ drop c (pointers n), num_keys := c\<rparr>"
  have fill: "fill_node 0 c tk tp (n\<lparr>num_keys := 0\<rparr>) = Some n1"
    using c f tks by (subst fill_node_ok) (auto simp: n1_def)
  define n2 where "n2 = n1\<lparr>pointers := take c RS @ replicate (od - 1 - c) 0 @ [b]\<rparr>"
  have "drop (od - 1) ((take c RS @ drop c (pointers n))[od - 1 := b]) = [b]"
    using c f tp by (intro nth_equalityI) (auto simp: nth_append)
  then have "null_ptrs (num_keys n1) (od - 1) (n1\<lparr>pointers := (pointers n1)[od - 1 := b]\<rparr>) = Some n2"
    using c f tp by (subst null_ptrs_ok) (auto simp: n1_def n2_def list_update_append)
  moreover have "node_at od p True (take c KS) (take c RS) n2" "pointers n2 ! (od - 1) = b"
    using c f tk tp by (auto simp: node_at_def n1_def n2_def nth_append)
  moreover have "parent n1 = p" "length (pointers n1) = od" "pointers n1 ! (od - 1) = pointers n ! (od - 1)"
    using c f tp by (auto simp: n1_def nth_append)
  ultimately show ?thesis using fill by blast
qed

lemma split_leaf_right:
  assumes od: "3 \<le> od" and tk: "take od tk = KS" "length KS = od" and tp: "take od tp = RS" "length RS = od"
  defines "c \<equiv> cut (od - 1)"
  shows "\<exists>n1. fill_node c od tk tp (new_node od True) = Some n1 \<and> length (pointers n1) = od \<and>
    (\<exists>n2. null_ptrs (num_keys n1) (od - 1) (n1\<lparr>pointers := (pointers n1)[od - 1 := q]\<rparr>) = Some n2 \<and>
      node_at od p True (drop c KS) (drop c RS) (n2\<lparr>parent := p\<rparr>) \<and> pointers n2 ! (od - 1) = q \<and> keys n2 ! 0 = KS ! c)"
proof -
  have c: "0 < c" "c < od" using od by (auto simp: c_def cut_eq)
  have tks: "od \<le> length tk" "od \<le> length tp" using tk tp by (auto simp: min_def split: if_splits)
  define n1 where "n1 = (new_node od True)\<lparr>keys := drop c KS @ replicate (c - 1) 0,
    pointers := drop c RS @ replicate c 0, num_keys := od - c\<rparr>"
  have fill: "fill_node c od tk tp (new_node od True) = Some n1"
    using c tks tk(1) tp(1) by (subst fill_node_ok) (auto simp: n1_def new_node_def)
  define n2 where "n2 = n1\<lparr>pointers := drop c RS @ replicate (c - 1) 0 @ [q]\<rparr>"
  have "drop (od - 1) ((drop c RS @ replicate c 0)[od - 1 := q]) = [q]"
    using c tp by (intro nth_equalityI) (auto simp: nth_append)
  then have "null_ptrs (num_keys n1) (od - 1) (n1\<lparr>pointers := (pointers n1)[od - 1 := q]\<rparr>) = Some n2"
    using c tp by (subst null_ptrs_ok) (auto simp: n1_def n2_def list_update_append)
  moreover have "node_at od p True (drop c KS) (drop c RS) (n2\<lparr>parent := p\<rparr>)" "pointers n2 ! (od - 1) = q" "keys n2 ! 0 = KS ! c"
    using c tk tp by (auto simp: node_at_def n1_def n2_def nth_append new_node_def)
  moreover have "length (pointers n1) = od" using c tp by (simp add: n1_def)
  ultimately show ?thesis using fill by blast
qed

theorem split_leaf_ok:
  fixes key :: u64 and r :: addr
  assumes os: "good_os os" and od: "3 \<le> od" and U: "node_slab.ok s U" "a \<in> U"
    and n: "nodes s a = Some n" "node_at od p True ks rs n" and full: "length ks = od - 1"
  defines "KS \<equiv> ins_at (key_pos key ks) key ks" and "RS \<equiv> ins_at (key_pos key ks) r rs" and "c \<equiv> cut (od - 1)"
  obtains b s' na nb where "split_leaf os od a key r s = Some (KS ! c, b, s')" "b \<noteq> 0" "b \<notin> U"
    "node_slab.ok s' (insert b U)" "keeps s s'" "nodes s' a = Some na" "nodes s' b = Some nb"
    "\<And>x. x \<in> U - {a} \<Longrightarrow> nodes s' x = nodes s x"
    "node_at od p True (take c KS) (take c RS) na" "node_at od p True (drop c KS) (drop c RS) nb"
    "pointers na ! (od - 1) = b" "pointers nb ! (od - 1) = pointers n ! (od - 1)"
proof -
  obtain b s1 where s1: "make_leaf os od s = Some (b, s1)" "b \<noteq> 0" "b \<notin> U" "node_slab.ok s1 (insert b U)"
    "nodes s1 b = Some (new_node od True)" "\<And>x. x \<in> U \<Longrightarrow> nodes s1 x = nodes s x" "keeps s s1"
    using make_leaf_fresh [OF os U(1), of od] by metis
  have a: "a \<noteq> 0" "a \<noteq> b" "nodes s1 a = Some n" using U node_okD s1 n by auto
  have f: "length (keys n) = od - 1" "length (pointers n) = od" "num_keys n = od - 1" "take (od - 1) (keys n) = ks"
    "take (od - 1) (pointers n) = rs" "length rs = length ks"
    using n(2) full by (auto simp: node_at_def)
  let ?i = "key_pos key ks"
  have od': "Suc (od - 1) = od" using od by simp
  have cc: "cut (od - 1) = c" by (simp add: c_def)
  have lt: "od - 1 < length (replicate (od + 1) x)" for x :: 'x by simp
  have i: "?i \<le> od - 1" using key_pos_le [of key ks] full by simp
  have sc: "scan 0 (od - 1) (\<lambda>i. do { k \<leftarrow> aget (keys n) i; Some (k < key) }) = Some ?i"
    using f by (subst scan_takeWhile) (simp_all add: key_pos_def)
  obtain tk0 where tk0: "spread (od - 1) ?i (keys n) (replicate (od + 1) 0) = Some tk0" "length tk0 = od + 1"
    "take od (tk0[?i := key]) = KS"
    using spread_ok [of "od - 1" "keys n" ?i "replicate (od + 1) 0" key, OF _ i lt]
    unfolding od' f(1,4) KS_def length_replicate by auto
  obtain tp0 where tp0: "spread (od - 1) ?i (pointers n) (replicate (od + 1) 0) = Some tp0" "length tp0 = od + 1"
    "take od (tp0[?i := r]) = RS"
    using spread_ok [of "od - 1" "pointers n" ?i "replicate (od + 1) 0" r, OF _ i lt]
    unfolding od' f(2,5) RS_def length_replicate by auto
  let ?tk = "tk0[?i := key]" and ?tp = "tp0[?i := r]"
  have len: "length KS = od" "length RS = od" using full f od by (simp_all add: KS_def RS_def)
  obtain na1 na where na: "fill_node 0 c ?tk ?tp (n\<lparr>num_keys := 0\<rparr>) = Some na1" "parent na1 = p"
    "length (pointers na1) = od" "pointers na1 ! (od - 1) = pointers n ! (od - 1)"
    "null_ptrs (num_keys na1) (od - 1) (na1\<lparr>pointers := (pointers na1)[od - 1 := b]\<rparr>) = Some na"
    "node_at od p True (take c KS) (take c RS) na" "pointers na ! (od - 1) = b"
    using split_leaf_left [OF n(2) full od tk0(3) len(1) tp0(3) len(2), of b] unfolding c_def by blast
  obtain nb1 nb where nb: "fill_node c od ?tk ?tp (new_node od True) = Some nb1" "length (pointers nb1) = od"
    "null_ptrs (num_keys nb1) (od - 1) (nb1\<lparr>pointers := (pointers nb1)[od - 1 := pointers n ! (od - 1)]\<rparr>) = Some nb"
    "node_at od p True (drop c KS) (drop c RS) (nb\<lparr>parent := p\<rparr>)" "pointers nb ! (od - 1) = pointers n ! (od - 1)"
    "keys nb ! 0 = KS ! c"
    using split_leaf_right [OF od tk0(3) len(1) tp0(3) len(2), of "pointers n ! (od - 1)" p] unfolding c_def by blast
  have "parent na = p" "length (keys nb) = od - 1" using na(6) nb(4) by (auto simp: node_at_def)
  define s2 where "s2 = s1\<lparr>allocator_stat := allocator_stat s1 + word_of_nat ((od + 1) * 8) + word_of_nat ((od + 1) * 8),
    aligned := Suc (Suc (aligned s1)), nodes := (nodes s1)(a \<mapsto> na, b \<mapsto> nb\<lparr>parent := p\<rparr>)\<rparr>"
  have "split_leaf os od a key r s = Some (KS ! c, b, s2)"
    using a s1(1,2,5) os od f(2,3) i sc cc tk0(1,2) tp0(1,2) na(1,3,4,5) nb(1-3,6) \<open>parent na = p\<close> \<open>length (keys nb) = od - 1\<close>
    by (simp add: split_leaf_def mod_node_def get_node_def get_ptr_def get_key_def put_parent_def
        s2_def fun_upd_twist [of a b] cong: bind_weak_cong)
  moreover have "node_slab.ok s2 (insert b U)"
    using node_ok_update [OF node_ok_update [OF s1(4), of a na], of b "nb\<lparr>parent := p\<rparr>"] U(2)
    by (simp add: node_slab.ok_def s2_def)
  ultimately show ?thesis
    using s1 a na nb by (intro that [of b s2 na "nb\<lparr>parent := p\<rparr>"]) (auto simp: s2_def)
qed

section \<open>Inner nodes\<close>

lemma set_parents_ok:
  assumes b: "nodes s b = Some nb" "b \<noteq> 0" and k: "k \<le> length (pointers nb)"
    and q: "\<And>q. q \<in> set (take k (pointers nb)) \<Longrightarrow> q \<noteq> 0 \<and> q \<in> dom (nodes s) \<and> q \<noteq> b"
  shows "set_parents k b s = Some (s\<lparr>nodes := \<lambda>x. if x \<in> set (take k (pointers nb))
    then map_option (\<lambda>n. n\<lparr>parent := b\<rparr>) (nodes s x) else nodes s x\<rparr>)"
proof -
  let ?S = "\<lambda>i. s\<lparr>nodes := \<lambda>x. if x \<in> set (take i (pointers nb))
    then map_option (\<lambda>n. n\<lparr>parent := b\<rparr>) (nodes s x) else nodes s x\<rparr>"
  have "\<exists>s'. set_parents k b s = Some s' \<and> s' = ?S k"
    unfolding set_parents_def
  proof (rule for_up_rule)
    show "s = ?S 0" by simp
    fix i s' assume i: "0 \<le> i" "i < k" and s': "s' = ?S i"
    define q where "q = pointers nb ! i"
    have qs: "q \<in> set (take k (pointers nb))" using i k by (auto simp: q_def in_set_conv_nth)
    with q [OF qs] obtain n where n: "q \<noteq> 0" "q \<noteq> b" "nodes s q = Some n" by auto
    have "b \<notin> set (take i (pointers nb))"
      using q [of b] set_take_subset_set_take [of i k "pointers nb"] i by auto
    then have "get_ptr s' b i = Some q"
      using b i k by (simp add: get_ptr_def get_node_def s' q_def)
    moreover have "set (take (Suc i) (pointers nb)) = insert q (set (take i (pointers nb)))"
      using i k by (simp add: take_Suc_conv_app_nth q_def)
    ultimately show "\<exists>s''. (get_ptr s' b i \<bind> (\<lambda>child. mod_node (put_parent b) child s')) = Some s'' \<and> s'' = ?S (Suc i)"
      using n by (auto simp: mod_node_def get_node_def put_parent_def s' fun_eq_iff)
  qed simp
  then show ?thesis by simp
qed

lemma split_node_left:
  assumes n: "node_at od p False ks ps n" and od: "3 \<le> od"
    and tk: "take od tk = KS" "length KS = od" and tp: "tp = PS" "length PS = od + 1"
  defines "c \<equiv> cut od"
  shows "\<exists>n2. do {
       n \<leftarrow> fill_node 0 (c - 1) tk tp (n\<lparr>num_keys := 0\<rparr>);
       p \<leftarrow> aget tp (c - 1);
       put_ptr (c - 1) p n } = Some n2 \<and> node_at od p False (take (c - 1) KS) (take c PS) n2"
proof -
  have f: "length (keys n) = od - 1" "length (pointers n) = od" "\<not> is_leaf n" "parent n = p"
    using n by (auto simp: node_at_def)
  have c: "2 \<le> c" "c < od" using od by (auto simp: c_def cut_eq)
  have tks: "take (c - 1) tk = take (c - 1) KS" "c - 1 \<le> length tk"
    using tk c by (auto simp flip: tk(1) simp: min_def split: if_splits)
  let ?n1 = "n\<lparr>keys := take (c - 1) KS @ drop (c - 1) (keys n), pointers := take (c - 1) PS @ drop (c - 1) (pointers n), num_keys := c - 1\<rparr>"
  have fill: "fill_node 0 (c - 1) tk tp (n\<lparr>num_keys := 0\<rparr>) = Some ?n1"
    using c f tks tp by (subst fill_node_ok) auto
  have "take c ((take (c - 1) PS @ drop (c - 1) (pointers n))[c - 1 := PS ! (c - 1)]) = take c PS"
    using c tp f by (intro nth_equalityI) (auto simp: nth_append nth_list_update)
  then show ?thesis unfolding fill using c f tk(2) tp by (auto simp: node_at_def)
qed

lemma split_node_right:
  assumes od: "3 \<le> od" and tk: "take od tk = KS" "length KS = od" and tp: "tp = PS" "length PS = od + 1"
  defines "c \<equiv> cut od"
  shows "\<exists>n2. do {
       n \<leftarrow> fill_node c od tk tp (new_node od False);
       p \<leftarrow> aget tp od;
       put_ptr (od - c) p n } = Some n2 \<and> node_at od p False (drop c KS) (drop c PS) (n2\<lparr>parent := p\<rparr>)"
proof -
  have c: "2 \<le> c" "c < od" using od by (auto simp: c_def cut_eq)
  have tks: "od \<le> length tk" using tk by (auto simp: min_def split: if_splits)
  let ?n1 = "(new_node od False)\<lparr>keys := drop c KS @ replicate (c - 1) 0,
    pointers := drop c (take od PS) @ replicate c 0, num_keys := od - c\<rparr>"
  have fill: "fill_node c od tk tp (new_node od False) = Some ?n1"
    using c tks tk(1) tp by (subst fill_node_ok) (auto simp: new_node_def)
  have "take (Suc (od - c)) ((drop c (take od PS) @ replicate c 0)[od - c := PS ! od]) = drop c PS"
    using c tp by (intro nth_equalityI) (auto simp: nth_append nth_list_update less_Suc_eq)
  then show ?thesis unfolding fill using c tk(2) tp by (auto simp: node_at_def new_node_def Suc_diff_le)
qed

theorem split_node_ok:
  fixes key :: u64 and right :: addr
  assumes os: "good_os os" and od: "3 \<le> od" and U: "node_slab.ok s U" "a \<in> U"
    and n: "nodes s a = Some n" "node_at od p False ks ps n" and full: "length ks = od - 1" and li: "li \<le> length ks"
  defines "KS \<equiv> ins_at li key ks" and "PS \<equiv> ins_at (Suc li) right ps" and "c \<equiv> cut od"
  assumes kids: "\<And>q. q \<in> set PS \<Longrightarrow> q \<in> U - {a}"
  obtains b s' na nb where "split_node os od a li key right s = Some (KS ! (c - 1), b, s')" "b \<noteq> 0" "b \<notin> U"
    "node_slab.ok s' (insert b U)" "keeps s s'" "nodes s' a = Some na" "nodes s' b = Some nb"
    "\<And>x. x \<in> U - {a} \<Longrightarrow> nodes s' x =
       (if x \<in> set (drop c PS) then map_option (\<lambda>n. n\<lparr>parent := b\<rparr>) (nodes s x) else nodes s x)"
    "node_at od p False (take (c - 1) KS) (take c PS) na" "node_at od p False (drop c KS) (drop c PS) nb"
proof -
  let ?st = "\<lambda>s. s\<lparr>allocator_stat := allocator_stat s + word_of_nat ((od + 1) * 8) + word_of_nat (od * 8), aligned := Suc (Suc (aligned s))\<rparr>"
  have U': "node_slab.ok (?st s) U" using U(1) by (simp add: node_slab.ok_def)
  have st: "nodes (?st s) = nodes s" "keeps (?st s) s' = keeps s s'" for s' by simp_all
  obtain b s1 where s1: "make_node os od (?st s) = Some (b, s1)" "b \<noteq> 0" "b \<notin> U" "node_slab.ok s1 (insert b U)"
    "nodes s1 b = Some (new_node od False)" "\<And>x. x \<in> U \<Longrightarrow> nodes s1 x = nodes s x" "keeps s s1"
    using make_node_fresh [OF os U', of od] unfolding st by metis
  have a: "a \<noteq> 0" "a \<noteq> b" "nodes s1 a = Some n" "nodes s a = Some n" using U node_okD s1 n by auto
  have f: "length (keys n) = od - 1" "length (pointers n) = od" "num_keys n = od - 1" "take (od - 1) (keys n) = ks"
    "take od (pointers n) = ps" "length ps = od"
  proof -
    from n(2) have "length (keys n) = od - 1 \<and> length (pointers n) = od \<and> num_keys n = length ks \<and>
        length ps = Suc (length ks) \<and> take (length ks) (keys n) = ks \<and> take (length ps) (pointers n) = ps"
      unfolding node_at_def if_False by blast
    moreover have "Suc (length ks) = od" using full od by simp
    ultimately show "length (keys n) = od - 1" "length (pointers n) = od" "num_keys n = od - 1" "take (od - 1) (keys n) = ks"
      "take od (pointers n) = ps" "length ps = od"
      using full by metis+
  qed
  have od': "Suc (od - 1) = od" using od by simp
  have li': "li \<le> od - 1" "Suc li \<le> od" using li full od by auto
  obtain tk0 where tk0: "spread (od - 1) li (keys n) (replicate od 0) = Some tk0" "length tk0 = od"
    "take od (tk0[li := key]) = KS"
    using spread_ok [of "od - 1" "keys n" li "replicate od 0" key, OF _ li'(1)] od
    unfolding od' f(1,4) KS_def length_replicate by auto
  obtain tp0 where tp0: "spread od (Suc li) (pointers n) (replicate (od + 1) 0) = Some tp0" "length tp0 = od + 1"
    "take (Suc od) (tp0[Suc li := right]) = PS"
    using spread_ok [of od "pointers n" "Suc li" "replicate (od + 1) 0" right, OF _ li'(2)]
    unfolding f(2,5) PS_def length_replicate by auto
  let ?tk = "tk0[li := key]" and ?tp = "tp0[Suc li := right]"
  have len: "length KS = od" "length PS = od + 1" using full f od by (simp_all add: KS_def PS_def)
  have tp: "?tp = PS" using tp0 by simp
  obtain na where na: "do {
       n \<leftarrow> fill_node 0 (c - 1) ?tk ?tp (n\<lparr>num_keys := 0\<rparr>);
       p \<leftarrow> aget ?tp (c - 1);
       put_ptr (c - 1) p n } = Some na" "node_at od p False (take (c - 1) KS) (take c PS) na"
    using split_node_left [OF n(2) od tk0(3) len(1) tp len(2)] unfolding c_def by blast
  obtain nb where nb: "do {
       n \<leftarrow> fill_node c od ?tk ?tp (new_node od False);
       p \<leftarrow> aget ?tp od;
       put_ptr (od - c) p n } = Some nb" "node_at od p False (drop c KS) (drop c PS) (nb\<lparr>parent := p\<rparr>)"
    using split_node_right [OF od tk0(3) len(1) tp len(2), of p] unfolding c_def by blast
  obtain na1 qa where na1: "fill_node 0 (c - 1) ?tk ?tp (n\<lparr>num_keys := 0\<rparr>) = Some na1" "aget ?tp (c - 1) = Some qa"
    "put_ptr (c - 1) qa na1 = Some na" using na(1) unfolding bind_eq_Some_conv by blast
  obtain nb1 qb where nb1: "fill_node c od ?tk ?tp (new_node od False) = Some nb1" "aget ?tp od = Some qb"
    "put_ptr (od - c) qb nb1 = Some nb" using nb(1) unfolding bind_eq_Some_conv by blast
  have c: "c - 1 < od" "0 < c" "c < od" using od by (auto simp: c_def cut_eq)
  have pa: "parent na = p" using na(2) by (simp add: node_at_def)
  define s2 where "s2 = s1\<lparr>nodes := (nodes s1)(a \<mapsto> na, b \<mapsto> nb\<lparr>parent := p\<rparr>)\<rparr>"
  define R where "R = set (drop c PS)"
  have nbp: "num_keys nb + 1 \<le> length (pointers nb)" "set (take (num_keys nb + 1) (pointers nb)) = R"
    using nb(2) len c by (auto simp: node_at_def R_def Suc_diff_le)
  have R: "q \<in> R \<Longrightarrow> q \<in> U - {a}" for q using kids [of q] set_drop_subset [of c PS] by (auto simp: R_def)
  define s3 where "s3 = s2\<lparr>nodes := \<lambda>x. if x \<in> R then map_option (\<lambda>n. n\<lparr>parent := b\<rparr>) (nodes s2 x) else nodes s2 x\<rparr>"
  have "set_parents (num_keys nb + 1) b s2 = Some s3"
  proof (subst set_parents_ok [where nb = "nb\<lparr>parent := p\<rparr>"])
    show "q \<noteq> 0 \<and> q \<in> dom (nodes s2) \<and> q \<noteq> b" if "q \<in> set (take (num_keys nb + 1) (pointers (nb\<lparr>parent := p\<rparr>)))" for q
      using that R [of q] node_okD [OF s1(4), of q] s1(3) nbp(2) by (auto simp: s2_def)
  qed (use nbp s1(2) in \<open>auto simp: s2_def s3_def\<close>)
  moreover have "nodes s2 b = Some (nb\<lparr>parent := p\<rparr>)" by (simp add: s2_def)
  ultimately have "split_node os od a li key right s = Some (KS ! (c - 1), b, s3)"
    using a s1(1,2,5) os f(3) li' tk0 tp0(1,2) na1 nb1 pa c od len(1)
    by (simp add: split_node_def mod_node_def get_node_def put_parent_def c_def [symmetric] s2_def [symmetric]
        cong: bind_weak_cong)
  moreover have "node_slab.ok s2 (insert b U)"
    using node_ok_update [OF node_ok_update [OF s1(4), of a na], of b "nb\<lparr>parent := p\<rparr>"] U(2) by (simp add: s2_def)
  then have "node_slab.ok s3 (insert b U)"
    unfolding s3_def by (rule node_ok_frame) (use R in \<open>auto split: if_splits\<close>)
  moreover have "keeps s s3" using s1(7) by (simp add: s3_def s2_def)
  moreover have "nodes s3 a = Some na" "nodes s3 b = Some (nb\<lparr>parent := p\<rparr>)" using R s1(3) a by (auto simp: s3_def s2_def)
  moreover have "nodes s3 x = (if x \<in> R then map_option (\<lambda>n. n\<lparr>parent := b\<rparr>) (nodes s x) else nodes s x)" if "x \<in> U - {a}" for x
    using that s1(3,6) by (auto simp: s3_def s2_def)
  ultimately show ?thesis
    using s1(2,3) na(2) nb(2) by (intro that [of b s3 na "nb\<lparr>parent := p\<rparr>"]) (auto simp: R_def)
qed

end
