(* ===== verification/BtreeInsert.thy ===== *)
theory BtreeInsert
  imports BtreeSplit
begin

text \<open>
  Insertion. After a split the code walks up the parent pointers with a pair of siblings and the
  key between them; \<open>siblings\<close> is the invariant of that walk, and \<open>insert_into_parent_ok\<close> shows that
  it ends with a well-formed tree whose entries are those of the pair in its context. The refinement
  theorems for \<open>insert\<close> and \<open>insert_unique\<close> follow.
\<close>

section \<open>One node\<close>

lemma get_left_index_ok:
  assumes "nodes s a = Some n" "a \<noteq> 0" "node_at od p False ks (ps1 @ x # ps2) n" "x \<notin> set ps1"
  shows "get_left_index s a x = Some (length ps1)"
proof -
  have f: "num_keys n = length ks" "length (pointers n) = od" "length ks < od" "length (ps1 @ x # ps2) = Suc (length ks)"
    "take (Suc (length ks)) (pointers n) = ps1 @ x # ps2"
    using assms(3) unfolding node_at_def if_False by metis+
  have "takeWhile (\<lambda>p. p \<noteq> x) (ps1 @ x # ps2) = ps1" using assms(4) by (induction ps1) auto
  then have "scan 0 (Suc (length ks)) (\<lambda>i. do { p \<leftarrow> aget (pointers n) i; Some (p \<noteq> x) }) = Some (length ps1)"
    using f by (subst scan_takeWhile) (auto simp: f(5))
  then show ?thesis using assms(1,2) f(1) by (simp add: get_left_index_def get_node_def)
qed

lemma insert_into_node_ok:
  assumes n: "nodes s a = Some n" "a \<noteq> 0" "node_at od p False ks ps n" and room: "length ks < od - 1" and li: "li \<le> length ks"
  shows "\<exists>n'. insert_into_node root a li key right s = Some (root, s\<lparr>nodes := (nodes s)(a \<mapsto> n')\<rparr>) \<and>
    node_at od p False (ins_at li key ks) (ins_at (Suc li) right ps) n'"
proof -
  have f: "num_keys n = length ks" "length (keys n) = od - 1" "length (pointers n) = od" "length ps = Suc (length ks)"
    "take (length ks) (keys n) = ks" "take (Suc (length ks)) (pointers n) = ps" "\<not> is_leaf n" "parent n = p"
    using n(3) unfolding node_at_def if_False by metis+
  let ?k = "length ks"
  let ?N = "\<lambda>i. n\<lparr>pointers := shiftr (Suc i) (Suc ?k) (pointers n), keys := shiftr i ?k (keys n)\<rparr>"
  have "\<exists>n'. for_down ?k li (\<lambda>i n. do {
         p \<leftarrow> aget (pointers n) i;
         n \<leftarrow> put_ptr (i + 1) p n;
         k \<leftarrow> aget (keys n) (i - 1);
         put_key i k n }) n = Some n' \<and> n' = ?N li"
  proof (rule for_down_rule)
    show "n = ?N ?k" by (simp add: shiftr_self)
    fix i s assume i: "li < i" "i \<le> ?k" and s: "s = ?N i"
    have "shiftr (Suc i) (Suc ?k) (pointers n) ! i = pointers n ! i" "shiftr i ?k (keys n) ! (i - 1) = keys n ! (i - 1)"
      "(shiftr (Suc i) (Suc ?k) (pointers n))[Suc i := pointers n ! i] = shiftr (Suc (i - 1)) (Suc ?k) (pointers n)"
      "(shiftr i ?k (keys n))[i := keys n ! (i - 1)] = shiftr (i - 1) ?k (keys n)"
      using i f room nth_shiftr_pred [of "Suc i" "pointers n" "Suc ?k"] nth_shiftr_pred [of i "keys n" ?k]
        shiftr_step [of "Suc i" "Suc ?k" "pointers n"] shiftr_step [of i ?k "keys n"] by auto
    then show "\<exists>s'. do {
         p \<leftarrow> aget (pointers s) i;
         n \<leftarrow> put_ptr (i + 1) p s;
         k \<leftarrow> aget (keys n) (i - 1);
         put_key i k n } = Some s' \<and> s' = ?N (i - 1)"
      using i f(2,3) room by (simp add: s)
  qed (use li in simp)
  then have loop: "for_down ?k li (\<lambda>i n. do {
         p \<leftarrow> aget (pointers n) i;
         n \<leftarrow> put_ptr (i + 1) p n;
         k \<leftarrow> aget (keys n) (i - 1);
         put_key i k n }) n = Some (?N li)" by blast
  let ?n = "n\<lparr>pointers := (shiftr (Suc li) (Suc ?k) (pointers n))[Suc li := right], keys := (shiftr li ?k (keys n))[li := key], num_keys := Suc ?k\<rparr>"
  have "insert_into_node root a li key right s = Some (root, s\<lparr>nodes := (nodes s)(a \<mapsto> ?n)\<rparr>)"
    using n(1,2) f(1,2,3) li room loop by (simp add: insert_into_node_def mod_node_def get_node_def cong: bind_weak_cong)
  moreover have "node_at od p False (ins_at li key ks) (ins_at (Suc li) right ps) ?n"
    using f room li take_shiftr [of li ?k "keys n" key] take_shiftr [of "Suc li" "Suc ?k" "pointers n" right]
    by (simp add: node_at_def)
  ultimately show ?thesis by blast
qed

lemma hrep_reparent:
  assumes "hrep od m p t" "distinct (addrs t)" "m' (root_of t) = map_option (\<lambda>n. n\<lparr>parent := q\<rparr>) (m (root_of t))"
    and "\<And>x. x \<in> set (addrs t) \<Longrightarrow> x \<noteq> root_of t \<Longrightarrow> m' x = m x"
  shows "hrep od m' q t"
proof -
  from hrep_root [OF assms(1)] obtain n where n: "m (root_of t) = Some n" by auto
  have "hrep od m' q t = hrep od (m(root_of t \<mapsto> n\<lparr>parent := q\<rparr>)) q t"
    using assms(3,4) n by (intro hrep_cong) auto
  with hrep_set_parent [OF assms(1,2) n] show ?thesis by simp
qed

section \<open>The walk up\<close>

lemma cleaves_in_caddrs: "set (cleft leaves C) \<union> set (cright leaves C) \<subseteq> set (caddrs C)"
  using leaves_in_addrs by (induction C rule: sized.induct) fastforce+

definition siblings :: "nat \<Rightarrow> mem \<Rightarrow> bt \<Rightarrow> u64 \<Rightarrow> bt \<Rightarrow> ctx \<Rightarrow> nat \<Rightarrow> bool" where
  "siblings od s l k r C h \<longleftrightarrow>
     hrep od (nodes s) (par C) l \<and> hrep od (nodes s) (par C) r \<and> crep od (nodes s) (root_of l) C \<and>
     distinct (addrs l @ addrs r @ caddrs C) \<and>
     bal od h l \<and> bal od h r \<and> cbal od h C \<and>
     ordered (clo 0 C) (unat k) l \<and> ordered (unat k) (chi (2 ^ 64) C) r \<and>
     clo 0 C \<le> unat k \<and> unat k \<le> chi (2 ^ 64) C \<and> cord 0 (2 ^ 64) C \<and>
     node_slab.ok s (set (addrs l @ addrs r @ caddrs C)) \<and>
     linked od (nodes s) (cleft leaves C @ leaves l @ leaves r @ cright leaves C) 0"

lemma new_root_ok:
  assumes os: "good_os os" and od: "3 \<le> od" and sib: "siblings od s l k r [] h"
  shows "\<exists>s' t. insert_into_new_root os od (root_of l) k (root_of r) s = Some (root_of t, s') \<and> tree_ok od s' t \<and>
    entries t = entries l @ entries r \<and> keeps s s'"
proof -
  let ?U = "set (addrs l @ addrs r)"
  from sib have h: "hrep od (nodes s) 0 l" "hrep od (nodes s) 0 r" and d: "distinct (addrs l @ addrs r)"
    and ok: "node_slab.ok s ?U" and lk: "linked od (nodes s) (leaves l @ leaves r) 0"
    and ord: "ordered 0 (unat k) l" "ordered (unat k) (2 ^ 64) r" "unat k \<le> 2 ^ 64" and b: "bal od h l" "bal od h r"
    by (auto simp: siblings_def)
  obtain a s1 where s1: "make_node os od s = Some (a, s1)" "a \<noteq> 0" "a \<notin> ?U" "node_slab.ok s1 (insert a ?U)"
    "nodes s1 a = Some (new_node od False)" "\<And>x. x \<in> ?U \<Longrightarrow> nodes s1 x = nodes s x" "keeps s s1"
    using make_node_fresh [OF os ok, of od] by metis
  obtain nl where nl: "nodes s (root_of l) = Some nl" "root_of l \<noteq> 0" using hrep_root [OF h(1)] by auto
  obtain nr where nr: "nodes s (root_of r) = Some nr" "root_of r \<noteq> 0" using hrep_root [OF h(2)] by auto
  have mem: "root_of l \<in> set (addrs l)" "root_of r \<in> set (addrs r)" by simp_all
  with d s1(3) have ne: "root_of l \<noteq> root_of r" "root_of l \<noteq> a" "root_of r \<noteq> a"
    "root_of l \<notin> set (addrs r)" "root_of r \<notin> set (addrs l)"
    by (auto simp del: root_of_in_addrs)
  define na where "na = (new_node od False)\<lparr>keys := (replicate (od - 1) 0)[0 := k],
     pointers := (replicate od 0)[0 := root_of l, 1 := root_of r], num_keys := 1\<rparr>"
  define s2 where "s2 = s1\<lparr>nodes := (nodes s1)(a \<mapsto> na, root_of l \<mapsto> nl\<lparr>parent := a\<rparr>, root_of r \<mapsto> nr\<lparr>parent := a\<rparr>)\<rparr>"
  have run: "insert_into_new_root os od (root_of l) k (root_of r) s = Some (a, s2)"
    using s1(1,2,5) s1(6) [of "root_of l"] s1(6) [of "root_of r"] mem nl nr ne od
    by (simp add: insert_into_new_root_def mod_node_def get_node_def put_parent_def s2_def na_def new_node_def
        cong: bind_weak_cong)
  have na: "node_at od 0 False [k] [root_of l, root_of r] na"
    using od by (cases od; cases "od - 1") (auto simp: node_at_def na_def new_node_def)
  have "hrep od (nodes s2) a l"
    by (rule hrep_reparent [OF h(1)]) (use d mem nl ne s1 in \<open>auto simp: s2_def\<close>)
  moreover have "hrep od (nodes s2) a r"
    by (rule hrep_reparent [OF h(2)]) (use d mem nr ne s1 in \<open>auto simp: s2_def\<close>)
  moreover have "nodes s2 a = Some na" using ne by (simp add: s2_def)
  ultimately have "hrep od (nodes s2) 0 (Nd a [k] [l, r])" using na s1(2) by simp
  moreover have "linked od (nodes s2) (leaves l @ leaves r) 0"
    using lk
  proof (rule iffD1 [OF linked_cong, rotated])
    fix x assume "x \<in> set (leaves l @ leaves r)"
    then have "x \<in> ?U" using leaves_in_addrs by auto
    then show "map_option pointers (nodes s x) = map_option pointers (nodes s2 x)"
      using s1(3) s1(6) [of x] nl nr by (auto simp: s2_def)
  qed
  moreover have "node_slab.ok s2 (insert a ?U)"
    using s1(4) mem by (auto simp: s2_def intro!: node_ok_update [of "s\<lparr>nodes := m\<rparr>" for s m, simplified] node_ok_update)
  moreover have "rbal od (Suc h) (Nd a [k] [l, r])" using b by simp
  ultimately have "tree_ok od s2 (Nd a [k] [l, r])"
    using d s1(3) ord by (auto simp: tree_ok_def insert_commute simp del: hrep.simps)
  with run s1(7) show ?thesis by (intro exI [of _ s2] exI [of _ "Nd a [k] [l, r]"]) (simp add: s2_def)
qed

lemma distinct_roots:
  assumes "distinct (concat (map addrs ts))" "t \<in> set ts" "x \<in> set (addrs t)" "x \<noteq> root_of t"
  shows "x \<notin> root_of ` set ts"
proof
  assume "x \<in> root_of ` set ts"
  then obtain t' where t': "t' \<in> set ts" "x = root_of t'" by auto
  have hd_addrs: "hd (addrs t) = root_of t" for t by (cases t) auto
  have "addrs t \<noteq> addrs t'" using t'(2) assms(4) hd_addrs by metis
  then have "set (addrs t) \<inter> set (addrs t') = {}"
    using assms(1,2) t'(1) unfolding distinct_concat_iff by auto
  moreover have "x \<in> set (addrs t')" using t'(2) by simp
  ultimately show False using assms(3) by blast
qed

text \<open>
  The parent \<open>a\<close> of the pair with the pair among its children: everything but the contents of the node
  \<open>a\<close> itself.
\<close>

definition family :: "nat \<Rightarrow> mem \<Rightarrow> addr \<Rightarrow> u64 list \<Rightarrow> bt list \<Rightarrow> ctx \<Rightarrow> nat \<Rightarrow> bool" where
  "family od s a KS TS C h \<longleftrightarrow> a \<noteq> 0 \<and> length TS = Suc (length KS) \<and>
     (\<forall>t\<in>set TS. hrep od (nodes s) a t \<and> bal od h t) \<and> crep od (nodes s) a C \<and> cbal od (Suc h) C \<and>
     distinct (a # concat (map addrs TS) @ caddrs C) \<and>
     node_slab.ok s (set (a # concat (map addrs TS) @ caddrs C)) \<and>
     ord_l (clo 0 C) (chi (2 ^ 64) C) KS TS \<and> cord 0 (2 ^ 64) C \<and>
     linked od (nodes s) (cleft leaves C @ concat (map leaves TS) @ cright leaves C) 0"

lemma siblings_family:
  assumes "siblings od s l k r (Fr a ts1 ks1 ks2 ts2 # C) h"
  shows "family od s a (ks1 @ k # ks2) (ts1 @ l # r # ts2) C h"
proof -
  let ?TS = "ts1 @ l # r # ts2"
  have "mset (addrs l @ addrs r @ caddrs (Fr a ts1 ks1 ks2 ts2 # C)) = mset (a # concat (map addrs ?TS) @ caddrs C)"
    by simp
  then have "distinct (a # concat (map addrs ?TS) @ caddrs C)"
    "node_slab.ok s (set (a # concat (map addrs ?TS) @ caddrs C))"
    using assms mset_eq_imp_distinct_iff mset_eq_setD unfolding siblings_def by metis+
  moreover have "length ks1 = length ts1" using assms by (simp add: siblings_def)
  moreover from this have "ord_l (clo 0 C) (chi (2 ^ 64) C) (ks1 @ k # ks2) ?TS"
    using assms ordered_hole2 [of ks1 ts1 "clo 0 C" "chi (2 ^ 64) C" a k ks2 l r ts2] by (simp add: siblings_def)
  moreover from this have "length ?TS = Suc (length (ks1 @ k # ks2))" by (rule ord_l_length)
  ultimately show ?thesis using assms by (auto simp: siblings_def family_def)
qed

lemma family_tree:
  assumes fam: "family od s a KS TS C h" and n: "node_at od (par C) False KS (map root_of TS) n"
    and two: "(if C = [] then 2 else cut od) \<le> length TS"
  shows "tree_ok od (s\<lparr>nodes := (nodes s)(a \<mapsto> n)\<rparr>) (plug (Nd a KS TS) C)"
proof -
  let ?m = "(nodes s)(a \<mapsto> n)"
  from fam have d: "distinct (a # concat (map addrs TS) @ caddrs C)" and ok: "node_slab.ok s (set (a # concat (map addrs TS) @ caddrs C))"
    and cr: "crep od (nodes s) a C" by (auto simp: family_def)
  have sz: "sized C" using cr by (rule crep_sized)
  have "hrep od ?m a t" if "t \<in> set TS" for t
    using fam d that by (subst hrep_cong [where m' = "nodes s"]) (auto simp: family_def)
  moreover have "crep od ?m a C" using cr d by (subst crep_cong [where m' = "nodes s"]) auto
  ultimately have "hrep od ?m 0 (plug (Nd a KS TS) C)"
    using fam n by (simp add: plug_hrep [OF sz] family_def)
  moreover have "ordered 0 (2 ^ 64) (plug (Nd a KS TS) C)"
    using fam by (simp add: plug_ordered [OF sz] family_def)
  moreover have "\<exists>h. rbal od h (plug (Nd a KS TS) C)"
  proof (cases "C = []")
    case True
    then show ?thesis using fam two by (auto simp: family_def intro!: exI [of _ "Suc h"])
  next
    case False
    then show ?thesis
      using fam two by (subst plug_rbal_ne) (auto simp: family_def intro!: exI [of _ "Suc h"])
  qed
  moreover have "linked od ?m (leaves (plug (Nd a KS TS) C)) 0"
  proof -
    have "a \<notin> set (cleft leaves C @ concat (map leaves TS) @ cright leaves C)"
      using d cleaves_in_caddrs [of C] leaves_in_addrs by fastforce
    then show ?thesis
      using fam unfolding plug_leaves leaves.simps family_def
      by (subst linked_cong [where m' = "nodes s"]) auto
  qed
  moreover have "node_slab.ok (s\<lparr>nodes := ?m\<rparr>) (set (addrs (plug (Nd a KS TS) C)))"
    using node_ok_update [OF ok, of a n] by (simp add: plug_addrs_set)
  ultimately show ?thesis using d by (simp add: tree_ok_def plug_addrs_distinct)
qed

lemma family_split:
  assumes fam: "family od s a KS TS C h" and od: "3 \<le> od" and full: "length KS = od" and c: "c = cut od"
    and b: "b \<noteq> 0" "b \<notin> set (a # concat (map addrs TS) @ caddrs C)"
    and ok: "node_slab.ok s' (insert b (set (a # concat (map addrs TS) @ caddrs C)))"
    and na: "nodes s' a = Some na" "node_at od (par C) False (take (c - 1) KS) (take c (map root_of TS)) na"
    and nb: "nodes s' b = Some nb" "node_at od (par C) False (drop c KS) (drop c (map root_of TS)) nb"
    and rest: "\<And>x. x \<in> set (concat (map addrs TS) @ caddrs C) \<Longrightarrow> nodes s' x =
       (if x \<in> set (drop c (map root_of TS)) then map_option (\<lambda>n. n\<lparr>parent := b\<rparr>) (nodes s x) else nodes s x)"
  shows "siblings od s' (Nd a (take (c - 1) KS) (take c TS)) (KS ! (c - 1)) (Nd b (drop c KS) (drop c TS)) C (Suc h)"
proof -
  define L R where "L = take c TS" and "R = drop c TS"
  have c': "2 \<le> c" "c < od" "c \<le> Suc od - c" using od by (auto simp: c cut_eq)
  have TS: "TS = L @ R" "length TS = Suc od" using fam full by (auto simp: L_def R_def family_def)
  from fam have d: "distinct (a # concat (map addrs L) @ concat (map addrs R) @ caddrs C)"
    by (simp add: family_def TS(1))
  have roots: "drop c (map root_of TS) = map root_of R" "take c (map root_of TS) = map root_of L"
    by (simp_all add: R_def L_def drop_map take_map)
  have inR: "x \<in> set (map root_of R) \<Longrightarrow> x \<in> set (concat (map addrs R))" for x
    unfolding set_map set_concat using root_of_in_addrs by blast
  have rest': "nodes s' x = (if x \<in> set (map root_of R) then map_option (\<lambda>n. n\<lparr>parent := b\<rparr>) (nodes s x) else nodes s x)"
    if "x \<in> set (concat (map addrs L)) \<union> set (concat (map addrs R)) \<union> set (caddrs C)" for x
  proof -
    have "x \<in> set (concat (map addrs TS) @ caddrs C)" using that by (auto simp: TS(1))
    from rest [OF this] show ?thesis unfolding roots(1) .
  qed
  have kids: "hrep od (nodes s) a t" "bal od h t" if "t \<in> set L \<union> set R" for t
    using fam that by (auto simp: family_def TS(1))
  have hL: "hrep od (nodes s') a t" if t: "t \<in> set L" for t
  proof -
    have "nodes s' x = nodes s x" if x: "x \<in> set (addrs t)" for x
    proof -
      have xL: "x \<in> set (concat (map addrs L))" using x t by auto
      then have "x \<notin> set (concat (map addrs R))" using d by auto
      then have "x \<notin> set (map root_of R)" using inR by blast
      then show ?thesis using rest' [of x] xL by auto
    qed
    then show ?thesis using kids(1) [of t] t hrep_cong by blast
  qed
  have hR: "hrep od (nodes s') b t" if t: "t \<in> set R" for t
  proof -
    have dt: "distinct (addrs t)" using d t by (auto simp: distinct_concat_iff)
    have "nodes s' (root_of t) = map_option (\<lambda>n. n\<lparr>parent := b\<rparr>) (nodes s (root_of t))"
      using rest' [of "root_of t"] inR [of "root_of t"] t by auto
    moreover have "nodes s' x = nodes s x" if x: "x \<in> set (addrs t)" "x \<noteq> root_of t" for x
    proof -
      have "x \<notin> set (map root_of R)"
        using distinct_roots [of R t x] d t x by auto
      moreover have "x \<in> set (concat (map addrs R))" using x t by auto
      ultimately show ?thesis using rest' [of x] by auto
    qed
    ultimately show ?thesis using hrep_reparent [OF kids(1) [of t] dt] t by blast
  qed
  have same: "nodes s' x = nodes s x" if "x \<in> set (caddrs C)" for x
    using rest' [of x] d that inR [of x] by auto
  have "crep od (nodes s') a C" using fam same crep_cong [of C "nodes s" "nodes s'"] by (auto simp: family_def)
  moreover have "distinct (addrs (Nd a (take (c - 1) KS) L) @ addrs (Nd b (drop c KS) R) @ caddrs C)"
    using d b(2) by (auto simp: TS(1))
  moreover have "set (addrs (Nd a (take (c - 1) KS) L) @ addrs (Nd b (drop c KS) R) @ caddrs C) =
      insert b (set (a # concat (map addrs TS) @ caddrs C))"
    by (auto simp: TS(1))
  moreover have "bal od (Suc h) (Nd a (take (c - 1) KS) L)" "bal od (Suc h) (Nd b (drop c KS) R)"
    using kids(2) c' TS(2) by (auto simp: c L_def R_def)
  moreover have "linked od (nodes s') (cleft leaves C @ concat (map leaves TS) @ cright leaves C) 0"
  proof -
    have "x \<in> set (concat (map addrs TS) @ caddrs C)" if "x \<in> set (cleft leaves C @ concat (map leaves TS) @ cright leaves C)" for x
      using that cleaves_in_caddrs [of C] leaves_in_addrs by fastforce
    then have "map_option pointers (nodes s x) = map_option pointers (nodes s' x)"
      if "x \<in> set (cleft leaves C @ concat (map leaves TS) @ cright leaves C)" for x
      using that rest [of x] by (auto simp: option.map_comp comp_def)
    then show ?thesis using fam linked_cong unfolding family_def by blast
  qed
  moreover have "ord_l (clo 0 C) (unat (KS ! (c - 1))) (take (c - 1) KS) L \<and> ord_l (unat (KS ! (c - 1))) (chi (2 ^ 64) C) (drop c KS) R \<and>
      clo 0 C \<le> unat (KS ! (c - 1)) \<and> unat (KS ! (c - 1)) \<le> chi (2 ^ 64) C"
    using ord_l_split [of "clo 0 C" "chi (2 ^ 64) C" KS TS "c - 1"] fam c' full by (auto simp: L_def R_def family_def)
  moreover have "hrep od (nodes s') (par C) (Nd a (take (c - 1) KS) L)"
    using fam hL na unfolding roots by (simp add: family_def)
  moreover have "hrep od (nodes s') (par C) (Nd b (drop c KS) R)"
    using hR nb b(1) unfolding roots by simp
  moreover have "cbal od (Suc h) C" "cord 0 (2 ^ 64) C" using fam by (simp_all add: family_def)
  moreover have "concat (map leaves TS) = leaves (Nd a (take (c - 1) KS) L) @ leaves (Nd b (drop c KS) R)"
    by (simp add: TS(1))
  ultimately show ?thesis
    using ok unfolding L_def [symmetric] R_def [symmetric]
    by (simp only: siblings_def ordered.simps root_of.simps append_assoc)
qed

theorem insert_into_parent_ok:
  assumes os: "good_os os" and od: "3 \<le> od"
  shows "siblings od s l k r C h \<Longrightarrow> root = top_of (root_of l) C \<Longrightarrow>
    \<exists>s' t. insert_into_parent os od root (root_of l) k (root_of r) s = Some (root_of t, s') \<and> tree_ok od s' t \<and>
      entries t = cleft entries C @ entries l @ entries r @ cright entries C \<and> keeps s s'"
proof (induction C arbitrary: s l k r h rule: sized.induct)
  case 1
  then have "insert_into_parent os od root (root_of l) k (root_of r) s = insert_into_new_root os od (root_of l) k (root_of r) s"
    using hrep_root [of od "nodes s" 0 l]
    by (subst insert_into_parent.simps) (auto simp: siblings_def get_node_def)
  with new_root_ok [OF os od 1(1)] show ?case by simp
next
  case (2 a ts1 ks1 ks2 ts2 C)
  let ?TS = "ts1 @ l # r # ts2" and ?KS = "ks1 @ k # ks2" and ?li = "length ts1"
  let ?ps = "map root_of ts1 @ root_of l # map root_of ts2"
  have fam: "family od s a ?KS ?TS C h" by (rule siblings_family [OF 2(2)])
  from 2(2) obtain n where n: "nodes s a = Some n" "a \<noteq> 0" "node_at od (par C) False (ks1 @ ks2) ?ps n" "length ks1 = ?li"
    by (auto simp: siblings_def)
  obtain nl where nl: "nodes s (root_of l) = Some nl" "root_of l \<noteq> 0" "parent nl = a"
    using hrep_root [of od "nodes s" a l] 2(2) by (auto simp: siblings_def)
  from fam have d: "distinct (a # concat (map addrs ?TS) @ caddrs C)" by (simp add: family_def)
  have nin: "root_of l \<notin> set (map root_of ts1)"
  proof
    assume "root_of l \<in> set (map root_of ts1)"
    then obtain t where "t \<in> set ts1" "root_of l = root_of t" by auto
    moreover have "root_of l \<in> set (addrs l)" "root_of t \<in> set (addrs t)" by simp_all
    ultimately show False using d by (auto simp del: root_of_in_addrs)
  qed
  have li: "get_left_index s a (root_of l) = Some ?li"
    using get_left_index_ok [OF n(1,2,3) nin] by simp
  have ins: "ins_at ?li k (ks1 @ ks2) = ?KS" "ins_at (Suc ?li) (root_of r) ?ps = map root_of ?TS"
    using n(4) by (simp_all add: ins_at_def)
  have nk: "num_keys n = length (ks1 @ ks2)" "length (ks1 @ ks2) < od" using n(3) by (auto simp: node_at_def)
  have ent: "cleft entries C @ concat (map entries ?TS) @ cright entries C =
      cleft entries (Fr a ts1 ks1 ks2 ts2 # C) @ entries l @ entries r @ cright entries (Fr a ts1 ks1 ks2 ts2 # C)"
    by simp
  show ?case
  proof (cases "length (ks1 @ ks2) < od - 1")
    case True
    have "?li \<le> length (ks1 @ ks2)" using n(4) by simp
    from insert_into_node_ok [OF n(1,2,3) True this, of root k "root_of r"] obtain n' where
      n': "insert_into_node root a ?li k (root_of r) s = Some (root, s\<lparr>nodes := (nodes s)(a \<mapsto> n')\<rparr>)"
      "node_at od (par C) False ?KS (map root_of ?TS) n'" unfolding ins by blast
    have "insert_into_parent os od root (root_of l) k (root_of r) s = Some (root, s\<lparr>nodes := (nodes s)(a \<mapsto> n')\<rparr>)"
      using nl n(1,2) li nk True n'(1) by (subst insert_into_parent.simps) (simp add: get_node_def cong: bind_weak_cong)
    moreover have "(if C = [] then 2 else cut od) \<le> length ?TS" using 2(2) by (auto simp: siblings_def split: if_splits)
    then have "tree_ok od (s\<lparr>nodes := (nodes s)(a \<mapsto> n')\<rparr>) (plug (Nd a ?KS ?TS) C)"
      by (rule family_tree [OF fam n'(2)])
    moreover have "root_of (plug (Nd a ?KS ?TS) C) = root" using 2(3) by (simp add: root_of_plug)
    moreover have "entries (plug (Nd a ?KS ?TS) C) = cleft entries C @ concat (map entries ?TS) @ cright entries C"
      by (simp add: plug_entries)
    ultimately show ?thesis unfolding ent [symmetric]
      by (intro exI [of _ "s\<lparr>nodes := (nodes s)(a \<mapsto> n')\<rparr>"] exI [of _ "plug (Nd a ?KS ?TS) C"]) simp
  next
    case False
    then have full: "length (ks1 @ ks2) = od - 1" "length ?KS = od" using nk(2) by auto
    let ?U = "set (a # concat (map addrs ?TS) @ caddrs C)" and ?c = "cut od"
    have U: "node_slab.ok s ?U" "a \<in> ?U" using fam by (simp_all add: family_def)
    have kids: "q \<in> ?U - {a}" if q: "q \<in> set (ins_at (Suc ?li) (root_of r) ?ps)" for q
    proof -
      from q obtain t where "t \<in> set ?TS" "q = root_of t" unfolding ins set_map by blast
      then have "q \<in> set (concat (map addrs ?TS))" unfolding set_concat set_map using root_of_in_addrs by blast
      then show ?thesis using d by auto
    qed
    have "?li \<le> length (ks1 @ ks2)" using n(4) by simp
    from split_node_ok [OF os od U n(1) n(3) full(1) this, of "root_of r" k] kids
    obtain b s1 na nb where s1: "split_node os od a ?li k (root_of r) s = Some (?KS ! (?c - 1), b, s1)"
      "b \<noteq> 0" "b \<notin> ?U" "node_slab.ok s1 (insert b ?U)" "keeps s s1" "nodes s1 a = Some na" "nodes s1 b = Some nb"
      "\<And>x. x \<in> ?U - {a} \<Longrightarrow> nodes s1 x =
         (if x \<in> set (drop ?c (map root_of ?TS)) then map_option (\<lambda>n. n\<lparr>parent := b\<rparr>) (nodes s x) else nodes s x)"
      "node_at od (par C) False (take (?c - 1) ?KS) (take ?c (map root_of ?TS)) na"
      "node_at od (par C) False (drop ?c ?KS) (drop ?c (map root_of ?TS)) nb"
      unfolding ins by metis
    have "siblings od s1 (Nd a (take (?c - 1) ?KS) (take ?c ?TS)) (?KS ! (?c - 1)) (Nd b (drop ?c ?KS) (drop ?c ?TS)) C (Suc h)"
    proof (rule family_split [OF fam od full(2) refl s1(2,3,4,6,9,7,10)])
      fix x assume "x \<in> set (concat (map addrs ?TS) @ caddrs C)"
      then have "x \<in> ?U - {a}" using d by auto
      then show "nodes s1 x = (if x \<in> set (drop ?c (map root_of ?TS))
          then map_option (\<lambda>n. n\<lparr>parent := b\<rparr>) (nodes s x) else nodes s x)" by (rule s1(8))
    qed
    from 2(1) [OF this] 2(3) obtain s' t where t: "insert_into_parent os od root a (?KS ! (?c - 1)) b s1 = Some (root_of t, s')"
      "tree_ok od s' t" "keeps s1 s'"
      "entries t = cleft entries C @ entries (Nd a (take (?c - 1) ?KS) (take ?c ?TS)) @
        entries (Nd b (drop ?c ?KS) (drop ?c ?TS)) @ cright entries C"
      unfolding root_of.simps top_of.simps by blast
    have "entries (Nd a (take (?c - 1) ?KS) (take ?c ?TS)) @ entries (Nd b (drop ?c ?KS) (drop ?c ?TS)) = concat (map entries ?TS)"
      unfolding entries.simps by (simp only: concat_append [symmetric] map_append [symmetric] append_take_drop_id)
    then have "entries t = cleft entries C @ concat (map entries ?TS) @ cright entries C"
      using t(4) by (metis append_assoc)
    moreover have "insert_into_parent os od root (root_of l) k (root_of r) s = Some (root_of t, s')"
      using nl n(1,2) li nk False s1(1) t(1)
      by (subst insert_into_parent.simps) (simp add: get_node_def cong: bind_weak_cong)
    ultimately show ?thesis unfolding ent [symmetric] using t(2,3) s1(5) keeps_trans by blast
  qed
qed

end
