(* ===== verification/BtreeRefine.thy ===== *)
theory BtreeRefine
  imports BtreeInsert
begin

text \<open>
  The refinement theorems of the B+ tree: \<open>find\<close> is the lookup in, and \<open>insert\<close> and \<open>insert_unique\<close> are
  the update of, a finite map from keys to records; both run without an error, keep the invariant
  of the tree and leave the other entries alone.
\<close>

section \<open>Sorted lists of entries\<close>

definition ins_entry :: "u64 \<Rightarrow> addr \<Rightarrow> (u64 \<times> addr) list \<Rightarrow> (u64 \<times> addr) list" where
  "ins_entry key r es = takeWhile (\<lambda>(k, _). k < key) es @ (key, r) # dropWhile (\<lambda>(k, _). k < key) es"

lemma ins_entry_context:
  assumes "\<forall>k\<in>fst ` set xs. k < key" "\<forall>k\<in>fst ` set zs. key < k"
  shows "ins_entry key r (xs @ ys @ zs) = xs @ ins_entry key r ys @ zs"
proof -
  have xs: "takeWhile (\<lambda>(k, _). k < key) (xs @ ws) = xs @ takeWhile (\<lambda>(k, _). k < key) ws"
    "dropWhile (\<lambda>(k, _). k < key) (xs @ ws) = dropWhile (\<lambda>(k, _). k < key) ws" for ws
    using assms(1) by (auto intro!: takeWhile_append2 dropWhile_append2)
  have zs: "takeWhile (\<lambda>(k, _). k < key) (ws @ zs) = takeWhile (\<lambda>(k, _). k < key) ws \<and>
    dropWhile (\<lambda>(k, _). k < key) (ws @ zs) = dropWhile (\<lambda>(k, _). k < key) ws @ zs" for ws
    using assms(2) by (induction ws) (cases zs, auto)
  show ?thesis unfolding ins_entry_def by (simp add: xs zs)
qed

lemma ins_entry_zip:
  assumes "length ks = length rs"
  shows "ins_entry key r (zip ks rs) = zip (ins_at (key_pos key ks) key ks) (ins_at (key_pos key ks) r rs)"
proof -
  have "takeWhile (\<lambda>(k, _). k < key) (zip ks rs) = zip (take (key_pos key ks) ks) (take (key_pos key ks) rs) \<and>
    dropWhile (\<lambda>(k, _). k < key) (zip ks rs) = zip (drop (key_pos key ks) ks) (drop (key_pos key ks) rs)"
    using assms by (induction ks rs rule: list_induct2) (auto simp: key_pos_def)
  then show ?thesis using assms key_pos_le [of key ks] by (simp add: ins_entry_def ins_at_def)
qed

lemma map_of_ins_entry:
  assumes "key \<notin> fst ` set es"
  shows "map_of (ins_entry key r es) = (map_of es)(key \<mapsto> r)"
proof -
  have *: "map_of (xs @ (key, r) # ys) = (map_of (xs @ ys))(key \<mapsto> r)" if "map_of xs key = None" for xs ys
    using that by (auto simp: map_add_def fun_eq_iff split: option.splits)
  have "key \<notin> fst ` set (takeWhile (\<lambda>(k, _). k < key) es)" using assms set_takeWhileD by fastforce
  then have "map_of (takeWhile (\<lambda>(k, _). k < key) es) key = None" by (simp add: map_of_eq_None_iff)
  from * [OF this] show ?thesis by (simp only: ins_entry_def takeWhile_dropWhile_id)
qed

lemma set_ins_entry: "set (ins_entry key r es) = insert (key, r) (set es)"
  unfolding ins_entry_def set_append list.set
  by (metis (lifting) Un_insert_right set_append takeWhile_dropWhile_id)

lemma mset_ins_entry: "mset (ins_entry key r es) = add_mset (key, r) (mset es)"
proof -
  have "mset es = mset (takeWhile (\<lambda>(k, _). k < key) es) + mset (dropWhile (\<lambda>(k, _). k < key) es)"
    by (metis mset_append takeWhile_dropWhile_id)
  then show ?thesis by (simp add: ins_entry_def)
qed

section \<open>The leaf of an insertion\<close>

lemma linked_update [simp]: "a \<notin> set xs \<Longrightarrow> linked od (m(a \<mapsto> n)) xs z = linked od m xs z"
  by (rule linked_cong) auto

lemma sorted_ins_at:
  assumes "sorted_wrt (<) ks" "key \<notin> set ks"
  shows "sorted_wrt (<) (ins_at (key_pos key ks) key ks)"
proof -
  have "ins_at (key_pos key ks) key ks = takeWhile (\<lambda>k. k < key) ks @ key # dropWhile (\<lambda>k. k < key) ks"
    unfolding ins_at_def key_pos_def by (metis takeWhile_eq_take dropWhile_eq_drop)
  moreover have "sorted_wrt (<) (takeWhile (\<lambda>k. k < key) ks @ key # dropWhile (\<lambda>k. k < key) ks)"
    using assms by (induction ks) (auto dest: set_takeWhileD set_dropWhileD)
  ultimately show ?thesis by simp
qed

lemma set_ins_at: "set (ins_at i x xs) = insert x (set xs)"
  unfolding ins_at_def by (metis Un_insert_right append_take_drop_id list.simps(15) set_append)

text \<open>The state around the leaf that an insertion reaches.\<close>

definition leaf_state :: "nat \<Rightarrow> mem \<Rightarrow> addr \<Rightarrow> u64 list \<Rightarrow> addr list \<Rightarrow> ctx \<Rightarrow> node \<Rightarrow> bool" where
  "leaf_state od s a ks rs C n \<longleftrightarrow> a \<noteq> 0 \<and> nodes s a = Some n \<and> node_at od (par C) True ks rs n \<and>
     crep od (nodes s) a C \<and> distinct (a # caddrs C) \<and> node_slab.ok s (insert a (set (caddrs C))) \<and>
     sorted_wrt (<) ks \<and> length ks = length rs \<and> (\<forall>k\<in>set ks. clo 0 C \<le> unat k \<and> unat k < chi (2 ^ 64) C) \<and>
     cord 0 (2 ^ 64) C \<and> cbal od 0 C \<and> (C \<noteq> [] \<longrightarrow> cut (od - 1) \<le> length ks) \<and> ks \<noteq> [] \<and>
     linked od (nodes s) (cleft leaves C @ a # cright leaves C) 0"

lemma leaf_state:
  assumes "tree_ok od s t" "leaf_for od key t a ks rs C" "3 \<le> od"
  obtains n where "leaf_state od s a ks rs C n"
proof -
  have t: "t = plug (Lf a ks rs) C" and sz: "sized C" using assms(2) by (auto simp: leaf_for_def)
  have bal: "cbal od 0 C \<and> (C \<noteq> [] \<longrightarrow> cut (od - 1) \<le> length ks) \<and> ks \<noteq> []"
  proof (cases "C = []")
    case True
    then show ?thesis using assms(1) by (auto simp: tree_ok_def t)
  next
    case False
    then have "cbal od 0 C \<and> cut (od - 1) \<le> length ks"
      using assms(1) plug_rbal_ne [of C od "Lf a ks rs"] by (auto simp: tree_ok_def t)
    then show ?thesis using assms(3) by (auto simp: cut_eq)
  qed
  have "hrep od (nodes s) (par C) (Lf a ks rs)" using assms(1) by (simp add: tree_ok_def t plug_hrep [OF sz])
  then obtain n where "a \<noteq> 0" "nodes s a = Some n" "node_at od (par C) True ks rs n" by auto
  with assms(1) bal have "leaf_state od s a ks rs C n"
    by (simp add: leaf_state_def tree_ok_def t plug_hrep [OF sz] plug_ordered [OF sz] plug_addrs_distinct plug_addrs_set plug_leaves)
  then show ?thesis by (rule that)
qed

lemma leaf_tree:
  assumes L: "leaf_state od s a ks rs C n" and n': "node_at od (par C) True KS RS n'"
    "pointers n' ! (od - 1) = pointers n ! (od - 1)"
    and KS: "sorted_wrt (<) KS" "\<forall>k\<in>set KS. clo 0 C \<le> unat k \<and> unat k < chi (2 ^ 64) C" "length ks \<le> length KS"
  shows "tree_ok od (s\<lparr>nodes := (nodes s)(a \<mapsto> n')\<rparr>) (plug (Lf a KS RS) C)"
proof -
  let ?m = "(nodes s)(a \<mapsto> n')"
  have sz: "sized C" using L crep_sized by (auto simp: leaf_state_def)
  have nin: "a \<notin> set (caddrs C)" "a \<notin> set (cleft leaves C)" "a \<notin> set (cright leaves C)"
    using L cleaves_in_caddrs [of C] by (auto simp: leaf_state_def)
  have "crep od ?m a C" using L nin by (subst crep_cong [where m' = "nodes s"]) (auto simp: leaf_state_def)
  moreover have "linked od ?m (cleft leaves C @ a # cright leaves C) 0"
  proof -
    have "linked od ?m (cleft leaves C) a" "linked od ?m (cright leaves C) 0"
      using L nin
      by (auto simp: leaf_state_def linked_append)
    then show ?thesis using L n'(2) by (auto simp: leaf_state_def linked_append)
  qed
  moreover have "\<exists>h. rbal od h (plug (Lf a KS RS) C)"
  proof (cases "C = []")
    case True
    then show ?thesis using L KS(3) by (auto simp: leaf_state_def)
  next
    case False
    then show ?thesis using L KS(3) by (subst plug_rbal_ne) (auto simp: leaf_state_def)
  qed
  moreover have "length KS = length RS" using n'(1) by (simp add: node_at_def)
  ultimately show ?thesis
    using L n'(1) KS node_ok_update [of s "insert a (set (caddrs C))" a n']
    by (simp add: leaf_state_def tree_ok_def plug_hrep [OF sz] plug_ordered [OF sz] plug_addrs_distinct plug_addrs_set plug_leaves)
qed

lemma leaf_split_siblings:
  assumes L: "leaf_state od s a ks rs C n" and od: "3 \<le> od"
    and KS: "sorted_wrt (<) KS" "\<forall>k\<in>set KS. clo 0 C \<le> unat k \<and> unat k < chi (2 ^ 64) C"
      "length KS = od" "length RS = od" and c: "c = cut (od - 1)"
    and b: "b \<noteq> 0" "b \<notin> insert a (set (caddrs C))" "node_slab.ok s' (insert b (insert a (set (caddrs C))))"
    and na: "nodes s' a = Some na" "node_at od (par C) True (take c KS) (take c RS) na" "pointers na ! (od - 1) = b"
    and nb: "nodes s' b = Some nb" "node_at od (par C) True (drop c KS) (drop c RS) nb"
      "pointers nb ! (od - 1) = pointers n ! (od - 1)"
    and rest: "\<And>x. x \<in> set (caddrs C) \<Longrightarrow> nodes s' x = nodes s x"
  shows "siblings od s' (Lf a (take c KS) (take c RS)) (KS ! c) (Lf b (drop c KS) (drop c RS)) C 0"
proof -
  have cb: "0 < c" "c < od" "c \<le> od - c" using od by (auto simp: c cut_eq)
  have "crep od (nodes s') a C" using L rest crep_cong [of C "nodes s" "nodes s'"] by (auto simp: leaf_state_def)
  moreover have mid: "KS ! c \<in> set KS" using cb KS(3) by simp
  moreover have "unat x < unat (KS ! c)" if x: "x \<in> set (take c KS)" for x
  proof -
    from x obtain i where "i < c" "x = KS ! i" by (auto simp: in_set_conv_nth)
    then show ?thesis using sorted_wrt_nth_less [OF KS(1), of i c] cb KS(3) by (simp add: word_less_nat_alt)
  qed
  moreover have "unat (KS ! c) \<le> unat x" if x: "x \<in> set (drop c KS)" for x
  proof -
    from x obtain i where "i < od - c" "x = KS ! (c + i)" by (auto simp: in_set_conv_nth KS(3))
    then show ?thesis
      using sorted_wrt_nth_less [OF KS(1), of c "c + i"] KS(3)
      by (cases "i = 0") (auto simp: word_less_nat_alt less_diff_conv add.commute intro: less_imp_le)
  qed
  moreover have "sorted_wrt (<) (take c KS)" "sorted_wrt (<) (drop c KS)"
    using KS(1) by (auto intro: sorted_wrt_take sorted_wrt_drop)
  moreover have "set (take c KS) \<subseteq> set KS" "set (drop c KS) \<subseteq> set KS" by (auto dest: in_set_takeD in_set_dropD)
  ultimately have ord: "ordered (clo 0 C) (unat (KS ! c)) (Lf a (take c KS) (take c RS))"
    "ordered (unat (KS ! c)) (chi (2 ^ 64) C) (Lf b (drop c KS) (drop c RS))"
    "clo 0 C \<le> unat (KS ! c)" "unat (KS ! c) \<le> chi (2 ^ 64) C"
    using KS(2,3,4) by (auto intro: less_imp_le)
  have nin: "a \<notin> set (caddrs C)" "set (cleft leaves C) \<union> set (cright leaves C) \<subseteq> set (caddrs C)"
    using L cleaves_in_caddrs by (auto simp: leaf_state_def)
  have "linked od (nodes s') (cleft leaves C) a" "linked od (nodes s') (cright leaves C) 0"
    using L nin rest linked_cong [of "cleft leaves C" "nodes s" "nodes s'" od a]
      linked_cong [of "cright leaves C" "nodes s" "nodes s'" od 0]
    by (force simp: leaf_state_def linked_append)+
  then have "linked od (nodes s') (cleft leaves C @ a # b # cright leaves C) 0"
    using L na nb by (auto simp: leaf_state_def linked_append)
  with ord L b na nb nin cb \<open>crep od (nodes s') a C\<close> KS(3,4) show ?thesis
    by (simp add: siblings_def leaf_state_def insert_commute c del: ordered.simps)
qed

section \<open>Inserting a key that is not in the tree\<close>

lemma insert_setup:
  assumes tree: "tree_ok od s t" and lf: "leaf_for od key t a ks rs C" and od: "3 \<le> od" and new: "key \<notin> fst ` set (entries t)"
  obtains n where "leaf_state od s a ks rs C n" "sorted_wrt (<) (ins_at (key_pos key ks) key ks)"
    "\<forall>k\<in>set (ins_at (key_pos key ks) key ks). clo 0 C \<le> unat k \<and> unat k < chi (2 ^ 64) C"
    "\<And>r. ins_entry key r (entries t) = cleft entries C @
       zip (ins_at (key_pos key ks) key ks) (ins_at (key_pos key ks) r rs) @ cright entries C"
proof -
  obtain n where L: "leaf_state od s a ks rs C n" by (rule leaf_state [OF tree lf od])
  have ord: "ordered 0 (2 ^ 64) t" using tree by (simp add: tree_ok_def)
  have len: "length ks = length rs" using L by (simp add: leaf_state_def)
  have "key \<notin> set ks"
    using new leaf_for_entries(1) [OF lf ord] len by (auto simp: image_Un set_zip image_iff in_set_conv_nth)
  then have "sorted_wrt (<) (ins_at (key_pos key ks) key ks)" using L sorted_ins_at by (auto simp: leaf_state_def)
  moreover have "\<forall>k\<in>set (ins_at (key_pos key ks) key ks). clo 0 C \<le> unat k \<and> unat k < chi (2 ^ 64) C"
    using L lf by (auto simp: set_ins_at leaf_state_def leaf_for_def)
  moreover have "ins_entry key r (entries t) = cleft entries C @
       zip (ins_at (key_pos key ks) key ks) (ins_at (key_pos key ks) r rs) @ cright entries C" for r
    unfolding leaf_for_entries(1) [OF lf ord]
    using leaf_for_entries(2,3) [OF lf ord] ins_entry_zip [OF len] by (simp add: ins_entry_context)
  ultimately show ?thesis using L by (intro that)
qed

definition inserted :: "nat \<Rightarrow> mem \<Rightarrow> bt \<Rightarrow> u64 \<Rightarrow> addr \<Rightarrow> (addr \<times> mem) option \<Rightarrow> bool" where
  "inserted od s t key r res \<longleftrightarrow> (\<exists>s' t'. res = Some (root_of t', s') \<and> tree_ok od s' t' \<and>
     entries t' = ins_entry key r (entries t) \<and> keeps s s')"

lemma leaf_with_room:
  assumes od: "3 \<le> od" and tree: "tree_ok od s t" and lf: "leaf_for od key t a ks rs C"
    and new: "key \<notin> fst ` set (entries t)" and n: "nodes s a = Some n" and room: "num_keys n < od - 1"
  shows "inserted od s t key r (do { s \<leftarrow> insert_into_leaf a key r s; Some (root_of t, s) })"
    and "inserted od s t key r (do {
      append \<leftarrow> (if num_keys n = 0 then Some True else do { k \<leftarrow> aget (keys n) (num_keys n - 1); Some (k < key) });
      s \<leftarrow> (if append
           then mod_node (\<lambda>n. do {
                  n \<leftarrow> put_key (num_keys n) key n;
                  n \<leftarrow> put_ptr (num_keys n) r n;
                  Some (n\<lparr>num_keys := Suc (num_keys n)\<rparr>) }) a s
           else insert_into_leaf a key r s);
      Some (root_of t, s) })"
proof -
  let ?KS = "ins_at (key_pos key ks) key ks" and ?RS = "ins_at (key_pos key ks) r rs"
  obtain n0 where L: "leaf_state od s a ks rs C n0" "sorted_wrt (<) ?KS"
    "\<forall>k\<in>set ?KS. clo 0 C \<le> unat k \<and> unat k < chi (2 ^ 64) C"
    "ins_entry key r (entries t) = cleft entries C @ zip ?KS ?RS @ cright entries C"
    using insert_setup [OF tree lf od new] by metis
  with n have n0: "n0 = n" by (auto simp: leaf_state_def)
  from L(1) n0 have at: "a \<noteq> 0" "node_at od (par C) True ks rs n" "length ks = length rs" "sorted_wrt (<) ks" "ks \<noteq> []"
    by (auto simp: leaf_state_def)
  have nk: "num_keys n = length ks" "length (keys n) = od - 1" "length (pointers n) = od" "take (length ks) (keys n) = ks"
    using at(2) by (auto simp: node_at_def)
  have fin: "inserted od s t key r (Some (root_of t, s\<lparr>nodes := (nodes s)(a \<mapsto> n')\<rparr>))"
    if n': "node_at od (par C) True ?KS ?RS n'" "pointers n' ! (od - 1) = pointers n ! (od - 1)" for n'
  proof -
    have "tree_ok od (s\<lparr>nodes := (nodes s)(a \<mapsto> n')\<rparr>) (plug (Lf a ?KS ?RS) C)"
      by (rule leaf_tree [OF L(1) n'(1)]) (use n'(2) n0 L(2,3) in auto)
    moreover have "root_of t = root_of (plug (Lf a ?KS ?RS) C)"
      using lf by (auto simp: leaf_for_def root_of_plug)
    ultimately show ?thesis unfolding inserted_def L(4)
      by (intro exI [of _ "s\<lparr>nodes := (nodes s)(a \<mapsto> n')\<rparr>"] exI [of _ "plug (Lf a ?KS ?RS) C"]) (simp add: plug_entries)
  qed
  obtain n' where n': "insert_into_leaf a key r s = Some (s\<lparr>nodes := (nodes s)(a \<mapsto> n')\<rparr>)"
    "node_at od (par C) True ?KS ?RS n'" "pointers n' ! (od - 1) = pointers n ! (od - 1)"
    using insert_into_leaf_node [OF n at(1,2), of key r] room nk(1) by auto
  show ins: "inserted od s t key r (do { s \<leftarrow> insert_into_leaf a key r s; Some (root_of t, s) })"
    using fin [OF n'(2,3)] n'(1) by simp
  have last: "aget (keys n) (num_keys n - 1) = Some (last ks)"
  proof -
    have lt: "length ks - 1 < length ks" "length ks - 1 < length (keys n)" using at(5) room nk by auto
    have "keys n ! (length ks - 1) = ks ! (length ks - 1)" using nk(4) lt(1) by (metis nth_take)
    then show ?thesis using lt(2) at(5) nk(1) by (simp add: last_conv_nth)
  qed
  show "inserted od s t key r (do {
      append \<leftarrow> (if num_keys n = 0 then Some True else do { k \<leftarrow> aget (keys n) (num_keys n - 1); Some (k < key) });
      s \<leftarrow> (if append
           then mod_node (\<lambda>n. do {
                  n \<leftarrow> put_key (num_keys n) key n;
                  n \<leftarrow> put_ptr (num_keys n) r n;
                  Some (n\<lparr>num_keys := Suc (num_keys n)\<rparr>) }) a s
           else insert_into_leaf a key r s);
      Some (root_of t, s) })"
  proof (cases "last ks < key")
    case True
    let ?n = "n\<lparr>keys := (keys n)[length ks := key], pointers := (pointers n)[length ks := r], num_keys := Suc (length ks)\<rparr>"
    have "?KS = ks @ [key]" "?RS = rs @ [r]" using at(3)
        key_pos_append [OF at(4) disjI2 [OF True], of key ks] key_pos_append [OF at(4) disjI2 [OF True], of r rs]
      by simp_all
    then have "node_at od (par C) True ?KS ?RS ?n" using append_node_at [OF at(2)] room nk(1) by simp
    moreover have "pointers ?n ! (od - 1) = pointers n ! (od - 1)" using room nk(1) by simp
    ultimately have "inserted od s t key r (Some (root_of t, s\<lparr>nodes := (nodes s)(a \<mapsto> ?n)\<rparr>))" by (rule fin)
    then show ?thesis
      using True last at(1,5) n nk room by (simp add: mod_node_def get_node_def cong: bind_weak_cong)
  next
    case False
    then show ?thesis using ins last at(5) nk(1) by (simp cong: bind_weak_cong)
  qed
qed

lemma full_leaf:
  assumes os: "good_os os" and od: "3 \<le> od" and tree: "tree_ok od s t" and lf: "leaf_for od key t a ks rs C"
    and new: "key \<notin> fst ` set (entries t)" and n: "nodes s a = Some n" and full: "\<not> num_keys n < od - 1"
  shows "inserted od s t key r (insert_into_leaf_after_splitting os od (root_of t) a key r s)"
proof -
  let ?KS = "ins_at (key_pos key ks) key ks" and ?RS = "ins_at (key_pos key ks) r rs" and ?c = "cut (od - 1)"
  obtain n0 where L: "leaf_state od s a ks rs C n0" "sorted_wrt (<) ?KS"
    "\<forall>k\<in>set ?KS. clo 0 C \<le> unat k \<and> unat k < chi (2 ^ 64) C"
    "ins_entry key r (entries t) = cleft entries C @ zip ?KS ?RS @ cright entries C"
    using insert_setup [OF tree lf od new] by metis
  with n have n0: "n0 = n" by (auto simp: leaf_state_def)
  let ?U = "insert a (set (caddrs C))"
  from L(1) n0 have at: "node_at od (par C) True ks rs n" "length ks = length rs" and U: "node_slab.ok s ?U" "a \<in> ?U"
    and d: "a \<notin> set (caddrs C)" by (auto simp: leaf_state_def)
  then have len: "length ks = od - 1" using full by (auto simp: node_at_def)
  obtain b s1 na nb where s1: "split_leaf os od a key r s = Some (?KS ! ?c, b, s1)" "b \<noteq> 0" "b \<notin> ?U"
    "node_slab.ok s1 (insert b ?U)" "keeps s s1" "nodes s1 a = Some na" "nodes s1 b = Some nb"
    "\<And>x. x \<in> ?U - {a} \<Longrightarrow> nodes s1 x = nodes s x"
    "node_at od (par C) True (take ?c ?KS) (take ?c ?RS) na" "node_at od (par C) True (drop ?c ?KS) (drop ?c ?RS) nb"
    "pointers na ! (od - 1) = b" "pointers nb ! (od - 1) = pointers n ! (od - 1)"
    using split_leaf_ok [OF os od U n at(1) len, of key r] by metis
  let ?l = "Lf a (take ?c ?KS) (take ?c ?RS)" and ?r = "Lf b (drop ?c ?KS) (drop ?c ?RS)"
  have "siblings od s1 ?l (?KS ! ?c) ?r C 0"
    by (rule leaf_split_siblings [OF L(1) od L(2,3) _ _ refl s1(2,3,4,6,9,11,7,10)])
      (use len at(2) od s1(8,12) d n0 in auto)
  moreover have "root_of t = top_of (root_of ?l) C" using lf by (auto simp: leaf_for_def root_of_plug)
  ultimately obtain s' t' where t': "insert_into_parent os od (root_of t) a (?KS ! ?c) b s1 = Some (root_of t', s')"
    "tree_ok od s' t'" "entries t' = cleft entries C @ entries ?l @ entries ?r @ cright entries C" "keeps s1 s'"
    using insert_into_parent_ok [OF os od, of s1 ?l "?KS ! ?c" ?r C 0 "root_of t"] unfolding root_of.simps by blast
  have "entries ?l @ entries ?r = zip ?KS ?RS"
    unfolding entries.simps take_zip [symmetric] drop_zip [symmetric] by (rule append_take_drop_id)
  then have "entries t' = ins_entry key r (entries t)" using t'(3) unfolding L(4) by (metis append_assoc)
  with t' s1(1,5) show ?thesis
    by (auto simp: inserted_def insert_into_leaf_after_splitting_def intro: keeps_trans)
qed

lemma start_new_tree_ok:
  assumes os: "good_os os" and od: "3 \<le> od" and s: "node_slab.ok s {}"
  shows "\<exists>s' t. start_new_tree os od key r s = Some (root_of t, s') \<and> tree_ok od s' t \<and> entries t = [(key, r)] \<and> keeps s s'"
proof -
  obtain a s1 where s1: "make_leaf os od s = Some (a, s1)" "a \<noteq> 0" "node_slab.ok s1 {a}"
    "nodes s1 a = Some (new_node od True)" "keeps s s1"
    using make_leaf_fresh [OF os s, of od] by metis
  let ?n = "(new_node od True)\<lparr>keys := (replicate (od - 1) 0)[0 := key],
    pointers := (replicate od 0)[0 := r, od - 1 := 0], num_keys := 1, parent := 0\<rparr>"
  let ?s = "s1\<lparr>nodes := (nodes s1)(a \<mapsto> ?n)\<rparr>" and ?t = "Lf a [key] [r]"
  have "start_new_tree os od key r s = Some (a, ?s)"
    using s1 od by (simp add: start_new_tree_def mod_node_def get_node_def put_parent_def new_node_def cong: bind_weak_cong)
  moreover have ps: "(replicate od 0)[0 := r, od - 1 := 0] = r # replicate (od - 1) 0"
    using od by (intro nth_equalityI) (auto simp: nth_list_update nth_Cons')
  have ks: "(replicate (od - 1) 0)[0 := key] = key # replicate (od - 2) 0"
    using od by (intro nth_equalityI) (auto simp: nth_list_update nth_Cons')
  have "node_at od 0 True [key] [r] ?n" unfolding ps ks using od by (simp add: node_at_def new_node_def)
  then have "tree_ok od ?s ?t"
    using s1 od node_ok_update [OF s1(3), of a ?n] unsigned_less [of key, where 'a = nat]
    by (simp add: tree_ok_def)
  ultimately show ?thesis
    using s1(5) by (intro exI [of _ ?s] exI [of _ ?t]) simp
qed

section \<open>Refinement of a finite map\<close>

lemma btree_fresh_key: "map_of es key = None \<longleftrightarrow> key \<notin> fst ` set es"
  by (simp add: map_of_eq_None_iff)

lemma btree_null:
  assumes "btree od s 0 es"
  shows "es = []" "node_slab.ok s {}"
proof -
  have "\<not> (tree_ok od s t \<and> 0 = root_of t)" for t using hrep_root [of od "nodes s" 0 t] by (auto simp: tree_ok_def)
  with assms show "es = []" "node_slab.ok s {}" unfolding btree_def by blast+
qed

lemma insert_unique_inserted:
  assumes os: "good_os os" and od: "3 \<le> od" and b: "btree od s root es" and new: "map_of es key = None"
  shows "\<exists>root' s'. insert_unique os od root key r s = Some (root', s') \<and>
    btree od s' root' (ins_entry key r es) \<and> keeps s s'"
proof (cases "root = 0")
  case True
  with b btree_null have es: "es = []" "node_slab.ok s {}" by auto
  from start_new_tree_ok [OF os od es(2), of key r] obtain s' t where
    "start_new_tree os od key r s = Some (root_of t, s')" "tree_ok od s' t" "entries t = [(key, r)]" "keeps s s'" by blast
  moreover from this have "btree od s' (root_of t) [(key, r)]" unfolding btree_def by metis
  ultimately show ?thesis using True es(1) by (auto simp: insert_unique_def ins_entry_def)
next
  case False
  with b obtain t where t: "tree_ok od s t" "root = root_of t" "es = entries t" by (auto simp: btree_def)
  obtain a ks rs C where lf: "find_leaf s root key = Some a" "leaf_for od key t a ks rs C"
    using find_leaf_for [OF t(1)] t(2) by metis
  obtain n where n: "nodes s a = Some n" "a \<noteq> 0" using leaf_state [OF t(1) lf(2) od] by (auto simp: leaf_state_def)
  have new': "key \<notin> fst ` set (entries t)" using new t(3) by (simp add: btree_fresh_key)
  have "inserted od s t key r (insert_unique os od root key r s)"
  proof (cases "num_keys n < od - 1")
    case True
    then show ?thesis
      using leaf_with_room(2) [OF od t(1) lf(2) new' n(1) True, of r] False lf(1) n t(2)
      by (simp add: insert_unique_def get_node_def cong: bind_weak_cong)
  next
    case False
    then show ?thesis
      using full_leaf [OF os od t(1) lf(2) new' n(1), of r] \<open>root \<noteq> 0\<close> lf(1) n t(2)
      by (simp add: insert_unique_def get_node_def cong: bind_weak_cong)
  qed
  then show ?thesis unfolding inserted_def t(3) btree_def by metis
qed

lemma btree_frame:
  assumes "btree od s root es" "nodes s' = nodes s" "free_nodes s' = free_nodes s"
    "in_regions (regions s) \<subseteq> in_regions (regions s')"
  shows "btree od s' root es"
proof -
  have "node_slab.ok s U \<Longrightarrow> node_slab.ok s' U" for U
    using assms(2-4) by (auto simp: node_slab.ok_def intro: slab_ok_mono)
  then show ?thesis using assms(1,2) by (auto simp: btree_def tree_ok_def)
qed

lemma btree_find:
  assumes "btree od s root es"
  shows "\<exists>leaf. find_record s root key = Some (case map_of es key of None \<Rightarrow> 0 | Some r \<Rightarrow> r, leaf)"
proof (cases "root = 0")
  case True
  with assms btree_null [of od s es] show ?thesis by (simp add: find_record_def)
next
  case False
  with assms show ?thesis using find_record_lookup unfolding btree_def by metis
qed

text \<open>Keys with the values of their records.\<close>

definition vmap :: "mem \<Rightarrow> (u64 \<times> addr) list \<Rightarrow> u64 \<rightharpoonup> u64" where
  "vmap s es k = (case map_of es k of None \<Rightarrow> None | Some r \<Rightarrow> map_option rec_value (recs s r))"

definition store :: "nat \<Rightarrow> mem \<Rightarrow> addr \<Rightarrow> (u64 \<times> addr) list \<Rightarrow> bool" where
  "store od s root es \<longleftrightarrow> btree od s root es \<and> rec_slab.ok s (snd ` set es) \<and> distinct (map snd es)"

lemma insert_key_existing:
  assumes st: "store od s root es" and r: "map_of es key = Some r"
  shows "\<exists>s'. insert_key os od root key v s = Some (root, s') \<and> store od s' root es \<and> vmap s' es = (vmap s es)(key \<mapsto> v)"
proof -
  have in_es: "(key, r) \<in> set es" using r by (rule map_of_SomeD)
  then have rR: "r \<in> snd ` set es" by force
  have ok: "rec_slab.ok s (snd ` set es)" "btree od s root es" "distinct (map snd es)" using st by (auto simp: store_def)
  with rR have "r \<noteq> 0" "r \<in> dom (recs s)" by (auto simp: rec_slab.ok_def slab_ok_def)
  then obtain c where c: "recs s r = Some c" by auto
  let ?s = "s\<lparr>recs := (recs s)(r \<mapsto> Value v)\<rparr>"
  from btree_find [OF ok(2), of key] r have "\<exists>leaf. find_record s root key = Some (r, leaf)" by simp
  then have "insert_key os od root key v s = Some (root, ?s)"
    using \<open>r \<noteq> 0\<close> c by (auto simp: insert_key_def set_rec_def get_rec_def)
  moreover have "store od ?s root es"
    using ok rR rec_ok_update [OF ok(1) rR, of "Value v"] btree_frame [OF ok(2), of ?s] by (simp add: store_def)
  moreover have "vmap ?s es k = ((vmap s es)(key \<mapsto> v)) k" for k
  proof (cases "k = key")
    case True
    then show ?thesis using r by (simp add: vmap_def)
  next
    case False
    have "map_of es k \<noteq> Some r"
    proof
      assume "map_of es k = Some r"
      then have "(k, r) \<in> set es" by (rule map_of_SomeD)
      with in_es ok(3) False show False by (metis distinct_map inj_on_eq_iff prod.inject snd_conv)
    qed
    with False show ?thesis by (auto simp: vmap_def split: option.splits)
  qed
  ultimately show ?thesis by blast
qed

lemma insert_key_tree:
  assumes os: "good_os os" and od: "3 \<le> od" and b: "btree od s root es" and new: "map_of es key = None"
  shows "\<exists>root' s'. (if root = 0 then start_new_tree os od key r s
       else do {
         leaf \<leftarrow> find_leaf s root key;
         n \<leftarrow> get_node s leaf;
         if num_keys n < od - 1 then do { s \<leftarrow> insert_into_leaf leaf key r s; Some (root, s) }
         else insert_into_leaf_after_splitting os od root leaf key r s }) = Some (root', s') \<and>
    btree od s' root' (ins_entry key r es) \<and> keeps s s'"
proof (cases "root = 0")
  case True
  then show ?thesis using insert_unique_inserted [OF os od b new, of r] by (simp add: insert_unique_def)
next
  case False
  with b obtain t where t: "tree_ok od s t" "root = root_of t" "es = entries t" by (auto simp: btree_def)
  obtain a ks rs C where lf: "find_leaf s root key = Some a" "leaf_for od key t a ks rs C"
    using find_leaf_for [OF t(1)] t(2) by metis
  obtain n where n: "nodes s a = Some n" "a \<noteq> 0" using leaf_state [OF t(1) lf(2) od] by (auto simp: leaf_state_def)
  have new': "key \<notin> fst ` set (entries t)" using new t(3) by (simp add: btree_fresh_key)
  show ?thesis
    using leaf_with_room(1) [OF od t(1) lf(2) new' n(1), of r] full_leaf [OF os od t(1) lf(2) new' n(1), of r] False lf(1) n t
    by (cases "num_keys n < od - 1") (simp_all add: get_node_def inserted_def btree_def cong: bind_weak_cong; metis)+
qed

lemma insert_key_new:
  assumes os: "good_os os" and od: "3 \<le> od" and st: "store od s root es" and new: "map_of es key = None"
  shows "\<exists>root' s' es'. insert_key os od root key v s = Some (root', s') \<and> store od s' root' es' \<and>
    vmap s' es' = (vmap s es)(key \<mapsto> v)"
proof -
  have ok: "rec_slab.ok s (snd ` set es)" "btree od s root es" "distinct (map snd es)" using st by (auto simp: store_def)
  obtain r s1 where s1: "make_record os v s = Some (r, s1)" "r \<noteq> 0" "r \<notin> snd ` set es"
    "rec_slab.ok s1 (insert r (snd ` set es))" "recs s1 r = Some (Value v)"
    "\<And>x. x \<in> snd ` set es \<Longrightarrow> recs s1 x = recs s x" "nodes s1 = nodes s" "free_nodes s1 = free_nodes s"
    "in_regions (regions s) \<subseteq> in_regions (regions s1)"
    using make_record_fresh [OF os ok(1), of v] by metis
  have "btree od s1 root es" using btree_frame [OF ok(2) s1(7-9)] .
  from insert_key_tree [OF os od this new, of r] obtain root' s' where
    s': "(if root = 0 then start_new_tree os od key r s1
       else do {
         leaf \<leftarrow> find_leaf s1 root key;
         n \<leftarrow> get_node s1 leaf;
         if num_keys n < od - 1 then do { s \<leftarrow> insert_into_leaf leaf key r s1; Some (root, s) }
         else insert_into_leaf_after_splitting os od root leaf key r s1 }) = Some (root', s')"
    "btree od s' root' (ins_entry key r es)" "keeps s1 s'" by blast
  let ?es = "ins_entry key r es"
  have "\<exists>leaf. find_record s root key = Some (0, leaf)" using btree_find [OF ok(2), of key] new by simp
  then have "insert_key os od root key v s = Some (root', s')"
    using s1(1) s'(1) by (auto simp: insert_key_def)
  moreover have "store od s' root' ?es"
  proof -
    have "rec_slab.ok s' (snd ` set ?es)" using rec_slab_keeps [OF s'(3) s1(4)] by (simp add: set_ins_entry)
    moreover have "distinct (map snd ?es)"
      using ok(3) s1(3) mset_eq_imp_distinct_iff [of "map snd ?es" "r # map snd es"] by (simp add: mset_ins_entry)
    ultimately show ?thesis using s'(2) by (simp add: store_def)
  qed
  moreover have "vmap s' ?es k = ((vmap s es)(key \<mapsto> v)) k" for k
  proof -
    have "recs s' x = recs s x" if "x \<in> snd ` set es" for x using that s1(6) s'(3) by (simp add: keeps_def)
    moreover have "recs s' r = Some (Value v)" using s1(5) s'(3) by (simp add: keeps_def)
    ultimately show ?thesis
      using map_of_ins_entry [of key es r] new
      by (force simp: vmap_def btree_fresh_key split: option.splits dest: map_of_SomeD)
  qed
  ultimately show ?thesis by blast
qed

section \<open>A concrete system and tree\<close>

text \<open>
  An operating system that satisfies the requirements (each region starts after all earlier ones), and
  a memory with a tree of order 4 that holds the keys 3 and 7.
\<close>

definition sample_os :: os where
  "sample_os = \<lparr>mmap_os = (\<lambda>rs sz. if sz = 0 then None else Some (Suc (sum_list (map (\<lambda>(b, z). b + z) rs)))),
     memalign_os = (\<lambda>_. True)\<rparr>"

definition sample_mem :: mem where
  "sample_mem = init_mem\<lparr>
     nodes := [48 \<mapsto> \<lparr>pointers = [104, 112, 0, 0], keys = [3, 7, 0], parent = 0, is_leaf = True, num_keys = 2, next_node = 0\<rparr>],
     recs := [104 \<mapsto> Value 30, 112 \<mapsto> Value 70], regions := [(104, 16), (48, 48)]\<rparr>"

lemma sample_os_good: "good_os sample_os"
proof -
  have "b + z \<le> sum_list (map (\<lambda>(b, z). b + z) rs)" if "(b, z) \<in> set rs" for b z and rs :: "(nat \<times> nat) list"
    using member_le_sum_list [of "b + z" "map (\<lambda>(b, z). b + z) rs"] that by force
  then show ?thesis by (fastforce simp: good_os_def sample_os_def intro: le_SucI)
qed

lemma sample_tree: "tree_ok 4 sample_mem (Lf 48 [3, 7] [104, 112])"
  by (simp add: tree_ok_def sample_mem_def node_at_def node_slab.ok_def slab_ok_def init_mem_def exI [of _ "[]"])

lemma sample_btree: "btree 4 sample_mem 48 [(3, 104), (7, 112)]"
  using sample_tree by (auto simp: btree_def)

lemma sample_store: "store 4 sample_mem 48 [(3, 104), (7, 112)]"
  using sample_btree
  by (auto simp: store_def rec_slab.ok_def slab_ok_def sample_mem_def init_mem_def intro!: exI [of _ "[]"])

section \<open>Properties\<close>

text \<open>
  C3: On a well-formed tree, \<open>find\<close> runs without an error and computes the lookup in the finite map
  of the tree's entries: it returns the record of the key, or \<open>NULL\<close> when the key is not in the tree.
\<close>

theorem find_refines_lookup:
  assumes "btree od s root es" "0 \<notin> snd ` set es"
  shows "\<exists>r leaf. find_record s root key = Some (r, leaf) \<and>
    (r = 0 \<longleftrightarrow> map_of es key = None) \<and> (r \<noteq> 0 \<longrightarrow> map_of es key = Some r)"
  using btree_find [OF assms(1), of key] assms(2)
  by (force split: option.splits dest: map_of_SomeD)

theorem find_refines_lookup_witness:
  "\<exists>r leaf. find_record sample_mem 48 7 = Some (r, leaf) \<and>
    (r = 0 \<longleftrightarrow> map_of [(3 :: u64, 104 :: nat), (7, 112)] 7 = None) \<and> (r \<noteq> 0 \<longrightarrow> map_of [(3 :: u64, 104), (7, 112)] 7 = Some r)"
  using find_refines_lookup [OF sample_btree, of 7] by simp

text \<open>
  C1: Inserting a key that is not in a well-formed tree with \<open>insert_unique\<close> runs without an error, keeps
  the invariant (order, occupancy, parent pointers, leaf chain, no aliasing with the free list) and
  adds exactly the new entry to the map that the tree represents; records are not touched.
\<close>

theorem insert_unique_refines_update:
  assumes "good_os os" "3 \<le> od" "btree od s root es" "map_of es key = None"
  shows "\<exists>root' s' es'. insert_unique os od root key r s = Some (root', s') \<and> btree od s' root' es' \<and>
    map_of es' = (map_of es)(key \<mapsto> r) \<and> mset es' = add_mset (key, r) (mset es) \<and> recs s' = recs s"
proof -
  obtain root' s' where "insert_unique os od root key r s = Some (root', s')"
    "btree od s' root' (ins_entry key r es)" "keeps s s'"
    using insert_unique_inserted [OF assms] by metis
  then show ?thesis
    using assms(4) map_of_ins_entry [of key es r] mset_ins_entry [of key r es]
    by (auto simp: btree_fresh_key keeps_def)
qed

theorem insert_unique_refines_update_witness:
  "\<exists>root' s' es'. insert_unique sample_os 4 48 5 120 sample_mem = Some (root', s') \<and> btree 4 s' root' es' \<and>
    map_of es' = (map_of [(3, 104), (7, 112)])(5 \<mapsto> 120) \<and> mset es' = add_mset (5, 120) (mset [(3, 104), (7, 112)]) \<and>
    recs s' = recs sample_mem"
  using insert_unique_refines_update [OF sample_os_good _ sample_btree, of 5 120] by simp

text \<open>
  C2: \<open>insert\<close> implements the update of a map from keys to values: a new key gets a fresh record, the
  record of a known key is overwritten, every other key keeps its value, the invariant of the tree and
  of both allocators is kept, and no step fails.
\<close>

theorem insert_refines_update:
  assumes "good_os os" "3 \<le> od" "store od s root es"
  shows "\<exists>root' s' es'. insert_key os od root key v s = Some (root', s') \<and> store od s' root' es' \<and>
    vmap s' es' = (vmap s es)(key \<mapsto> v)"
proof (cases "map_of es key")
  case None
  with insert_key_new [OF assms] show ?thesis by blast
next
  case (Some r)
  from insert_key_existing [OF assms(3) this] show ?thesis by blast
qed

theorem insert_refines_update_witness:
  "\<exists>root' s' es'. insert_key sample_os 4 48 7 99 sample_mem = Some (root', s') \<and> store 4 s' root' es' \<and>
    vmap s' es' = (vmap sample_mem [(3, 104), (7, 112)])(7 \<mapsto> 99)"
  using insert_refines_update [OF sample_os_good _ sample_store, of 7 99] by simp

end
