(* ===== verification/BtreeQuery.thy ===== *)
theory BtreeQuery
  imports BtreeRefine
begin

text \<open>
  Traversals of a well-formed tree: \<open>height\<close>, \<open>path_to_root\<close> and \<open>print_leaves\<close>. The occupancy invariant
  bounds the height by the number of entries, and the chain of leaves lists the keys in order.
\<close>

section \<open>Height\<close>

fun uniform :: "nat \<Rightarrow> bt \<Rightarrow> bool" where
  "uniform h (Lf _ _ _) \<longleftrightarrow> h = 0"
| "uniform h (Nd _ _ ts) \<longleftrightarrow> 0 < h \<and> (\<forall>t\<in>set ts. uniform (h - 1) t)"

lemma bal_uniform: "bal od h t \<Longrightarrow> uniform h t"
  by (induction t arbitrary: h) auto

lemma rbal_uniform: "rbal od h t \<Longrightarrow> uniform h t"
  by (cases t) (auto dest: bal_uniform)

lemma leaves_ne: "hrep od m p t \<Longrightarrow> leaves t \<noteq> []"
proof (induction t arbitrary: p)
  case (Nd a ks ts)
  then obtain t ts' where "ts = t # ts'" by (cases ts) (auto simp: node_at_def)
  with Nd.IH [of t a] Nd.prems show ?case by simp
qed simp

lemma leftmost_ok:
  "hrep od (nodes s) p t \<Longrightarrow> uniform h t \<Longrightarrow> leftmost s d (root_of t) = Some (hd (leaves t), d + h)"
proof (induction t arbitrary: p h d)
  case (Lf a ks rs)
  then show ?case by (subst leftmost.simps) (auto simp: get_node_def node_at_def)
next
  case (Nd a ks ts)
  then obtain n where n: "nodes s a = Some n" "a \<noteq> 0" "node_at od p False ks (map root_of ts) n" by auto
  then obtain t ts' where ts: "ts = t # ts'" by (cases ts) (auto simp: node_at_def)
  have "pointers n ! 0 = root_of t" "0 < length (pointers n)"
    using n(3) ts by (auto simp: node_at_def dest!: arg_cong [where f = "\<lambda>xs. xs ! 0"])
  then have "leftmost s d a = leftmost s (Suc d) (root_of t)"
    using n by (subst leftmost.simps) (simp add: get_node_def node_at_def)
  also have "\<dots> = Some (hd (leaves t), Suc d + (h - 1))"
    using Nd.IH [of t a "h - 1" "Suc d"] Nd.prems ts by simp
  finally show ?case using Nd.prems ts leaves_ne [of od "nodes s" a t] by simp
qed

lemma bal_entries:
  assumes "bal od h t" "hrep od m p t"
  shows "cut od ^ h * cut (od - 1) \<le> length (entries t)"
  using assms
proof (induction t arbitrary: h p)
  case (Lf a ks rs)
  then show ?case by (auto simp: node_at_def)
next
  case (Nd a ks ts)
  let ?m = "cut od ^ (h - 1) * cut (od - 1)"
  have "\<forall>t\<in>set ts. ?m \<le> length (entries t)" using Nd.IH Nd.prems by fastforce
  then have *: "length ts * ?m \<le> length (concat (map entries ts))"
    by (induction ts) auto
  have "cut od * ?m \<le> length ts * ?m" using Nd.prems by (intro mult_right_mono) auto
  from le_trans [OF this *] have "cut od * ?m \<le> length (entries (Nd a ks ts))" by (simp only: entries.simps)
  moreover have "cut od ^ h * cut (od - 1) = cut od * ?m" using Nd.prems by (cases h) auto
  ultimately show ?case by (simp only:)
qed

lemma rbal_entries:
  assumes "rbal od h t" "hrep od m p t" "0 < h"
  shows "2 * (cut od ^ (h - 1) * cut (od - 1)) \<le> length (entries t)"
proof (cases t)
  case (Nd a ks ts)
  let ?m = "cut od ^ (h - 1) * cut (od - 1)"
  have "\<forall>t\<in>set ts. ?m \<le> length (entries t)" using bal_entries assms Nd by fastforce
  then have *: "length ts * ?m \<le> length (concat (map entries ts))"
    by (induction ts) auto
  have "2 * ?m \<le> length ts * ?m" using assms Nd by (intro mult_right_mono) auto
  from le_trans [OF this *] show ?thesis by (simp only: Nd entries.simps)
qed (use assms in simp)

section \<open>The chain of leaves\<close>

fun lkeys :: "bt \<Rightarrow> u64 list list" where
  "lkeys (Lf _ ks _) = [ks]"
| "lkeys (Nd _ _ ts) = concat (map lkeys ts)"

fun chain_out :: "u64 list list \<Rightarrow> tok list" where
  "chain_out [] = []"
| "chain_out (ks # kss) = map Out_key ks @ (if kss = [] then [Out_newline] else Out_sep # chain_out kss)"

fun tok_key :: "tok \<Rightarrow> u64 list" where
  "tok_key (Out_key k) = [k]"
| "tok_key _ = []"

lemma chain_out_keys: "concat (map tok_key (chain_out kss)) = concat kss"
proof (induction kss)
  case (Cons ks kss)
  have "concat (map tok_key (map Out_key ks)) = ks" by (induction ks) auto
  with Cons show ?case by (auto simp: comp_def)
qed simp

lemma lkeys_entries: "hrep od m p t \<Longrightarrow> concat (lkeys t) = map fst (entries t)"
proof (induction t arbitrary: p)
  case (Nd a ks ts)
  then have "\<forall>t\<in>set ts. concat (lkeys t) = map fst (entries t)" by auto
  then show ?case by (induction ts) auto
qed (auto simp: node_at_def)

definition leaf_at :: "nat \<Rightarrow> mem \<Rightarrow> addr \<Rightarrow> u64 list \<Rightarrow> bool" where
  "leaf_at od s a ks \<longleftrightarrow> a \<noteq> 0 \<and> (\<exists>n. nodes s a = Some n \<and> length (pointers n) = od \<and> num_keys n = length ks \<and>
     take (length ks) (keys n) = ks)"

lemma hrep_leaves: "hrep od (nodes s) p t \<Longrightarrow> list_all2 (leaf_at od s) (leaves t) (lkeys t)"
proof (induction t arbitrary: p)
  case (Nd a ks ts)
  then have "\<forall>t\<in>set ts. list_all2 (leaf_at od s) (leaves t) (lkeys t)" by auto
  then show ?case by (induction ts) (auto intro: list_all2_appendI)
qed (auto simp: node_at_def leaf_at_def)

lemma print_keys_plain:
  assumes "num_keys n = length ks" "take (length ks) (keys n) = ks"
  shows "print_keys False n = Some (map Out_key ks)"
proof -
  have len: "length ks \<le> length (keys n)" using assms(2) by (metis length_take min.cobounded1)
  have nth: "i < length ks \<Longrightarrow> keys n ! i = ks ! i" for i using assms(2) by (metis nth_take)
  have "\<exists>out. print_keys False n = Some out \<and> out = map Out_key (take (num_keys n) ks)"
    unfolding print_keys_def
    by (rule for_up_rule) (use assms(1) len nth in \<open>auto simp: take_Suc_conv_app_nth\<close>)
  then show ?thesis using assms(1) by simp
qed

lemma print_chain_ok:
  "list_all2 (leaf_at od s) xs kss \<Longrightarrow> linked od (nodes s) xs 0 \<Longrightarrow> xs \<noteq> [] \<Longrightarrow> 0 < od \<Longrightarrow>
    print_chain od False s (hd xs) out = Some (out @ chain_out kss)"
proof (induction xs kss arbitrary: out rule: list_all2_induct)
  case (Cons x xs ks kss)
  from Cons(1) obtain n where n: "x \<noteq> 0" "nodes s x = Some n" "length (pointers n) = od" "num_keys n = length ks"
    "take (length ks) (keys n) = ks" by (auto simp: leaf_at_def)
  have nx: "pointers n ! (od - 1) = (if xs = [] then 0 else hd xs)" "linked od (nodes s) xs 0"
    using Cons(4) n(2) by auto
  have hd: "xs \<noteq> [] \<Longrightarrow> hd xs \<noteq> 0" using Cons(2) by (cases xs; cases kss) (auto simp: leaf_at_def)
  have kss: "xs = [] \<longleftrightarrow> kss = []" using Cons(2) by auto
  show ?case
    using n print_keys_plain [OF n(4,5)] nx hd kss Cons(3) [OF nx(2)] Cons(6)
    by (subst print_chain.simps) (simp add: get_node_def)
qed simp

section \<open>Properties\<close>



text \<open>
  C5: \<open>print_leaves\<close> ends on a well-formed tree and prints every key of the tree exactly once, in
  increasing order.
\<close>

theorem print_leaves_in_order:
  assumes "btree od s root es" "0 < od"
  shows "\<exists>out. print_leaves od False s root = Some out \<and> concat (map tok_key out) = map fst es \<and>
    sorted_wrt (<) (map fst es)"
proof (cases "root = 0")
  case True
  then show ?thesis using btree_null [of od s es] assms by (simp add: print_leaves_def)
next
  case False
  then obtain t h where t: "tree_ok od s t" "root = root_of t" "es = entries t" "rbal od h t"
    using assms by (auto simp: btree_def tree_ok_def)
  then have hr: "hrep od (nodes s) 0 t" "linked od (nodes s) (leaves t) 0" by (simp_all add: tree_ok_def)
  have ne: "leaves t \<noteq> []" by (rule leaves_ne [OF hr(1)])
  have "print_leaves od False s root = Some (chain_out (lkeys t))"
    using leftmost_ok [OF hr(1) rbal_uniform [OF t(4)], of 0] print_chain_ok [OF hrep_leaves [OF hr(1)] hr(2) ne assms(2), of "[]"]
      False t(2) by (simp add: print_leaves_def)
  then show ?thesis
    using btree_sorted [OF assms(1)] lkeys_entries [OF hr(1)] t(3) by (simp add: chain_out_keys)
qed

theorem print_leaves_in_order_witness:
  "\<exists>out. print_leaves 4 False sample_mem 48 = Some out \<and>
    concat (map tok_key out) = map fst [(3 :: u64, 104 :: nat), (7, 112)] \<and>
    sorted_wrt (<) (map fst [(3 :: u64, 104 :: nat), (7, 112)])"
  by (rule print_leaves_in_order [OF sample_btree]) simp

end
