(* ===== verification/BtreeMain.thy ===== *)
theory BtreeMain
  imports BtreeQuery
begin

text \<open>
  The random number generator and the \<open>real_main\<close> of \<open>btree.c\<close>: command line, the scattered insertion
  of all keys and the lookup loops (the sequential one and the one of each OpenMP thread).
\<close>

section \<open>The 48-bit generator\<close>

definition MASK :: "'a::len word" where "MASK = 65535"

text \<open>\<open>LOW\<close> converts to \<open>unsigned\<close> first; the argument is a 64-bit value or an \<open>int32_t\<close>.\<close>

definition LOW :: "u64 \<Rightarrow> u64" where
  "LOW v = ucast (ucast v AND MASK :: u32)"

definition LOW32 :: "u32 \<Rightarrow> u64" where
  "LOW32 l = ucast (l AND MASK)"

definition HIGH32 :: "u32 \<Rightarrow> u64" where
  "HIGH32 l = LOW32 (signed_drop_bit 16 l)"

definition MUL :: "u64 \<Rightarrow> u64 \<Rightarrow> u64 \<times> u64" where
  "MUL x y = (let l = ucast (x * y) :: u32 in (LOW32 l, HIGH32 l))"

definition CARRY :: "u64 \<Rightarrow> u64 \<Rightarrow> u64" where
  "CARRY x y = (if sint (ucast x :: u32) + sint y > 65535 then 1 else 0)"

text \<open>\<open>ADDEQU(x, y, z)\<close> as the new values of \<open>x\<close> and \<open>z\<close>.\<close>

definition ADDEQU :: "u64 \<Rightarrow> u64 \<Rightarrow> u64 \<times> u64" where
  "ADDEQU x y = (LOW (x + y), CARRY x y)"

definition X0 :: u64 where "X0 = 0x330E"
definition A0 :: u64 where "A0 = 0xE66D"
definition A1 :: u64 where "A1 = 0xDEEC"
definition A2 :: u64 where "A2 = 0x5"
definition C_add :: u64 where "C_add = 0xB"

type_synonym rng = "u64 \<times> u64 \<times> u64"

definition next_x :: "rng \<Rightarrow> rng" where
  "next_x = (\<lambda>(x0, x1, x2).
     let (p0, p1) = MUL A0 x0;
         (p0, carry0) = ADDEQU p0 C_add;
         (p1, carry1) = ADDEQU p1 carry0;
         (q0, q1) = MUL A0 x1;
         (p1, carry0) = ADDEQU p1 q0;
         (r0, r1) = MUL A1 x0;
         x2' = LOW (carry0 + carry1 + CARRY p1 r0 + q1 + r1 + A0 * x2 + A1 * x1 + A2 * x0)
     in (LOW p0, LOW (p1 + r0), x2'))"

definition redisLrand48 :: "rng \<Rightarrow> u64 \<times> rng" where
  "redisLrand48 x = (let (x0, x1, x2) = next_x x in (push_bit 15 x2 + drop_bit 1 x1, (x0, x1, x2)))"

definition redisSrand48 :: "u32 \<Rightarrow> rng" where
  "redisSrand48 seedval = (X0, LOW32 seedval, HIGH32 seedval)"

section \<open>Command line\<close>

definition parse_size :: "string \<Rightarrow> u64" where
  "parse_size str = (let (val, endptr) = strtoull10 str in
     case endptr of [] \<Rightarrow> val
     | c # _ \<Rightarrow> if c \<in> {CHR ''k'', CHR ''K''} then val * 1000
               else if c \<in> {CHR ''m'', CHR ''M''} then val * 1000000
               else if c \<in> {CHR ''g'', CHR ''G''} then val * 1000000000
               else val)"

text \<open>
  The results of \<open>getopt_long\<close> (option character and argument) are the input. The result is
  the exit status of an early return, or \<open>nelements\<close> and \<open>nlookup\<close>.
\<close>

fun parse_opts :: "(char \<times> string) list \<Rightarrow> u64 \<times> u64 \<Rightarrow> int + (u64 \<times> u64)" where
  "parse_opts [] cfg = Inr cfg"
| "parse_opts ((opt, optarg) # os) (nelements, nlookup) =
     (if opt = CHR ''n''
      then (let n = parse_size optarg in parse_opts os (if n mod 2 \<noteq> 0 then n + 1 else n, nlookup))
      else if opt = CHR ''l'' then parse_opts os (nelements, parse_size optarg)
      else if opt = CHR ''h'' then Inl 0
      else Inl 1)"

definition DEFAULT_NELEMENTS :: "bool \<Rightarrow> u64" where
  "DEFAULT_NELEMENTS openmp = (if openmp then push_bit 20 2900 else push_bit 20 200)"

definition DEFAULT_NLOOKUP :: "bool \<Rightarrow> u64" where
  "DEFAULT_NLOOKUP openmp = (if openmp then 2000000000 else 20000000)"

section \<open>Insertion and lookup\<close>

text \<open>The two arrays of elements: freshly mapped, so every payload is 0.\<close>

type_synonym elms = "addr \<rightharpoonup> u64"

definition zero_elms :: "addr \<Rightarrow> nat \<Rightarrow> elms" where
  "zero_elms base n a = (if \<exists>j<n. a = base + 8 * j then Some 0 else None)"

definition set_elm :: "addr \<Rightarrow> u64 \<Rightarrow> elms \<Rightarrow> elms option" where
  "set_elm a v el = (case el a of None \<Rightarrow> None | Some _ \<Rightarrow> Some (el(a \<mapsto> v)))"

definition insert_pair ::
  "os \<Rightarrow> nat \<Rightarrow> addr \<Rightarrow> addr \<Rightarrow> nat \<Rightarrow> nat \<Rightarrow> addr \<times> elms \<times> mem \<Rightarrow> (addr \<times> elms \<times> mem) option" where
  "insert_pair os od e1 e2 n j = (\<lambda>(root, el, s). do {
     let i = 2 * j;
     el \<leftarrow> set_elm (e1 + 8 * (i div 2)) (word_of_nat i) el;
     el \<leftarrow> set_elm (e2 + 8 * (i div 2)) (word_of_nat (n - i - 1)) el;
     (rec1, s) \<leftarrow> make_record os (word_of_nat (e1 + 8 * (i div 2))) s;
     (rec2, s) \<leftarrow> make_record os (word_of_nat (e2 + 8 * (i div 2))) s;
     (root, s) \<leftarrow> insert_unique os od root (word_of_nat i) rec1 s;
     (root, s) \<leftarrow> insert_unique os od root (word_of_nat (n - i - 1)) rec2 s;
     Some (root, el, s) })"

text \<open>\<open>for (i = 0; i < nelements; i += 2)\<close>, with \<open>i = 2 * j\<close>.\<close>

definition insert_all :: "os \<Rightarrow> nat \<Rightarrow> nat \<Rightarrow> mem \<Rightarrow> (addr \<times> elms \<times> mem) option" where
  "insert_all os od n s = do {
     (e1, s) \<leftarrow> allocate os (n div 2 * 8) s;
     (e2, s) \<leftarrow> allocate os (n div 2 * 8) s;
     for_up 0 ((n + 1) div 2) (insert_pair os od e1 e2 n) (0, zero_elms e1 (n div 2) ++ zero_elms e2 (n div 2), s) }"

text \<open>\<open>r = find(root, key, false, NULL); if (r) { e = r->value; if (e) sum += e->payload; }\<close>\<close>

definition lookup_add :: "mem \<Rightarrow> addr \<Rightarrow> elms \<Rightarrow> u64 \<Rightarrow> u64 \<Rightarrow> u64 option" where
  "lookup_add s root el key acc = do {
     (r, _) \<leftarrow> find_record s root key;
     if r = 0 then Some acc
     else do {
       c \<leftarrow> get_rec s r;
       let e = unat (rec_value c);
       if e = 0 then Some acc
       else do { payload \<leftarrow> el e; Some (acc + payload) } } }"

definition lookup_step :: "mem \<Rightarrow> addr \<Rightarrow> elms \<Rightarrow> u64 \<Rightarrow> u64 \<times> rng \<Rightarrow> (u64 \<times> rng) option" where
  "lookup_step s root el nelements = (\<lambda>(acc, x). do {
     let (rdn, x) = redisLrand48 x;
     if nelements = 0 then None
     else do {
       acc \<leftarrow> lookup_add s root el (rdn mod nelements) acc;
       acc \<leftarrow> lookup_add s root el (push_bit 2 (rdn + 1) mod nelements) acc;
       Some (acc, x) } })"

definition lookup_loop :: "mem \<Rightarrow> addr \<Rightarrow> elms \<Rightarrow> u64 \<Rightarrow> nat \<Rightarrow> rng \<Rightarrow> (u64 \<times> rng) option" where
  "lookup_loop s root el nelements cnt x = for_up 0 cnt (\<lambda>i. lookup_step s root el nelements) (0, x)"

definition ORDER :: nat where "ORDER = 16"

definition SEED :: u32 where "SEED = 0xcafebabe"

text \<open>\<open>real_main\<close> without OpenMP, after the command line: the sum that it prints.\<close>

definition btree_main :: "os \<Rightarrow> u64 \<Rightarrow> u64 \<Rightarrow> u64 option" where
  "btree_main os nelements nlookup = do {
     let x = redisSrand48 SEED;
     (root, el, s) \<leftarrow> insert_all os ORDER (unat nelements) init_mem;
     _ \<leftarrow> height s root;
     (acc, x) \<leftarrow> lookup_loop s root el nelements (unat nlookup) x;
     Some acc }"

text \<open>
  With OpenMP, each thread has its own generator, seeded with its number, and does its share of the
  iterations; the sums are added.
\<close>

definition thread_rng :: "nat \<Rightarrow> rng" where
  "thread_rng tid = (let v = 0xcafebabe + word_of_nat tid * 12345 :: u32 in (X0, LOW32 v, LOW32 (drop_bit 16 v)))"

fun omp_lookup :: "mem \<Rightarrow> addr \<Rightarrow> elms \<Rightarrow> u64 \<Rightarrow> nat \<Rightarrow> nat list \<Rightarrow> u64 option" where
  "omp_lookup s root el nelements tid [] = Some 0"
| "omp_lookup s root el nelements tid (cnt # cnts) = do {
     (acc, _) \<leftarrow> lookup_loop s root el nelements cnt (thread_rng tid);
     rest \<leftarrow> omp_lookup s root el nelements (Suc tid) cnts;
     Some (acc + rest) }"

section \<open>The generator is a linear congruence\<close>

lemma MASK_mask: "(MASK :: 'a::len word) = mask 16"
  by (simp add: MASK_def mask_eq_exp_minus_1)

lemma LOW32_take: "LOW32 l = ucast (take_bit 16 l)"
  by (simp add: LOW32_def MASK_mask take_bit_eq_mask)

lemma unat_LOW32: "unat (LOW32 l) = unat l mod 2 ^ 16"
proof -
  have "unat (LOW32 l) = unat l mod 65536 mod 2 ^ 64"
    by (simp add: LOW32_take unsigned_ucast_eq take_bit_eq_mod unat_mod)
  also have "\<dots> = unat l mod 65536" by (intro mod_less) (auto intro: less_le_trans [OF mod_less_divisor])
  finally show ?thesis by simp
qed

lemma unat_LOW: "unat (LOW v) = unat v mod 2 ^ 16"
  using unat_LOW32 [of "ucast v"]
  by (simp add: LOW_def LOW32_def unsigned_ucast_eq take_bit_eq_mod mod_mod_cancel)

lemma unat_HIGH32: "unat (HIGH32 l) = unat l div 2 ^ 16"
proof -
  have "take_bit 16 (signed_drop_bit 16 l) = drop_bit 16 l"
    by (rule bit_word_eqI) (auto simp: bit_simps dest: bit_imp_le_length)
  then have "HIGH32 l = ucast (drop_bit 16 l)" by (simp add: HIGH32_def LOW32_take)
  then have "unat (HIGH32 l) = unat l div 65536 mod 2 ^ 64"
    by (simp add: unsigned_ucast_eq drop_bit_eq_div take_bit_eq_mod unat_div)
  also have "\<dots> = unat l div 65536"
    using unsigned_less [of l, where 'a = nat] by (intro mod_less) (auto intro: le_less_trans [OF div_le_dividend])
  finally show ?thesis by simp
qed

lemma MUL_ok:
  assumes "unat x < 2 ^ 16" "unat y < 2 ^ 16"
  obtains z0 z1 where "MUL x y = (z0, z1)" "unat z0 = unat x * unat y mod 2 ^ 16" "unat z1 = unat x * unat y div 2 ^ 16"
proof -
  have lt: "unat x * unat y < 2 ^ 32" using mult_strict_mono [OF assms] by simp
  then have xy: "unat (x * y) = unat x * unat y" by (simp add: unat_word_ariths)
  then have "unat (ucast (x * y) :: u32) = unat x * unat y" using lt by (simp add: unsigned_ucast_eq take_bit_eq_mod)
  then show ?thesis by (intro that [of "LOW32 (ucast (x * y))" "HIGH32 (ucast (x * y))"]) (simp_all add: MUL_def Let_def unat_LOW32 unat_HIGH32)
qed

lemma CARRY_ok:
  assumes "unat x < 2 ^ 16" "unat y < 2 ^ 16"
  shows "unat (CARRY x y) = (unat x + unat y) div 2 ^ 16"
proof -
  have "unat (ucast x :: u32) = unat x" using assms(1) by (simp add: unsigned_ucast_eq take_bit_eq_mod)
  then have "sint (ucast x :: u32) = int (unat x)" "sint y = int (unat y)"
    using assms sint_small [of "ucast x :: u32"] sint_small [of y] by simp_all
  then have "unat (CARRY x y) = (if int (unat x) + int (unat y) > 65535 then 1 else 0)"
    by (simp only: CARRY_def) simp
  moreover have "(if int a + int b > 65535 then 1 else 0) = (a + b) div 2 ^ 16"
    if "a < 2 ^ 16" "b < 2 ^ 16" for a b :: nat using that by auto
  ultimately show ?thesis using assms by metis
qed

lemma ADDEQU_ok:
  assumes "unat x < 2 ^ 16" "unat y < 2 ^ 16"
  obtains x' z where "ADDEQU x y = (x', z)" "unat x' = (unat x + unat y) mod 2 ^ 16" "unat z = (unat x + unat y) div 2 ^ 16"
    "unat z \<le> 1"
proof -
  have "unat (x + y) = unat x + unat y" using assms by (simp add: unat_word_ariths)
  then show ?thesis
    using assms CARRY_ok [OF assms] by (intro that [of "LOW (x + y)" "CARRY x y"]) (auto simp: ADDEQU_def unat_LOW CARRY_def)
qed

text \<open>The state as one 48-bit number.\<close>

fun rng_ok :: "rng \<Rightarrow> bool" where
  "rng_ok (x0, x1, x2) \<longleftrightarrow> unat x0 < 2 ^ 16 \<and> unat x1 < 2 ^ 16 \<and> unat x2 < 2 ^ 16"

fun rng_val :: "rng \<Rightarrow> nat" where
  "rng_val (x0, x1, x2) = unat x0 + 2 ^ 16 * unat x1 + 2 ^ 32 * unat x2"

text \<open>The carry arithmetic of \<open>next\<close> on natural numbers, in base \<open>2 ^ 16\<close>.\<close>

lemma mul48:
  fixes x0 x1 x2 a0 a1 a2 c B :: nat
  assumes p: "a0 * x0 = d0 * B + m0" and q: "a0 * x1 = d1 * B + m1" and r: "a1 * x0 = d2 * B + m2"
    and s0: "m0 + c = cy0 * B + p0" and s1: "d0 + cy0 = cy1 * B + p1" and s2: "p1 + m1 = cy2 * B + p2"
    and s3: "p2 + m2 = cy3 * B + y1"
    and s4: "cy2 + cy1 + cy3 + d1 + d2 + a0 * x2 + a1 * x1 + a2 * x0 = K * B + y2"
    and lt: "p0 < B" "y1 < B" "y2 < B"
  shows "p0 + B * y1 + B * B * y2 =
    ((a0 + B * a1 + B * B * a2) * (x0 + B * x1 + B * B * x2) + c) mod (B * B * B)"
proof -
  have "a0 * x0 + c = (cy1 * B + p1) * B + p0"
    using p s0 arg_cong [OF s1, of "\<lambda>z. z * B"] by (simp add: algebra_simps)
  then have lo: "a0 * x0 + c + B * (a0 * x1 + a1 * x0) = p0 + B * y1 + B * B * (cy1 + cy2 + cy3 + d1 + d2)"
    using q r arg_cong [OF s2, of "\<lambda>z. z * B"] arg_cong [OF s3, of "\<lambda>z. z * B"] by (simp add: algebra_simps)
  have "(a0 + B * a1 + B * B * a2) * (x0 + B * x1 + B * B * x2) + c =
      (a0 * x0 + c + B * (a0 * x1 + a1 * x0)) + B * B * (a0 * x2 + a1 * x1 + a2 * x0) +
      B * B * B * (a1 * x2 + a2 * x1 + B * (a2 * x2))"
    by (simp add: algebra_simps)
  also have "\<dots> = p0 + B * y1 + B * B * (cy2 + cy1 + cy3 + d1 + d2 + a0 * x2 + a1 * x1 + a2 * x0) +
      B * B * B * (a1 * x2 + a2 * x1 + B * (a2 * x2))"
    unfolding lo by (simp add: algebra_simps)
  also have "\<dots> = p0 + B * y1 + B * B * y2 + B * B * B * (K + a1 * x2 + a2 * x1 + B * (a2 * x2))"
    unfolding s4 by (simp add: algebra_simps)
  finally have eq: "(a0 + B * a1 + B * B * a2) * (x0 + B * x1 + B * B * x2) + c =
      p0 + B * y1 + B * B * y2 + B * B * B * (K + a1 * x2 + a2 * x1 + B * (a2 * x2))" .
  have "p0 + B * y1 < B * B"
    using lt mult_le_mono2 [of "Suc y1" B B] by simp
  moreover have "B * B * Suc y2 \<le> B * B * B" using lt(3) by (intro mult_le_mono2) simp
  ultimately have "p0 + B * y1 + B * B * y2 < B * B * B" by simp
  then show ?thesis unfolding eq by simp
qed

lemma next_x_ok:
  assumes "rng_ok x"
  shows "rng_ok (next_x x) \<and> rng_val (next_x x) = (0x5DEECE66D * rng_val x + 0xB) mod 2 ^ 48"
proof -
  obtain x0 x1 x2 where x: "x = (x0, x1, x2)" by (cases x) auto
  have b: "unat x0 < 2 ^ 16" "unat x1 < 2 ^ 16" "unat x2 < 2 ^ 16" using assms x by auto
  have A: "unat A0 = 0xE66D" "unat A1 = 0xDEEC" "unat A2 = 5" "unat C_add = 0xB"
    by (simp_all add: A0_def A1_def A2_def C_add_def)
  have dm: "n = n div 2 ^ 16 * 2 ^ 16 + n mod 2 ^ 16" for n :: nat by simp
  have mb: "n mod 2 ^ 16 < (2 ^ 16 :: nat)" for n by simp
  have db: "m * n div 2 ^ 16 < (2 ^ 16 :: nat)" if "m < 2 ^ 16" "n < 2 ^ 16" for m n
    using mult_strict_mono [OF that] by (simp add: div_less_iff_less_mult)
  obtain p0 p1 where p: "MUL A0 x0 = (p0, p1)" "unat p0 = unat A0 * unat x0 mod 2 ^ 16" "unat p1 = unat A0 * unat x0 div 2 ^ 16"
    using MUL_ok [of A0 x0] A b by auto
  obtain q0 q1 where q: "MUL A0 x1 = (q0, q1)" "unat q0 = unat A0 * unat x1 mod 2 ^ 16" "unat q1 = unat A0 * unat x1 div 2 ^ 16"
    using MUL_ok [of A0 x1] A b by auto
  obtain r0 r1 where r: "MUL A1 x0 = (r0, r1)" "unat r0 = unat A1 * unat x0 mod 2 ^ 16" "unat r1 = unat A1 * unat x0 div 2 ^ 16"
    using MUL_ok [of A1 x0] A b by auto
  have lt: "unat p0 < 2 ^ 16" "unat p1 < 2 ^ 16" "unat q0 < 2 ^ 16" "unat q1 < 2 ^ 16" "unat r0 < 2 ^ 16" "unat r1 < 2 ^ 16"
    unfolding p(2,3) q(2,3) r(2,3) by (rule mb db; use A b in simp)+
  obtain p0' cy0 where s1: "ADDEQU p0 C_add = (p0', cy0)" "unat p0' = (unat p0 + unat C_add) mod 2 ^ 16"
    "unat cy0 = (unat p0 + unat C_add) div 2 ^ 16" "unat cy0 \<le> 1"
    using ADDEQU_ok [of p0 C_add] lt A by auto
  obtain p1' cy1 where s2: "ADDEQU p1 cy0 = (p1', cy1)" "unat p1' = (unat p1 + unat cy0) mod 2 ^ 16"
    "unat cy1 = (unat p1 + unat cy0) div 2 ^ 16" "unat cy1 \<le> 1"
    using ADDEQU_ok [of p1 cy0] lt s1(4) by auto
  obtain p1'' cy2 where s3: "ADDEQU p1' q0 = (p1'', cy2)" "unat p1'' = (unat p1' + unat q0) mod 2 ^ 16"
    "unat cy2 = (unat p1' + unat q0) div 2 ^ 16" "unat cy2 \<le> 1"
    using ADDEQU_ok [of p1' q0] lt s2(2) by auto
  define cy3 where "cy3 = CARRY p1'' r0"
  have lt': "unat p1'' < 2 ^ 16" unfolding s3(2) by (rule mb)
  have cy3: "unat cy3 = (unat p1'' + unat r0) div 2 ^ 16"
    using CARRY_ok [OF lt' lt(5)] by (simp add: cy3_def)
  let ?S = "cy2 + cy1 + cy3 + q1 + r1 + A0 * x2 + A1 * x1 + A2 * x0"
  have y: "next_x x = (LOW p0', LOW (p1'' + r0), LOW ?S)"
    by (simp add: next_x_def x p(1) q(1) r(1) s1(1) s2(1) s3(1) cy3_def)
  let ?T = "unat cy2 + unat cy1 + unat cy3 + unat q1 + unat r1 + unat A0 * unat x2 + unat A1 * unat x1 + unat A2 * unat x0"
  have "unat ?S = ?T mod 2 ^ 64" by (simp add: unat_word_ariths mod_simps)
  then have y2: "unat (LOW ?S) = ?T mod 2 ^ 16" by (simp add: unat_LOW mod_mod_cancel)
  have "unat (p1'' + r0) = unat p1'' + unat r0" using lt' lt(5) by (simp add: unat_word_ariths)
  then have y1: "unat (LOW (p1'' + r0)) = (unat p1'' + unat r0) mod 2 ^ 16" by (simp add: unat_LOW)
  have y0: "unat (LOW p0') = unat p0'" by (simp add: unat_LOW s1(2))
  have "rng_val (next_x x) = unat p0' + 2 ^ 16 * unat (LOW (p1'' + r0)) + 2 ^ 16 * 2 ^ 16 * unat (LOW ?S)"
    by (simp add: y y0)
  also have "\<dots> = ((unat A0 + 2 ^ 16 * unat A1 + 2 ^ 16 * 2 ^ 16 * unat A2) *
      (unat x0 + 2 ^ 16 * unat x1 + 2 ^ 16 * 2 ^ 16 * unat x2) + unat C_add) mod (2 ^ 16 * 2 ^ 16 * 2 ^ 16)"
  proof (rule mul48)
    show "unat A0 * unat x0 = unat p1 * 2 ^ 16 + unat p0" "unat A0 * unat x1 = unat q1 * 2 ^ 16 + unat q0"
      "unat A1 * unat x0 = unat r1 * 2 ^ 16 + unat r0" unfolding p(2,3) q(2,3) r(2,3) by (rule dm)+
    show "unat p0 + unat C_add = unat cy0 * 2 ^ 16 + unat p0'" unfolding s1(2,3) by (rule dm)
    show "unat p1 + unat cy0 = unat cy1 * 2 ^ 16 + unat p1'" unfolding s2(2,3) by (rule dm)
    show "unat p1' + unat q0 = unat cy2 * 2 ^ 16 + unat p1''" unfolding s3(2,3) by (rule dm)
    show "unat p1'' + unat r0 = unat cy3 * 2 ^ 16 + unat (LOW (p1'' + r0))" unfolding y1 cy3 by (rule dm)
    show "?T = ?T div 2 ^ 16 * 2 ^ 16 + unat (LOW ?S)" unfolding y2 by (rule dm)
    show "unat p0' < 2 ^ 16" "unat (LOW (p1'' + r0)) < 2 ^ 16" "unat (LOW ?S) < 2 ^ 16"
      unfolding s1(2) y1 y2 by (rule mb)+
  qed
  finally have "rng_val (next_x x) = (0x5DEECE66D * rng_val x + 0xB) mod 2 ^ 48" by (simp add: A x)
  moreover have "rng_ok (next_x x)" by (simp add: y unat_LOW)
  ultimately show ?thesis by blast
qed

lemma redisLrand48_ok:
  assumes "rng_ok x"
  shows "unat (fst (redisLrand48 x)) = rng_val (next_x x) div 2 ^ 17 \<and> snd (redisLrand48 x) = next_x x"
proof -
  obtain x0 x1 x2 where x: "next_x x = (x0, x1, x2)" by (cases "next_x x") auto
  have b: "unat x0 < 2 ^ 16" "unat x1 < 2 ^ 16" "unat x2 < 2 ^ 16" using next_x_ok [OF assms] x by auto
  have "unat (push_bit 15 x2) = 2 ^ 15 * unat x2"
    using b(3) by (simp add: push_bit_eq_mult unat_word_ariths)
  moreover have "unat (drop_bit 1 x1) = unat x1 div 2" by (simp add: drop_bit_eq_div unat_div)
  ultimately have "unat (push_bit 15 x2 + drop_bit 1 x1) = 2 ^ 15 * unat x2 + unat x1 div 2"
    using b by (simp add: unat_word_ariths)
  moreover have "(unat x0 + 2 ^ 16 * unat x1 + 2 ^ 32 * unat x2) div 2 ^ 17 = 2 ^ 15 * unat x2 + unat x1 div 2"
  proof -
    have "(unat x0 + 2 ^ 16 * unat x1 + 2 ^ 32 * unat x2) div 2 ^ 16 = unat x1 + 2 ^ 16 * unat x2"
      using b(1) by simp
    then have "(unat x0 + 2 ^ 16 * unat x1 + 2 ^ 32 * unat x2) div 2 ^ 16 div 2 = 2 ^ 15 * unat x2 + unat x1 div 2" by simp
    then show ?thesis by (simp only: div_mult2_eq [symmetric]) simp
  qed
  ultimately show ?thesis by (simp add: redisLrand48_def x)
qed

section \<open>The insertion loop\<close>

text \<open>Where the element of a key lives, and which keys the first \<open>j\<close> rounds insert.\<close>

definition key_addr :: "nat \<Rightarrow> addr \<Rightarrow> addr \<Rightarrow> nat \<Rightarrow> addr" where
  "key_addr n e1 e2 k = (if even k then e1 + 8 * (k div 2) else e2 + 8 * ((n - 1 - k) div 2))"

definition loaded :: "nat \<Rightarrow> nat \<Rightarrow> nat set" where
  "loaded n j = {k. k < n \<and> (if even k then k div 2 < j else (n - 1 - k) div 2 < j)}"

lemma loaded_0: "loaded n 0 = {}"
  by (auto simp: loaded_def)

lemma loaded_all: "even n \<Longrightarrow> loaded n (n div 2) = {..<n}"
  by (auto simp: loaded_def elim!: evenE oddE)

lemma loaded_Suc:
  assumes "even n" "j < n div 2"
  shows "loaded n (Suc j) = insert (n - 2 * j - 1) (insert (2 * j) (loaded n j))"
    "2 * j \<notin> loaded n j" "n - 2 * j - 1 \<notin> insert (2 * j) (loaded n j)"
    "2 * j < n" "key_addr n e1 e2 (2 * j) = e1 + 8 * j" "key_addr n e1 e2 (n - 2 * j - 1) = e2 + 8 * j"
proof -
  obtain b where n: "n = 2 * b" "j < b" using assms by auto
  have ev: "2 * c \<in> loaded n i \<longleftrightarrow> c < b \<and> c < i" for c i by (simp add: loaded_def n)
  have od: "2 * c + 1 \<in> loaded n i \<longleftrightarrow> c < b \<and> b - 1 - c < i" for c i
  proof -
    have "(n - 1 - (2 * c + 1)) div 2 = b - 1 - c" using n by simp
    then show ?thesis using n by (auto simp: loaded_def)
  qed
  have k2: "n - 2 * j - 1 = 2 * (b - 1 - j) + 1" using n by simp
  show "loaded n (Suc j) = insert (n - 2 * j - 1) (insert (2 * j) (loaded n j))"
  proof (rule set_eqI)
    fix k
    show "k \<in> loaded n (Suc j) \<longleftrightarrow> k \<in> insert (n - 2 * j - 1) (insert (2 * j) (loaded n j))"
    proof (cases "even k")
      case True
      then obtain c where "k = 2 * c" by blast
      moreover have "2 * c \<noteq> 2 * (b - 1 - j) + 1" by presburger
      ultimately show ?thesis unfolding k2 insert_iff using n(2) ev [of c "Suc j"] ev [of c j] by auto
    next
      case False
      then obtain c where "k = 2 * c + 1" using oddE by blast
      moreover have "2 * c + 1 \<noteq> 2 * j" by presburger
      ultimately show ?thesis unfolding k2 insert_iff using n(2) od [of c "Suc j"] od [of c j] by auto
    qed
  qed
  show "2 * j \<notin> loaded n j" "2 * j < n" using n(2) ev [of j j] n(1) by auto
  show "n - 2 * j - 1 \<notin> insert (2 * j) (loaded n j)"
    unfolding k2 insert_iff using n od [of "b - 1 - j" j] by simp presburger
  have "odd (n - 2 * j - 1)" "(n - 1 - (n - 2 * j - 1)) div 2 = j" unfolding k2 using n by simp_all
  then show "key_addr n e1 e2 (2 * j) = e1 + 8 * j" "key_addr n e1 e2 (n - 2 * j - 1) = e2 + 8 * j"
    by (simp_all add: key_addr_def)
qed

lemma key_addr_inj:
  assumes "even n" "e1 + n div 2 * 8 \<le> e2 \<or> e2 + n div 2 * 8 \<le> e1" "k < n" "k' < n" "key_addr n e1 e2 k = key_addr n e1 e2 k'"
  shows "k = k'"
  using assms by (auto simp: key_addr_def elim!: evenE oddE split: if_splits)

definition load_inv :: "nat \<Rightarrow> nat \<Rightarrow> addr \<Rightarrow> addr \<Rightarrow> nat \<Rightarrow> addr \<times> elms \<times> mem \<Rightarrow> bool" where
  "load_inv od n e1 e2 j = (\<lambda>(root, el, s). \<exists>es. btree od s root es \<and> rec_slab.ok s (snd ` set es) \<and>
     fst ` set es = word_of_nat ` loaded n j \<and>
     (\<forall>(k, r)\<in>set es. recs s r = Some (Value (word_of_nat (key_addr n e1 e2 (unat k))))) \<and>
     (\<forall>k\<in>loaded n j. el (key_addr n e1 e2 k) = Some (word_of_nat k)) \<and>
     dom el = (\<lambda>j. e1 + 8 * j) ` {..<n div 2} \<union> (\<lambda>j. e2 + 8 * j) ` {..<n div 2})"

lemma fresh_word:
  assumes "fst ` set es = (word_of_nat :: nat \<Rightarrow> u64) ` K" "K \<subseteq> {..<2 ^ 64}" "k < 2 ^ 64" "k \<notin> K"
  shows "map_of es (word_of_nat k) = None"
proof -
  have "(word_of_nat k :: u64) \<noteq> word_of_nat k'" if "k' \<in> K" for k'
  proof
    have "k' < 2 ^ 64" using assms(2) that by auto
    moreover assume "(word_of_nat k :: u64) = word_of_nat k'"
    ultimately have "k = k'"
      using unat_of_nat_small [of k, where 'a = 64] unat_of_nat_small [of k', where 'a = 64] assms(3) by simp
    with that assms(4) show False by blast
  qed
  then have "word_of_nat k \<notin> fst ` set es" unfolding assms(1) by blast
  then show ?thesis by (simp add: map_of_eq_None_iff)
qed

lemma insert_pair_ok:
  assumes os: "good_os os" and od: "3 \<le> od" and n: "even n" "n \<le> 2 ^ 64"
    and dj: "e1 + n div 2 * 8 \<le> e2 \<or> e2 + n div 2 * 8 \<le> e1"
    and j: "j < n div 2" and inv: "load_inv od n e1 e2 j st"
  shows "\<exists>st'. insert_pair os od e1 e2 n j st = Some st' \<and> load_inv od n e1 e2 (Suc j) st'"
proof -
  obtain root el s where st: "st = (root, el, s)" by (cases st) auto
  from inv st obtain es where b: "btree od s root es" and R: "rec_slab.ok s (snd ` set es)"
    and K: "fst ` set es = word_of_nat ` loaded n j"
    and V: "\<forall>(k, r)\<in>set es. recs s r = Some (Value (word_of_nat (key_addr n e1 e2 (unat k))))"
    and E: "\<forall>k\<in>loaded n j. el (key_addr n e1 e2 k) = Some (word_of_nat k)"
    and D: "dom el = (\<lambda>j. e1 + 8 * j) ` {..<n div 2} \<union> (\<lambda>j. e2 + 8 * j) ` {..<n div 2}"
    unfolding load_inv_def by auto
  let ?k1 = "2 * j" and ?k2 = "n - 2 * j - 1" and ?a1 = "e1 + 8 * j" and ?a2 = "e2 + 8 * j"
  note L = loaded_Suc [OF n(1) j]
  have k: "?k1 < 2 ^ 64" "?k2 < 2 ^ 64" "?k1 < n" "?k2 < n" using L(4) n(2) by auto
  have "?a1 \<in> dom el" "?a2 \<in> dom el" unfolding D using j by auto
  then obtain v1 v2 where el: "el ?a1 = Some v1" "el ?a2 = Some v2" by auto
  have a12: "?a1 \<noteq> ?a2" using j dj by auto
  let ?el = "el(?a1 \<mapsto> word_of_nat ?k1, ?a2 \<mapsto> word_of_nat ?k2)"
  obtain r1 s1 where s1: "make_record os (word_of_nat ?a1) s = Some (r1, s1)" "r1 \<noteq> 0" "r1 \<notin> snd ` set es"
    "rec_slab.ok s1 (insert r1 (snd ` set es))" "recs s1 r1 = Some (Value (word_of_nat ?a1))"
    "\<And>x. x \<in> snd ` set es \<Longrightarrow> recs s1 x = recs s x" "nodes s1 = nodes s" "free_nodes s1 = free_nodes s"
    "in_regions (regions s) \<subseteq> in_regions (regions s1)"
    using make_record_fresh [OF os R, of "word_of_nat ?a1"] by metis
  obtain r2 s2 where s2: "make_record os (word_of_nat ?a2) s1 = Some (r2, s2)" "r2 \<notin> insert r1 (snd ` set es)"
    "rec_slab.ok s2 (insert r2 (insert r1 (snd ` set es)))" "recs s2 r2 = Some (Value (word_of_nat ?a2))"
    "\<And>x. x \<in> insert r1 (snd ` set es) \<Longrightarrow> recs s2 x = recs s1 x" "nodes s2 = nodes s1" "free_nodes s2 = free_nodes s1"
    "in_regions (regions s1) \<subseteq> in_regions (regions s2)"
    using make_record_fresh [OF os s1(4), of "word_of_nat ?a2"] by metis
  have b2: "btree od s2 root es"
    using btree_frame [OF btree_frame [OF b s1(7-9)] s2(6-8)] .
  have sub: "loaded n j \<subseteq> {..<2 ^ 64}" using n(2) by (auto simp: loaded_def)
  obtain root3 s3 where s3: "insert_unique os od root (word_of_nat ?k1) r1 s2 = Some (root3, s3)"
    "btree od s3 root3 (ins_entry (word_of_nat ?k1) r1 es)" "keeps s2 s3"
    using insert_unique_inserted [OF os od b2 fresh_word [OF K sub k(1) L(2)], of r1] by blast
  let ?es3 = "ins_entry (word_of_nat ?k1) r1 es"
  have K3: "fst ` set ?es3 = word_of_nat ` insert ?k1 (loaded n j)" by (simp add: set_ins_entry K)
  have sub3: "insert ?k1 (loaded n j) \<subseteq> {..<2 ^ 64}" using sub k(1) by auto
  obtain root4 s4 where s4: "insert_unique os od root3 (word_of_nat ?k2) r2 s3 = Some (root4, s4)"
    "btree od s4 root4 (ins_entry (word_of_nat ?k2) r2 ?es3)" "keeps s3 s4"
    using insert_unique_inserted [OF os od s3(2) fresh_word [OF K3 sub3 k(2) L(3)], of r2] by blast
  let ?es4 = "ins_entry (word_of_nat ?k2) r2 ?es3"
  have run: "insert_pair os od e1 e2 n j st = Some (root4, ?el, s4)"
    using s1(1) s2(1) s3(1) s4(1) el a12 by (simp add: insert_pair_def st set_elm_def Let_def)
  have kp: "keeps s2 s4" using s3(3) s4(3) by (rule keeps_trans)
  have recs4: "recs s4 = recs s2" using kp by (simp add: keeps_def)
  have "rec_slab.ok s4 (snd ` set ?es4)" using rec_slab_keeps [OF kp s2(3)] by (simp add: set_ins_entry)
  moreover have "fst ` set ?es4 = word_of_nat ` loaded n (Suc j)" by (simp add: set_ins_entry L(1) K)
  moreover have "recs s4 r = Some (Value (word_of_nat (key_addr n e1 e2 (unat k))))" if "(k, r) \<in> set ?es4" for k r
  proof -
    from that consider "k = word_of_nat ?k2" "r = r2" | "k = word_of_nat ?k1" "r = r1" | "(k, r) \<in> set es"
      by (auto simp: set_ins_entry)
    then show ?thesis
    proof cases
      case 1
      then show ?thesis using s2(4) unat_of_nat_small [of ?k2, where 'a = 64] k(2) L(6) by (simp add: recs4)
    next
      case 2
      then show ?thesis using s2(5) s1(5) unat_of_nat_small [of ?k1, where 'a = 64] k(1) L(5) by (simp add: recs4)
    next
      case 3
      then have "r \<in> snd ` set es" by force
      then show ?thesis using 3 V s1(6) s2(5) by (auto simp: recs4)
    qed
  qed
  moreover have "?el (key_addr n e1 e2 k) = Some (word_of_nat k)" if k': "k \<in> loaded n (Suc j)" for k
  proof -
    have inj: "key_addr n e1 e2 k = key_addr n e1 e2 k' \<Longrightarrow> k = k'" if "k' < n" for k'
      using key_addr_inj [OF n(1) dj _ that] k' by (auto simp: loaded_def)
    have "key_addr n e1 e2 k = ?a1 \<Longrightarrow> k = ?k1" "key_addr n e1 e2 k = ?a2 \<Longrightarrow> k = ?k2"
      using inj [OF k(3)] inj [OF k(4)] L(5,6) by simp_all
    then show ?thesis using k' E a12 L(5) [of e1 e2] L(6) [of e1 e2] unfolding L(1) by auto
  qed
  moreover have "dom ?el = dom el" using el by auto
  ultimately have "load_inv od n e1 e2 (Suc j) (root4, ?el, s4)"
    unfolding load_inv_def prod.case using s4(2) D by (intro exI [of _ ?es4]) auto
  with run show ?thesis by blast
qed

lemma dom_zero_elms: "dom (zero_elms base k) = (\<lambda>j. base + 8 * j) ` {..<k}"
  by (auto simp: zero_elms_def split: if_splits)

lemma insert_all_ok:
  assumes os: "good_os os" and od: "3 \<le> od" and n: "even n" "0 < n" "n \<le> 2 ^ 64"
    and e1: "mmap_os os [] (n div 2 * 8) = Some e1" and e2: "mmap_os os [(e1, n div 2 * 8)] (n div 2 * 8) = Some e2"
  shows "\<exists>st. insert_all os od n init_mem = Some st \<and> load_inv od n e1 e2 (n div 2) st"
proof -
  have pos: "0 < n div 2 * 8" using n by auto
  with os e1 e2 have dj: "e1 + n div 2 * 8 \<le> e2 \<or> e2 + n div 2 * 8 \<le> e1"
    unfolding good_os_def by (metis (no_types, lifting) case_prodD list.set_intros(1) option.inject)
  define s2 where "s2 = init_mem\<lparr>allocator_stat := word_of_nat (n div 2 * 8) + word_of_nat (n div 2 * 8),
    regions := [(e2, n div 2 * 8), (e1, n div 2 * 8)]\<rparr>"
  let ?st = "(0, zero_elms e1 (n div 2) ++ zero_elms e2 (n div 2), s2)"
  have "node_slab.ok s2 {}" "rec_slab.ok s2 {}"
    by (simp_all add: s2_def node_slab.ok_def rec_slab.ok_def slab_ok_def init_mem_def exI [of _ "[]"])
  then have "load_inv od n e1 e2 0 ?st"
    unfolding load_inv_def prod.case by (intro exI [of _ "[]"]) (auto simp: btree_def loaded_0 dom_zero_elms)
  then have "\<exists>st. for_up 0 (n div 2) (insert_pair os od e1 e2 n) ?st = Some st \<and> load_inv od n e1 e2 (n div 2) st"
    using insert_pair_ok [OF os od n(1,3) dj] by (intro for_up_rule) blast+
  moreover have "insert_all os od n init_mem = for_up 0 (n div 2) (insert_pair os od e1 e2 n) ?st"
    using e1 e2 n(1) by (simp add: insert_all_def allocate_def init_mem_def s2_def)
  ultimately show ?thesis by simp
qed

section \<open>The lookups\<close>

lemma lookup_add_ok:
  assumes inv: "load_inv od n e1 e2 (n div 2) (root, el, s)" and n: "even n" "n \<le> 2 ^ 64"
    and e: "e1 \<noteq> 0" "e2 \<noteq> 0" "e1 + n div 2 * 8 \<le> 2 ^ 64" "e2 + n div 2 * 8 \<le> 2 ^ 64" and k: "unat key < n"
  shows "lookup_add s root el key acc = Some (acc + key)"
proof -
  from inv obtain es where b: "btree od s root es" and R: "rec_slab.ok s (snd ` set es)"
    and K: "fst ` set es = word_of_nat ` loaded n (n div 2)"
    and V: "\<forall>(k, r)\<in>set es. recs s r = Some (Value (word_of_nat (key_addr n e1 e2 (unat k))))"
    and E: "\<forall>k\<in>loaded n (n div 2). el (key_addr n e1 e2 k) = Some (word_of_nat k)"
    unfolding load_inv_def by auto
  have kl: "unat key \<in> loaded n (n div 2)" using k loaded_all [OF n(1)] by simp
  then have "word_of_nat (unat key) \<in> fst ` set es" unfolding K by (rule imageI)
  then have "key \<in> fst ` set es" by simp
  then have "map_of es key \<noteq> None" by (simp add: map_of_eq_None_iff)
  then obtain r where r: "map_of es key = Some r" by auto
  then have in_es: "(key, r) \<in> set es" by (rule map_of_SomeD)
  then have "r \<in> snd ` set es" by force
  with R have "r \<noteq> 0" by (auto simp: rec_slab.ok_def slab_ok_def)
  let ?a = "key_addr n e1 e2 (unat key)"
  have "?a < 2 ^ 64" "?a \<noteq> 0" using e k n by (auto simp: key_addr_def)
  then have "unat (word_of_nat ?a :: u64) = ?a" by (simp add: unat_of_nat)
  moreover have "recs s r = Some (Value (word_of_nat ?a))" using V in_es by auto
  moreover have "el ?a = Some key" using E kl by auto
  ultimately show ?thesis
    using btree_find [OF b, of key] r \<open>r \<noteq> 0\<close> \<open>?a \<noteq> 0\<close> by (auto simp: lookup_add_def get_rec_def)
qed

text \<open>What one iteration adds, as a function of the state of the generator.\<close>

definition step_keys :: "u64 \<Rightarrow> rng \<Rightarrow> u64" where
  "step_keys nelements x = (let rdn = fst (redisLrand48 x) in rdn mod nelements + push_bit 2 (rdn + 1) mod nelements)"

lemma snd_redisLrand48: "snd (redisLrand48 x) = next_x x"
  by (auto simp: redisLrand48_def Let_def split: prod.splits)

lemma unat_mod_less: "n \<noteq> 0 \<Longrightarrow> unat (x mod n :: 'a::len word) < unat n"
  by (simp add: unat_mod unat_gt_0)

lemma lookup_loop_ok:
  assumes inv: "load_inv od (unat n) e1 e2 (unat n div 2) (root, el, s)" and n: "even (unat n)" "n \<noteq> 0"
    and e: "e1 \<noteq> 0" "e2 \<noteq> 0" "e1 + unat n div 2 * 8 \<le> 2 ^ 64" "e2 + unat n div 2 * 8 \<le> 2 ^ 64"
  shows "lookup_loop s root el n cnt x = Some (\<Sum>i<cnt. step_keys n ((next_x ^^ i) x), (next_x ^^ cnt) x)"
proof -
  have le: "unat n \<le> 2 ^ 64" using unsigned_less [of n, where 'a = nat] by simp
  have add: "lookup_add s root el key acc = Some (acc + key)" if "unat key < unat n" for key acc
    by (rule lookup_add_ok [OF inv n(1) le e that])
  have "\<exists>st. lookup_loop s root el n cnt x = Some st \<and> st = (\<Sum>i<cnt. step_keys n ((next_x ^^ i) x), (next_x ^^ cnt) x)"
    unfolding lookup_loop_def
  proof (rule for_up_rule)
    fix i and st :: "u64 \<times> rng"
    assume st: "st = (\<Sum>i<i. step_keys n ((next_x ^^ i) x), (next_x ^^ i) x)"
    let ?x = "(next_x ^^ i) x"
    obtain rdn where rdn: "redisLrand48 ?x = (rdn, next_x ?x)" using snd_redisLrand48 [of ?x] by (metis prod.collapse)
    have "unat (rdn mod n) < unat n" "unat (push_bit 2 (rdn + 1) mod n) < unat n" using unat_mod_less [OF n(2)] by blast+
    then have "lookup_step s root el n st = Some ((\<Sum>i<i. step_keys n ((next_x ^^ i) x)) + rdn mod n + push_bit 2 (rdn + 1) mod n, next_x ?x)"
      using n(2) by (simp add: lookup_step_def st rdn add)
    then show "\<exists>s'. lookup_step s root el n st = Some s' \<and> s' = (\<Sum>i<Suc i. step_keys n ((next_x ^^ i) x), (next_x ^^ Suc i) x)"
      by (simp add: step_keys_def rdn add.assoc)
  qed simp_all
  then show ?thesis by metis
qed

lemma load_inv_root:
  assumes "load_inv od n e1 e2 (n div 2) (root, el, s)" "even n" "0 < n"
  shows "\<exists>h. height s root = Some h"
proof -
  from assms(1) obtain es where b: "btree od s root es" and K: "fst ` set es = word_of_nat ` loaded n (n div 2)"
    unfolding load_inv_def by auto
  have "es \<noteq> []" using K loaded_all [OF assms(2)] assms(3) by auto
  then have "root \<noteq> 0" using b btree_null(1) [of od s es] by metis
  with b obtain t h where t: "tree_ok od s t" "root = root_of t" "rbal od h t" by (auto simp: btree_def tree_ok_def)
  then have "leftmost s 0 root = Some (hd (leaves t), h)"
    using leftmost_ok [OF _ rbal_uniform [OF t(3)], of od s 0 0] by (simp add: tree_ok_def)
  then show ?thesis by (simp add: height_def)
qed

section \<open>Properties\<close>

text \<open>
  C6: The scattered insertion followed by the lookups: every key below \<open>nelements\<close> is in the tree, every
  lookup finds the element whose payload is the key, and the printed sum is the sum, modulo
  \<open>2 ^ 64\<close>, of the keys drawn from the generator. No allocation, insertion or lookup fails.
\<close>

theorem btree_main_sum:
  assumes "good_os os" "even (unat nelements)" "nelements \<noteq> 0"
    and "mmap_os os [] (unat nelements div 2 * 8) = Some e1"
    and "mmap_os os [(e1, unat nelements div 2 * 8)] (unat nelements div 2 * 8) = Some e2"
    and "e1 + unat nelements div 2 * 8 \<le> 2 ^ 64" "e2 + unat nelements div 2 * 8 \<le> 2 ^ 64"
  shows "btree_main os nelements nlookup =
    Some (\<Sum>i<unat nlookup. step_keys nelements ((next_x ^^ i) (redisSrand48 SEED)))"
proof -
  let ?n = "unat nelements"
  have n: "0 < ?n" "?n \<le> 2 ^ 64" "3 \<le> ORDER" using assms(3) unsigned_less [of nelements, where 'a = nat]
    by (auto simp: ORDER_def unat_gt_0)
  have "0 < ?n div 2 * 8" using n(1) assms(2) by auto
  then have e: "e1 \<noteq> 0" "e2 \<noteq> 0" using assms(1,4,5) unfolding good_os_def by (metis option.inject)+
  obtain root el s where st: "insert_all os ORDER ?n init_mem = Some (root, el, s)"
    "load_inv ORDER ?n e1 e2 (?n div 2) (root, el, s)"
    using insert_all_ok [OF assms(1) n(3) assms(2) n(1,2) assms(4,5)] by (metis prod_cases3)
  obtain h where "height s root = Some h" using load_inv_root [OF st(2) assms(2) n(1)] by blast
  with st(1) lookup_loop_ok [OF st(2) assms(2,3) e assms(6,7)] show ?thesis
    by (simp add: btree_main_def Let_def)
qed

theorem btree_main_sum_witness:
  "btree_main sample_os 6 2 = Some (\<Sum>i<unat (2 :: u64). step_keys 6 ((next_x ^^ i) (redisSrand48 SEED)))"
proof (rule btree_main_sum [OF sample_os_good])
  show "mmap_os sample_os [] (unat (6 :: u64) div 2 * 8) = Some 1"
    "mmap_os sample_os [(1, unat (6 :: u64) div 2 * 8)] (unat (6 :: u64) div 2 * 8) = Some 26"
    by (simp_all add: sample_os_def)
qed simp_all

text \<open>
  C7: The generator is the 48-bit linear congruential generator with multiplier \<open>0x5DEECE66D\<close> and
  increment \<open>0xB\<close>: the three 16-bit digits stay in range, one step is
  \<open>X := (0x5DEECE66D * X + 0xB) mod 2 ^ 48\<close>, and \<open>redisLrand48\<close> returns the upper 31 bits.
\<close>

theorem redisLrand48_lcg:
  assumes "rng_ok x"
  shows "rng_ok (snd (redisLrand48 x)) \<and>
    rng_val (snd (redisLrand48 x)) = (0x5DEECE66D * rng_val x + 0xB) mod 2 ^ 48 \<and>
    unat (fst (redisLrand48 x)) = rng_val (snd (redisLrand48 x)) div 2 ^ 17"
  using next_x_ok [OF assms] redisLrand48_ok [OF assms] by simp

theorem redisLrand48_lcg_witness:
  "rng_ok (snd (redisLrand48 (X0, 0xbabe, 0xcafe))) \<and>
    rng_val (snd (redisLrand48 (X0, 0xbabe, 0xcafe))) = (0x5DEECE66D * rng_val (X0, 0xbabe, 0xcafe) + 0xB) mod 2 ^ 48 \<and>
    unat (fst (redisLrand48 (X0, 0xbabe, 0xcafe))) = rng_val (snd (redisLrand48 (X0, 0xbabe, 0xcafe))) div 2 ^ 17"
  by (rule redisLrand48_lcg) (simp add: X0_def)

end
