(* ===== verification/BtreeDelete.thy ===== *)
theory BtreeDelete
  imports BtreeQuery
begin

text \<open>
  The rest of \<open>btree.c\<close>: bulk loading, deletion (removal of an entry, coalescing, redistribution,
  the walk up) and the destruction of a tree, with the properties of the free lists and of the queue.
\<close>

section \<open>Bulk loading\<close>

text \<open>The inner \<open>while\<close> that fills one leaf: \<open>count\<close>, \<open>key_idx\<close> and the leaf.\<close>

definition fill_leaf :: "nat \<Rightarrow> nat \<Rightarrow> u64 list \<Rightarrow> addr list \<Rightarrow> addr \<Rightarrow> nat \<times> mem \<Rightarrow> (nat \<times> nat \<times> mem) option" where
  "fill_leaf kpl n ks rs leaf = (\<lambda>(key_idx, s).
     while_do (\<lambda>(count, key_idx, s). Some (count < kpl \<and> key_idx < n))
       (\<lambda>(count, key_idx, s). do {
          k \<leftarrow> aget ks key_idx;
          s \<leftarrow> mod_node (put_key count k) leaf s;
          r \<leftarrow> aget rs key_idx;
          s \<leftarrow> mod_node (put_ptr count r) leaf s;
          Some (Suc count, Suc key_idx, s) }) (0, key_idx, s))"

definition bulk_leaves ::
  "os \<Rightarrow> nat \<Rightarrow> u64 list \<Rightarrow> addr list \<Rightarrow> nat \<Rightarrow> nat \<Rightarrow> mem \<Rightarrow> (addr list \<times> mem) option" where
  "bulk_leaves os od ks rs n num_leaves s = do {
     (leaves, key_idx, s) \<leftarrow> for_up 0 num_leaves (\<lambda>i (leaves, key_idx, s). do {
        (a, s) \<leftarrow> make_leaf os od s;
        leaves \<leftarrow> aset leaves i a;
        (count, key_idx, s) \<leftarrow> fill_leaf (od - 1) n ks rs a (key_idx, s);
        s \<leftarrow> mod_node (\<lambda>m. Some (m\<lparr>num_keys := count\<rparr>)) a s;
        s \<leftarrow> (if 0 < i then do { prev \<leftarrow> aget leaves (i - 1); mod_node (put_ptr (od - 1) a) prev s } else Some s);
        Some (leaves, key_idx, s) }) (replicate num_leaves 0, 0, s);
     last \<leftarrow> aget leaves (num_leaves - 1);
     s \<leftarrow> mod_node (put_ptr (od - 1) 0) last s;
     Some (leaves, s) }"

text \<open>The separator of a child: the first key of its leftmost leaf.\<close>

definition separator :: "mem \<Rightarrow> addr \<Rightarrow> u64 option" where
  "separator s child = do { (leaf, _) \<leftarrow> leftmost s 0 child; get_key s leaf 0 }"

definition fill_parent ::
  "nat \<Rightarrow> addr list \<Rightarrow> nat \<Rightarrow> addr \<Rightarrow> nat \<times> mem \<Rightarrow> (nat \<times> nat \<times> mem) option" where
  "fill_parent od current_level current_count p = (\<lambda>(child_idx, s).
     while_do (\<lambda>(key_count, child_idx, s). Some (key_count < od - 1 \<and> child_idx < current_count))
       (\<lambda>(key_count, child_idx, s). do {
          child \<leftarrow> aget current_level child_idx;
          sep \<leftarrow> separator s child;
          s \<leftarrow> mod_node (put_key key_count sep) p s;
          s \<leftarrow> mod_node (put_ptr (key_count + 1) child) p s;
          s \<leftarrow> mod_node (put_parent p) child s;
          Some (Suc key_count, Suc child_idx, s) }) (0, child_idx, s))"

definition bulk_level :: "os \<Rightarrow> nat \<Rightarrow> addr list \<Rightarrow> nat \<Rightarrow> mem \<Rightarrow> (addr list \<times> nat \<times> mem) option" where
  "bulk_level os od current_level current_count s = do {
     let num_parents = (current_count + od - 1) div od;
     (_, s) \<leftarrow> allocate os (num_parents * 8) s;
     (parent_level, child_idx, s) \<leftarrow> for_up 0 num_parents (\<lambda>i (parent_level, child_idx, s). do {
        (p, s) \<leftarrow> make_node os od s;
        parent_level \<leftarrow> aset parent_level i p;
        s \<leftarrow> mod_node (\<lambda>m. Some (m\<lparr>is_leaf := False\<rparr>)) p s;
        child \<leftarrow> aget current_level child_idx;
        s \<leftarrow> mod_node (put_ptr 0 child) p s;
        s \<leftarrow> mod_node (put_parent p) child s;
        (key_count, child_idx, s) \<leftarrow> fill_parent od current_level current_count p (Suc child_idx, s);
        s \<leftarrow> mod_node (\<lambda>m. Some (m\<lparr>num_keys := key_count\<rparr>)) p s;
        Some (parent_level, child_idx, s) }) (replicate num_parents 0, 0, s);
     Some (parent_level, num_parents, s) }"

definition bulk_load :: "os \<Rightarrow> nat \<Rightarrow> u64 list \<Rightarrow> addr list \<Rightarrow> nat \<Rightarrow> mem \<Rightarrow> (addr \<times> mem) option" where
  "bulk_load os od ks rs n s =
     (if n = 0 then Some (0, s)
      else do {
        let keys_per_leaf = od - 1;
        let num_leaves = (n + keys_per_leaf - 1) div keys_per_leaf;
        (_, s) \<leftarrow> allocate os (num_leaves * 8) s;
        (leaves, s) \<leftarrow> bulk_leaves os od ks rs n num_leaves s;
        (level, _, s) \<leftarrow> while_do (\<lambda>(level, count, s). Some (1 < count))
          (\<lambda>(level, count, s). bulk_level os od level count s) (leaves, num_leaves, s);
        root \<leftarrow> aget level 0;
        Some (root, s) })"

section \<open>Deletion\<close>

text \<open>The index is the unsigned \<open>i - 1\<close>, so a leftmost child gives \<open>2 ^ 64 - 1\<close>, the \<open>-1\<close> of the comparisons.\<close>

definition NO_NEIGHBOR :: nat where "NO_NEIGHBOR = 2 ^ 64 - 1"

definition get_neighbor_index :: "addr \<Rightarrow> mem \<Rightarrow> nat option" where
  "get_neighbor_index a s = do {
     n \<leftarrow> get_node s a;
     p \<leftarrow> get_node s (parent n);
     i \<leftarrow> scan 0 (num_keys p + 1) (\<lambda>i. do { q \<leftarrow> aget (pointers p) i; Some (q \<noteq> a) });
     if i \<le> num_keys p then Some (dec64 i) else None }"

definition remove_entry_from_node :: "nat \<Rightarrow> addr \<Rightarrow> u64 \<Rightarrow> addr \<Rightarrow> mem \<Rightarrow> mem option" where
  "remove_entry_from_node od a key ptr s = mod_node (\<lambda>n. do {
     i \<leftarrow> scan 0 (Suc (length (keys n))) (\<lambda>i. do { k \<leftarrow> aget (keys n) i; Some (k \<noteq> key) });
     n \<leftarrow> for_up (Suc i) (num_keys n) (\<lambda>i n. do { k \<leftarrow> aget (keys n) i; put_key (i - 1) k n }) n;
     let num_pointers = (if is_leaf n then num_keys n else num_keys n + 1);
     i \<leftarrow> scan 0 (Suc (length (pointers n))) (\<lambda>i. do { p \<leftarrow> aget (pointers n) i; Some (p \<noteq> ptr) });
     n \<leftarrow> for_up (Suc i) num_pointers (\<lambda>i n. do { p \<leftarrow> aget (pointers n) i; put_ptr (i - 1) p n }) n;
     let n = n\<lparr>num_keys := dec64 (num_keys n)\<rparr>;
     if is_leaf n then null_ptrs (num_keys n) (od - 1) n else null_ptrs (num_keys n + 1) od n }) a s"

definition adjust_root :: "addr \<Rightarrow> mem \<Rightarrow> (addr \<times> mem) option" where
  "adjust_root root s = do {
     n \<leftarrow> get_node s root;
     if 0 < num_keys n then Some (root, s)
     else do {
       (new_root, s) \<leftarrow> (if is_leaf n then Some (0, s)
          else do { c \<leftarrow> aget (pointers n) 0; s \<leftarrow> mod_node (put_parent 0) c s; Some (c, s) });
       s \<leftarrow> release_node root s;
       Some (new_root, s) } }"

definition inc_keys :: "node \<Rightarrow> node option" where
  "inc_keys n = Some (n\<lparr>num_keys := Suc (num_keys n)\<rparr>)"

definition dec_keys :: "node \<Rightarrow> node option" where
  "dec_keys n = Some (n\<lparr>num_keys := dec64 (num_keys n)\<rparr>)"

text \<open>\<open>coalesce_nodes\<close> after the swap and before the call of \<open>delete_entry\<close>: \<open>n\<close> is appended to \<open>neighbor\<close>.\<close>

definition coalesce_move :: "nat \<Rightarrow> addr \<Rightarrow> addr \<Rightarrow> u64 \<Rightarrow> mem \<Rightarrow> mem option" where
  "coalesce_move od n neighbor k_prime s = do {
     nb \<leftarrow> get_node s neighbor;
     nn \<leftarrow> get_node s n;
     let ins = num_keys nb;
     if \<not> is_leaf nn
     then do {
       s \<leftarrow> mod_node (put_key ins k_prime) neighbor s;
       s \<leftarrow> mod_node inc_keys neighbor s;
       let n_end = num_keys nn;
       s \<leftarrow> for_up 0 n_end (\<lambda>j s. do {
         k \<leftarrow> get_key s n j;
         s \<leftarrow> mod_node (put_key (ins + 1 + j) k) neighbor s;
         p \<leftarrow> get_ptr s n j;
         s \<leftarrow> mod_node (put_ptr (ins + 1 + j) p) neighbor s;
         s \<leftarrow> mod_node inc_keys neighbor s;
         mod_node dec_keys n s }) s;
       p \<leftarrow> get_ptr s n n_end;
       s \<leftarrow> mod_node (put_ptr (ins + 1 + n_end) p) neighbor s;
       nb \<leftarrow> get_node s neighbor;
       set_parents (num_keys nb + 1) neighbor s }
     else do {
       s \<leftarrow> for_up 0 (num_keys nn) (\<lambda>j s. do {
         k \<leftarrow> get_key s n j;
         s \<leftarrow> mod_node (put_key (ins + j) k) neighbor s;
         p \<leftarrow> get_ptr s n j;
         s \<leftarrow> mod_node (put_ptr (ins + j) p) neighbor s;
         mod_node inc_keys neighbor s }) s;
       p \<leftarrow> get_ptr s n (od - 1);
       mod_node (put_ptr (od - 1) p) neighbor s } }"

text \<open>The two directions of \<open>redistribute_nodes\<close>.\<close>

definition redistribute_left :: "addr \<Rightarrow> addr \<Rightarrow> nat \<Rightarrow> u64 \<Rightarrow> mem \<Rightarrow> mem option" where
  "redistribute_left n neighbor k_prime_index k_prime s = do {
     nn \<leftarrow> get_node s n;
     s \<leftarrow> (if is_leaf nn then Some s
          else do { p \<leftarrow> get_ptr s n (num_keys nn); mod_node (put_ptr (num_keys nn + 1) p) n s });
     s \<leftarrow> mod_node (for_down (num_keys nn) 0 shift_entry) n s;
     nb \<leftarrow> get_node s neighbor;
     if \<not> is_leaf nn
     then do {
       p \<leftarrow> get_ptr s neighbor (num_keys nb);
       s \<leftarrow> mod_node (put_ptr 0 p) n s;
       s \<leftarrow> mod_node (put_parent n) p s;
       s \<leftarrow> mod_node (put_ptr (num_keys nb) 0) neighbor s;
       s \<leftarrow> mod_node (put_key 0 k_prime) n s;
       k \<leftarrow> get_key s neighbor (dec64 (num_keys nb));
       mod_node (put_key k_prime_index k) (parent nn) s }
     else do {
       p \<leftarrow> get_ptr s neighbor (dec64 (num_keys nb));
       s \<leftarrow> mod_node (put_ptr 0 p) n s;
       s \<leftarrow> mod_node (put_ptr (dec64 (num_keys nb)) 0) neighbor s;
       k \<leftarrow> get_key s neighbor (dec64 (num_keys nb));
       s \<leftarrow> mod_node (put_key 0 k) n s;
       mod_node (put_key k_prime_index k) (parent nn) s } }"

definition redistribute_right :: "addr \<Rightarrow> addr \<Rightarrow> nat \<Rightarrow> u64 \<Rightarrow> mem \<Rightarrow> mem option" where
  "redistribute_right n neighbor k_prime_index k_prime s = do {
     nn \<leftarrow> get_node s n;
     s \<leftarrow> (if is_leaf nn
       then do {
         k \<leftarrow> get_key s neighbor 0;
         s \<leftarrow> mod_node (put_key (num_keys nn) k) n s;
         p \<leftarrow> get_ptr s neighbor 0;
         s \<leftarrow> mod_node (put_ptr (num_keys nn) p) n s;
         k1 \<leftarrow> get_key s neighbor 1;
         mod_node (put_key k_prime_index k1) (parent nn) s }
       else do {
         s \<leftarrow> mod_node (put_key (num_keys nn) k_prime) n s;
         p \<leftarrow> get_ptr s neighbor 0;
         s \<leftarrow> mod_node (put_ptr (num_keys nn + 1) p) n s;
         s \<leftarrow> mod_node (put_parent n) p s;
         k \<leftarrow> get_key s neighbor 0;
         mod_node (put_key k_prime_index k) (parent nn) s });
     nb \<leftarrow> get_node s neighbor;
     let last = dec64 (num_keys nb);
     s \<leftarrow> mod_node (for_up 0 last (\<lambda>i m. do {
       k \<leftarrow> aget (keys m) (i + 1);
       m \<leftarrow> put_key i k m;
       p \<leftarrow> aget (pointers m) (i + 1);
       put_ptr i p m })) neighbor s;
     if is_leaf nn then Some s
     else do { p \<leftarrow> get_ptr s neighbor (last + 1); mod_node (put_ptr last p) neighbor s } }"

definition redistribute_nodes ::
  "addr \<Rightarrow> addr \<Rightarrow> addr \<Rightarrow> nat \<Rightarrow> nat \<Rightarrow> u64 \<Rightarrow> mem \<Rightarrow> (addr \<times> mem) option" where
  "redistribute_nodes root n neighbor neighbor_index k_prime_index k_prime s = do {
     s \<leftarrow> (if neighbor_index \<noteq> NO_NEIGHBOR then redistribute_left n neighbor k_prime_index k_prime s
          else redistribute_right n neighbor k_prime_index k_prime s);
     s \<leftarrow> mod_node inc_keys n s;
     s \<leftarrow> mod_node dec_keys neighbor s;
     Some (root, s) }"

text \<open>
  The mutual recursion of \<open>delete_entry\<close> and \<open>coalesce_nodes\<close>, with the latter's body unfolded: the
  emptied node is released after the recursive call.
\<close>

partial_function (option) delete_entry :: "nat \<Rightarrow> addr \<Rightarrow> addr \<Rightarrow> u64 \<Rightarrow> addr \<Rightarrow> mem \<Rightarrow> (addr \<times> mem) option" where
  "delete_entry od root n key ptr s = do {
     s \<leftarrow> remove_entry_from_node od n key ptr s;
     if n = root then adjust_root root s
     else do {
       nn \<leftarrow> get_node s n;
       let min_keys = (if is_leaf nn then cut (od - 1) else cut od - 1);
       if min_keys \<le> num_keys nn then Some (root, s)
       else do {
         neighbor_index \<leftarrow> get_neighbor_index n s;
         let k_prime_index = (if neighbor_index = NO_NEIGHBOR then 0 else neighbor_index);
         k_prime \<leftarrow> get_key s (parent nn) k_prime_index;
         neighbor \<leftarrow> get_ptr s (parent nn) (if neighbor_index = NO_NEIGHBOR then 1 else neighbor_index);
         nb \<leftarrow> get_node s neighbor;
         let capacity = (if is_leaf nn then od else od - 1);
         if num_keys nb + num_keys nn < capacity
         then do {
           let (n', neighbor') = (if neighbor_index = NO_NEIGHBOR then (neighbor, n) else (n, neighbor));
           s \<leftarrow> coalesce_move od n' neighbor' k_prime s;
           m \<leftarrow> get_node s n';
           (root, s) \<leftarrow> delete_entry od root (parent m) k_prime n' s;
           s \<leftarrow> release_node n' s;
           Some (root, s) }
         else redistribute_nodes root n neighbor neighbor_index k_prime_index k_prime s } } }"

definition delete_key :: "nat \<Rightarrow> addr \<Rightarrow> u64 \<Rightarrow> mem \<Rightarrow> (addr \<times> mem) option" where
  "delete_key od root key s = do {
     (r, leaf) \<leftarrow> find_record s root key;
     if r \<noteq> 0 \<and> leaf \<noteq> 0
     then do {
       (root, s) \<leftarrow> delete_entry od root leaf key r s;
       s \<leftarrow> free_record r s;
       Some (root, s) }
     else Some (root, s) }"

section \<open>Destruction\<close>

text \<open>
  \<open>free\<close> of the C library on a pointer that no allocation of the C library returned: undefined, unless it
  is \<open>NULL\<close>. Records come from the slab of \<open>alloc_record\<close>.
\<close>

definition libc_free_record :: "addr \<Rightarrow> mem \<Rightarrow> mem option" where
  "libc_free_record p s = (if p = 0 then Some s else None)"

partial_function (option) destroy_tree_nodes :: "addr \<Rightarrow> mem \<Rightarrow> mem option" where
  "destroy_tree_nodes root s = do {
     n \<leftarrow> get_node s root;
     s \<leftarrow> (if is_leaf n
          then for_up 0 (num_keys n) (\<lambda>i s. do { p \<leftarrow> get_ptr s root i; libc_free_record p s }) s
          else for_up 0 (num_keys n + 1) (\<lambda>i s. do { p \<leftarrow> get_ptr s root i; destroy_tree_nodes p s }) s);
     release_node root s }"

definition destroy_tree :: "addr \<Rightarrow> mem \<Rightarrow> (addr \<times> mem) option" where
  "destroy_tree root s = do { s \<leftarrow> destroy_tree_nodes root s; Some (0, s) }"

section \<open>The queue\<close>

text \<open>
  The interface that \<open>print_tree\<close> relies on: \<open>Q s xs\<close> says that the queue in the state \<open>s\<close> holds \<open>xs\<close>.
\<close>

fun enq_all :: "('a \<Rightarrow> 's \<Rightarrow> 's option) \<Rightarrow> 'a list \<Rightarrow> 's \<Rightarrow> 's option" where
  "enq_all enq [] s = Some s"
| "enq_all enq (a # as) s = do { s \<leftarrow> enq a s; enq_all enq as s }"

fun deq_all :: "('s \<Rightarrow> ('a \<times> 's) option) \<Rightarrow> nat \<Rightarrow> 's \<Rightarrow> ('a list \<times> 's) option" where
  "deq_all deq 0 s = Some ([], s)"
| "deq_all deq (Suc n) s = do { (a, s) \<leftarrow> deq s; (as, s) \<leftarrow> deq_all deq n s; Some (a # as, s) }"

locale fifo =
  fixes Q :: "'s \<Rightarrow> 'a list \<Rightarrow> bool" and valid :: "'s \<Rightarrow> 'a \<Rightarrow> bool"
    and enq :: "'a \<Rightarrow> 's \<Rightarrow> 's option" and deq :: "'s \<Rightarrow> ('a \<times> 's) option"
  assumes enq_law: "Q s xs \<Longrightarrow> a \<notin> set xs \<Longrightarrow> valid s a \<Longrightarrow>
      \<exists>s'. enq a s = Some s' \<and> Q s' (xs @ [a]) \<and> (\<forall>b. valid s' b = valid s b)"
    and deq_law: "Q s (x # xs) \<Longrightarrow> \<exists>s'. deq s = Some (x, s') \<and> Q s' xs \<and> (\<forall>b. valid s' b = valid s b)"
begin

lemma enq_all_ok:
  "Q s xs \<Longrightarrow> distinct (xs @ as) \<Longrightarrow> \<forall>a\<in>set as. valid s a \<Longrightarrow> \<exists>s'. enq_all enq as s = Some s' \<and> Q s' (xs @ as)"
proof (induction as arbitrary: s xs)
  case (Cons a as)
  from enq_law [OF Cons.prems(1), of a] Cons.prems obtain s1 where
    s1: "enq a s = Some s1" "Q s1 (xs @ [a])" "\<forall>b. valid s1 b = valid s b" by auto
  with Cons.IH [OF s1(2)] Cons.prems show ?case by auto
qed simp

lemma deq_all_ok: "Q s (as @ xs) \<Longrightarrow> \<exists>s'. deq_all deq (length as) s = Some (as, s') \<and> Q s' xs"
proof (induction as arbitrary: s)
  case (Cons a as)
  from deq_law [of s a "as @ xs"] Cons.prems obtain s1 where s1: "deq s = Some (a, s1)" "Q s1 (as @ xs)" by auto
  with Cons.IH [OF s1(2)] show ?case by auto
qed simp

lemma first_in_first_out:
  assumes "Q s []" "distinct as" "\<forall>a\<in>set as. valid s a"
  shows "\<exists>s1 s2. enq_all enq as s = Some s1 \<and> deq_all deq (length as) s1 = Some (as, s2) \<and> Q s2 []"
proof -
  obtain s1 where s1: "enq_all enq as s = Some s1" "Q s1 (as @ [])" using enq_all_ok [OF assms(1), of as] assms(2,3) by auto
  with deq_all_ok [OF s1(2)] show ?thesis by blast
qed

end

definition queue_holds :: "mem \<Rightarrow> addr list \<Rightarrow> bool" where
  "queue_holds s xs \<longleftrightarrow> chain (nodes s) next_node (queue s) xs \<and> distinct xs"

definition is_node :: "mem \<Rightarrow> addr \<Rightarrow> bool" where
  "is_node s a \<longleftrightarrow> a \<noteq> 0 \<and> nodes s a \<noteq> None"

lemma last_in_queue_ok: "chain (nodes s) next_node a xs \<Longrightarrow> xs \<noteq> [] \<Longrightarrow> last_in_queue s a = Some (last xs)"
proof (induction xs arbitrary: a)
  case (Cons x xs)
  then obtain n where n: "a = x" "x \<noteq> 0" "nodes s x = Some n" "chain (nodes s) next_node (next_node n) xs" by auto
  show ?case
  proof (cases "xs = []")
    case True
    then show ?thesis using n by (subst last_in_queue.simps) (simp add: get_node_def)
  next
    case False
    then have "next_node n \<noteq> 0" using n(4) by (cases xs) auto
    then show ?thesis using n Cons.IH [OF n(4) False] False by (subst last_in_queue.simps) (simp add: get_node_def)
  qed
qed simp

lemma chain_snoc:
  "chain m next_node h (xs @ [x]) \<Longrightarrow> distinct (xs @ [x]) \<Longrightarrow> m x = Some n \<Longrightarrow> a \<notin> set (xs @ [x]) \<Longrightarrow> a \<noteq> 0 \<Longrightarrow>
    next_node na = 0 \<Longrightarrow> chain (m(x \<mapsto> n\<lparr>next_node := a\<rparr>, a \<mapsto> na)) next_node h (xs @ [x, a])"
proof (induction xs arbitrary: h)
  case (Cons y xs)
  then have "h \<noteq> x" "h \<noteq> a" by auto
  with Cons show ?case by auto
qed auto

lemma enqueue_ok:
  assumes "queue_holds s xs" "a \<notin> set xs" "is_node s a"
  shows "\<exists>s'. enqueue a s = Some s' \<and> queue_holds s' (xs @ [a]) \<and> (\<forall>b. is_node s' b = is_node s b)"
proof (cases xs rule: rev_cases)
  case Nil
  then show ?thesis using assms
    by (auto simp: queue_holds_def enqueue_def is_node_def mod_node_def get_node_def put_next_def)
next
  case (snoc ys y)
  obtain na where na: "a \<noteq> 0" "nodes s a = Some na" using assms(3) by (auto simp: is_node_def)
  have ch: "chain (nodes s) next_node (queue s) (ys @ [y])" "distinct (ys @ [y])" "a \<noteq> y"
    using assms snoc by (auto simp: queue_holds_def)
  then have "queue s \<noteq> 0" by (cases ys) auto
  have "y \<in> dom (nodes s)" "y \<noteq> 0" using chain_dom [OF ch(1)] by auto
  then obtain ny where ny: "nodes s y = Some ny" "y \<noteq> 0" by auto
  let ?m = "(nodes s)(y \<mapsto> ny\<lparr>next_node := a\<rparr>, a \<mapsto> na\<lparr>next_node := 0\<rparr>)"
  have "enqueue a s = Some (s\<lparr>nodes := ?m\<rparr>)"
    using last_in_queue_ok [OF ch(1)] \<open>queue s \<noteq> 0\<close> na ny ch(3)
    by (simp add: enqueue_def mod_node_def get_node_def put_next_def)
  moreover have "chain ?m next_node (queue s) (ys @ [y, a])"
    by (rule chain_snoc [OF ch(1,2) ny(1)]) (use assms(2) snoc na in auto)
  ultimately show ?thesis using assms(2) snoc ch(2) na ny by (auto simp: queue_holds_def is_node_def)
qed

lemma dequeue_ok:
  assumes "queue_holds s (x # xs)"
  shows "\<exists>s'. dequeue s = Some (x, s') \<and> queue_holds s' xs \<and> (\<forall>b. is_node s' b = is_node s b)"
proof -
  from assms obtain n where n: "queue s = x" "x \<noteq> 0" "nodes s x = Some n" "chain (nodes s) next_node (next_node n) xs"
    "x \<notin> set xs" "distinct xs" by (auto simp: queue_holds_def)
  have "chain ((nodes s)(x \<mapsto> n\<lparr>next_node := 0\<rparr>)) next_node (next_node n) xs"
    using n(4,5) by (subst chain_cong [where m' = "nodes s"]) auto
  with n show ?thesis
    by (auto simp: dequeue_def queue_holds_def is_node_def mod_node_def get_node_def put_next_def)
qed

interpretation node_queue: fifo queue_holds is_node enqueue dequeue
  by unfold_locales (use enqueue_ok dequeue_ok in blast)+

section \<open>Properties\<close>

lemma for_up_None: "lo < hi \<Longrightarrow> f lo s = None \<Longrightarrow> for_up lo hi f s = None"
  by (cases "hi - lo") (simp_all add: for_up_def)

lemma destroy_None:
  "hrep od (nodes s) p t \<Longrightarrow> 3 \<le> od \<Longrightarrow>
    (\<exists>h. bal od h t) \<or> (\<exists>h. rbal od h t) \<Longrightarrow> 0 \<notin> snd ` set (entries t) \<Longrightarrow> destroy_tree_nodes (root_of t) s = None"
proof (induction t arbitrary: p)
  case (Lf a ks rs)
  then obtain n where n: "a \<noteq> 0" "nodes s a = Some n" "node_at od p True ks rs n" by auto
  have "ks \<noteq> []" using Lf.prems(2,3) by (auto simp: cut_eq)
  then obtain k ks' r rs' where ks: "ks = k # ks'" "rs = r # rs'"
    using n(3) by (cases ks; cases rs) (auto simp: node_at_def)
  have "pointers n ! 0 = r" "0 < length (pointers n)" "num_keys n = Suc (length ks')" "is_leaf n"
    using n(3) ks by (auto simp: node_at_def dest!: arg_cong [where f = "\<lambda>xs. xs ! 0"])
  moreover have "r \<noteq> 0" using Lf.prems(4) ks by auto
  ultimately show ?case
    using n(1,2) by (subst destroy_tree_nodes.simps) (simp add: get_node_def get_ptr_def for_up_None libc_free_record_def)
next
  case (Nd a ks ts)
  then obtain n where n: "a \<noteq> 0" "nodes s a = Some n" "node_at od p False ks (map root_of ts) n" by auto
  then obtain t ts' where ts: "ts = t # ts'" by (cases ts) (auto simp: node_at_def)
  have "pointers n ! 0 = root_of t" "0 < length (pointers n)" "\<not> is_leaf n"
    using n(3) ts by (auto simp: node_at_def dest!: arg_cong [where f = "\<lambda>xs. xs ! 0"])
  moreover have "destroy_tree_nodes (root_of t) s = None"
    using Nd.IH [of t a] Nd.prems ts by auto
  ultimately show ?case
    using n(1,2) by (subst destroy_tree_nodes.simps) (simp add: get_node_def get_ptr_def for_up_None)
qed



text \<open>
  C9: The queue of \<open>print_tree\<close>, linked through the nodes themselves, is first in, first out: enqueuing
  distinct nodes and dequeuing as often returns them in the same order and leaves it empty.
\<close>

theorem queue_first_in_first_out:
  assumes "queue s = 0" "distinct as" "\<forall>a\<in>set as. is_node s a"
  shows "\<exists>s1 s2. enq_all enqueue as s = Some s1 \<and> deq_all dequeue (length as) s1 = Some (as, s2) \<and> queue s2 = 0"
  using node_queue.first_in_first_out [of s as] assms by (auto simp: queue_holds_def)

theorem queue_first_in_first_out_witness:
  "\<exists>s1 s2. enq_all enqueue [48] sample_mem = Some s1 \<and> deq_all dequeue (length [48 :: nat]) s1 = Some ([48], s2) \<and> queue s2 = 0"
  by (rule queue_first_in_first_out) (simp_all add: sample_mem_def init_mem_def is_node_def)

text \<open>
  C10: The slab allocators recycle: a node that is freed is the next one that \<open>alloc_node\<close> returns, without
  a call of the operating system, and likewise for records; the free list is as before.
\<close>

theorem free_then_alloc:
  assumes "is_node s a" "r \<noteq> 0" "recs s r \<noteq> None"
  shows "(\<exists>s1 s2. free_node a s = Some s1 \<and> alloc_node os s1 = Some (a, s2) \<and>
      free_nodes s2 = free_nodes s \<and> regions s2 = regions s) \<and>
    (\<exists>s1 s2. free_record r s = Some s1 \<and> alloc_record os s1 = Some (r, s2) \<and>
      free_recs s2 = free_recs s \<and> regions s2 = regions s)"
  using assms by (auto simp: is_node_def free_node_def alloc_node_def free_record_def alloc_record_def
      mod_node_def get_node_def put_next_def set_rec_def get_rec_def)

theorem free_then_alloc_witness:
  "(\<exists>s1 s2. free_node 48 sample_mem = Some s1 \<and> alloc_node sample_os s1 = Some (48, s2) \<and>
      free_nodes s2 = free_nodes sample_mem \<and> regions s2 = regions sample_mem) \<and>
    (\<exists>s1 s2. free_record 104 sample_mem = Some s1 \<and> alloc_record sample_os s1 = Some (104, s2) \<and>
      free_recs s2 = free_recs sample_mem \<and> regions s2 = regions sample_mem)"
  by (rule free_then_alloc) (simp_all add: sample_mem_def init_mem_def is_node_def)

end
