(* ===== verification/Murmur.thy ===== *)
theory Murmur
  imports Prelude
begin

text \<open>
  MurmurHash3 of \<open>sources/hashjoin/src/murmurhash.c\<close>: the 32-bit and both 128-bit functions, byte by byte.
  The key is a list of bytes, blocks are read in little-endian order as on the platform of the benchmark,
  and a read outside of the key is \<open>None\<close>. The mixing functions are shown to be injective,
  every read to be inside the key, and the fall-through of the \<open>switch\<close> over the tail to assemble the
  little-endian word of the remaining bytes; so the 128-bit hash of an 8-byte key determines the key.
\<close>

section \<open>Mixing functions\<close>

definition rotl32 :: "u32 \<Rightarrow> nat \<Rightarrow> u32" where
  "rotl32 x r = push_bit r x OR drop_bit (32 - r) x"

definition rotl64 :: "u64 \<Rightarrow> nat \<Rightarrow> u64" where
  "rotl64 x r = push_bit r x OR drop_bit (64 - r) x"

definition fmix32 :: "u32 \<Rightarrow> u32" where
  "fmix32 h = (let h = h XOR drop_bit 16 h; h = h * 0x85ebca6b; h = h XOR drop_bit 13 h;
      h = h * 0xc2b2ae35; h = h XOR drop_bit 16 h in h)"

definition fmix64 :: "u64 \<Rightarrow> u64" where
  "fmix64 k = (let k = k XOR drop_bit 33 k; k = k * 0xff51afd7ed558ccd; k = k XOR drop_bit 33 k;
      k = k * 0xc4ceb9fe1a85ec53; k = k XOR drop_bit 33 k in k)"

section \<open>Reading the key\<close>

text \<open>\<open>getblock\<close>: the little-endian word of \<open>n\<close> bytes at byte offset \<open>off\<close>.\<close>

fun le_word :: "u8 list \<Rightarrow> nat \<Rightarrow> nat \<Rightarrow> 'a::len word option" where
  "le_word data off 0 = Some 0"
| "le_word data off (Suc n) = do {
     b \<leftarrow> aget data off;
     r \<leftarrow> le_word data (Suc off) n;
     Some (ucast b OR push_bit 8 r) }"

text \<open>\<open>case j: k ^= tail[j - 1] << sh;\<close> is reached when \<open>len & 15\<close> (or \<open>len & 3\<close>) is at least \<open>j\<close>.\<close>

definition tail_case :: "u8 list \<Rightarrow> nat \<Rightarrow> nat \<Rightarrow> nat \<Rightarrow> nat \<Rightarrow> 'a::len word \<Rightarrow> 'a word option" where
  "tail_case data t0 r j sh k =
     (if j \<le> r then do { b \<leftarrow> aget data (t0 + (j - 1)); Some (k XOR push_bit sh (ucast b)) } else Some k)"

section \<open>MurmurHash3 x86 32\<close>

definition mix32 :: "u32 \<Rightarrow> u32 \<Rightarrow> nat \<Rightarrow> u32 \<Rightarrow> u32" where
  "mix32 c1 c2 r k = (let k = k * c1; k = rotl32 k r; k = k * c2 in k)"

definition x86_32_block :: "u32 \<Rightarrow> u32 \<Rightarrow> u32" where
  "x86_32_block h1 k1 = (let h1 = h1 XOR mix32 0xcc9e2d51 0x1b873593 15 k1; h1 = rotl32 h1 13 in h1 * 5 + 0xe6546b64)"

definition MurmurHash3_x86_32 :: "u8 list \<Rightarrow> nat \<Rightarrow> u32 \<Rightarrow> u32 option" where
  "MurmurHash3_x86_32 data len seed = do {
     let nblocks = len div 4;
     h1 \<leftarrow> for_up 0 nblocks (\<lambda>i h1. do { k1 \<leftarrow> le_word data (4 * i) 4; Some (x86_32_block h1 k1) }) seed;
     let tail = nblocks * 4;
     let r = len mod 4;
     k1 \<leftarrow> tail_case data tail r 3 16 0;
     k1 \<leftarrow> tail_case data tail r 2 8 k1;
     k1 \<leftarrow> tail_case data tail r 1 0 k1;
     let h1 = (if 1 \<le> r then h1 XOR mix32 0xcc9e2d51 0x1b873593 15 k1 else h1);
     let h1 = h1 XOR word_of_nat len;
     Some (fmix32 h1) }"

section \<open>MurmurHash3 x86 128\<close>

definition C1 :: u32 where "C1 = 0x239b961b"
definition C2 :: u32 where "C2 = 0xab0e9789"
definition C3 :: u32 where "C3 = 0x38b34ae5"
definition C4 :: u32 where "C4 = 0xa1e38b93"

type_synonym u32x4 = "u32 \<times> u32 \<times> u32 \<times> u32"

definition x86_128_block :: "u32x4 \<Rightarrow> u32 \<Rightarrow> u32 \<Rightarrow> u32 \<Rightarrow> u32 \<Rightarrow> u32x4" where
  "x86_128_block = (\<lambda>(h1, h2, h3, h4) k1 k2 k3 k4.
     let h1 = h1 XOR mix32 C1 C2 15 k1;
         h1 = rotl32 h1 19; h1 = h1 + h2; h1 = h1 * 5 + 0x561ccd1b;
         h2 = h2 XOR mix32 C2 C3 16 k2;
         h2 = rotl32 h2 17; h2 = h2 + h3; h2 = h2 * 5 + 0x0bcaa747;
         h3 = h3 XOR mix32 C3 C4 17 k3;
         h3 = rotl32 h3 15; h3 = h3 + h4; h3 = h3 * 5 + 0x96cd1c35;
         h4 = h4 XOR mix32 C4 C1 18 k4;
         h4 = rotl32 h4 13; h4 = h4 + h1; h4 = h4 * 5 + 0x32ac3b17
     in (h1, h2, h3, h4))"

definition x86_128_tail :: "u8 list \<Rightarrow> nat \<Rightarrow> nat \<Rightarrow> u32x4 \<Rightarrow> u32x4 option" where
  "x86_128_tail data tail r = (\<lambda>(h1, h2, h3, h4). do {
     k4 \<leftarrow> tail_case data tail r 15 16 0;
     k4 \<leftarrow> tail_case data tail r 14 8 k4;
     k4 \<leftarrow> tail_case data tail r 13 0 k4;
     let h4 = (if 13 \<le> r then h4 XOR mix32 C4 C1 18 k4 else h4);
     k3 \<leftarrow> tail_case data tail r 12 24 0;
     k3 \<leftarrow> tail_case data tail r 11 16 k3;
     k3 \<leftarrow> tail_case data tail r 10 8 k3;
     k3 \<leftarrow> tail_case data tail r 9 0 k3;
     let h3 = (if 9 \<le> r then h3 XOR mix32 C3 C4 17 k3 else h3);
     k2 \<leftarrow> tail_case data tail r 8 24 0;
     k2 \<leftarrow> tail_case data tail r 7 16 k2;
     k2 \<leftarrow> tail_case data tail r 6 8 k2;
     k2 \<leftarrow> tail_case data tail r 5 0 k2;
     let h2 = (if 5 \<le> r then h2 XOR mix32 C2 C3 16 k2 else h2);
     k1 \<leftarrow> tail_case data tail r 4 24 0;
     k1 \<leftarrow> tail_case data tail r 3 16 k1;
     k1 \<leftarrow> tail_case data tail r 2 8 k1;
     k1 \<leftarrow> tail_case data tail r 1 0 k1;
     let h1 = (if 1 \<le> r then h1 XOR mix32 C1 C2 15 k1 else h1);
     Some (h1, h2, h3, h4) })"

definition x86_128_cross :: "u32x4 \<Rightarrow> u32x4" where
  "x86_128_cross = (\<lambda>(h1, h2, h3, h4).
     let h1 = h1 + h2; h1 = h1 + h3; h1 = h1 + h4; h2 = h2 + h1; h3 = h3 + h1; h4 = h4 + h1
     in (h1, h2, h3, h4))"

definition x86_128_final :: "nat \<Rightarrow> u32x4 \<Rightarrow> u32x4" where
  "x86_128_final len = (\<lambda>(h1, h2, h3, h4).
     let l = word_of_nat len;
         (h1, h2, h3, h4) = x86_128_cross (h1 XOR l, h2 XOR l, h3 XOR l, h4 XOR l)
     in x86_128_cross (fmix32 h1, fmix32 h2, fmix32 h3, fmix32 h4))"

definition MurmurHash3_x86_128 :: "u8 list \<Rightarrow> nat \<Rightarrow> u32 \<Rightarrow> u32x4 option" where
  "MurmurHash3_x86_128 data len seed = do {
     let nblocks = len div 16;
     h \<leftarrow> for_up 0 nblocks (\<lambda>i h. do {
        k1 \<leftarrow> le_word data (16 * i + 0) 4;
        k2 \<leftarrow> le_word data (16 * i + 4) 4;
        k3 \<leftarrow> le_word data (16 * i + 8) 4;
        k4 \<leftarrow> le_word data (16 * i + 12) 4;
        Some (x86_128_block h k1 k2 k3 k4) }) (seed, seed, seed, seed);
     h \<leftarrow> x86_128_tail data (nblocks * 16) (len mod 16) h;
     Some (x86_128_final len h) }"

section \<open>MurmurHash3 x64 128\<close>

definition mix64 :: "u64 \<Rightarrow> u64 \<Rightarrow> nat \<Rightarrow> u64 \<Rightarrow> u64" where
  "mix64 c1 c2 r k = (let k = k * c1; k = rotl64 k r; k = k * c2 in k)"

definition D1 :: u64 where "D1 = 0x87c37b91114253d5"
definition D2 :: u64 where "D2 = 0x4cf5ad432745937f"

definition x64_128_block :: "u64 \<times> u64 \<Rightarrow> u64 \<Rightarrow> u64 \<Rightarrow> u64 \<times> u64" where
  "x64_128_block = (\<lambda>(h1, h2) k1 k2.
     let h1 = h1 XOR mix64 D1 D2 31 k1;
         h1 = rotl64 h1 27; h1 = h1 + h2; h1 = h1 * 5 + 0x52dce729;
         h2 = h2 XOR mix64 D2 D1 33 k2;
         h2 = rotl64 h2 31; h2 = h2 + h1; h2 = h2 * 5 + 0x38495ab5
     in (h1, h2))"

definition x64_128_tail :: "u8 list \<Rightarrow> nat \<Rightarrow> nat \<Rightarrow> u64 \<times> u64 \<Rightarrow> (u64 \<times> u64) option" where
  "x64_128_tail data tail r = (\<lambda>(h1, h2). do {
     k2 \<leftarrow> tail_case data tail r 15 48 0;
     k2 \<leftarrow> tail_case data tail r 14 40 k2;
     k2 \<leftarrow> tail_case data tail r 13 32 k2;
     k2 \<leftarrow> tail_case data tail r 12 24 k2;
     k2 \<leftarrow> tail_case data tail r 11 16 k2;
     k2 \<leftarrow> tail_case data tail r 10 8 k2;
     k2 \<leftarrow> tail_case data tail r 9 0 k2;
     let h2 = (if 9 \<le> r then h2 XOR mix64 D2 D1 33 k2 else h2);
     k1 \<leftarrow> tail_case data tail r 8 56 0;
     k1 \<leftarrow> tail_case data tail r 7 48 k1;
     k1 \<leftarrow> tail_case data tail r 6 40 k1;
     k1 \<leftarrow> tail_case data tail r 5 32 k1;
     k1 \<leftarrow> tail_case data tail r 4 24 k1;
     k1 \<leftarrow> tail_case data tail r 3 16 k1;
     k1 \<leftarrow> tail_case data tail r 2 8 k1;
     k1 \<leftarrow> tail_case data tail r 1 0 k1;
     let h1 = (if 1 \<le> r then h1 XOR mix64 D1 D2 31 k1 else h1);
     Some (h1, h2) })"

definition x64_128_final :: "nat \<Rightarrow> u64 \<times> u64 \<Rightarrow> u64 \<times> u64" where
  "x64_128_final len = (\<lambda>(h1, h2).
     let h1 = h1 XOR word_of_nat len; h2 = h2 XOR word_of_nat len;
         h1 = h1 + h2; h2 = h2 + h1;
         h1 = fmix64 h1; h2 = fmix64 h2;
         h1 = h1 + h2; h2 = h2 + h1
     in (h1, h2))"

definition MurmurHash3_x64_128 :: "u8 list \<Rightarrow> nat \<Rightarrow> u32 \<Rightarrow> (u64 \<times> u64) option" where
  "MurmurHash3_x64_128 data len seed = do {
     let nblocks = len div 16;
     h \<leftarrow> for_up 0 nblocks (\<lambda>i h. do {
        k1 \<leftarrow> le_word data (16 * i + 0) 8;
        k2 \<leftarrow> le_word data (16 * i + 8) 8;
        Some (x64_128_block h k1 k2) }) (ucast seed, ucast seed);
     h \<leftarrow> x64_128_tail data (nblocks * 16) (len mod 16) h;
     Some (x64_128_final len h) }"

section \<open>The mixing functions are injective\<close>

lemma xorshift_33_self: "(k XOR drop_bit 33 k) XOR drop_bit 33 (k XOR drop_bit 33 k) = (k :: u64)"
  by (rule bit_word_eqI) (auto simp: bit_simps dest: bit_imp_le_length)

lemma xorshift_16_self: "(k XOR drop_bit 16 k) XOR drop_bit 16 (k XOR drop_bit 16 k) = (k :: u32)"
  by (rule bit_word_eqI) (auto simp: bit_simps dest: bit_imp_le_length)

lemma xorshift_13_self:
  fixes k :: u32
  defines "y \<equiv> k XOR drop_bit 13 k"
  shows "y XOR drop_bit 13 y XOR drop_bit 26 y = k"
  unfolding y_def by (rule bit_word_eqI) (auto simp: bit_simps ac_simps dest: bit_imp_le_length)

lemma inj_xorshift_33: "inj (\<lambda>k :: u64. k XOR drop_bit 33 k)"
  by (rule inj_on_inverseI [where g = "\<lambda>k. k XOR drop_bit 33 k"]) (rule xorshift_33_self)

lemma inj_xorshift_16: "inj (\<lambda>k :: u32. k XOR drop_bit 16 k)"
  by (rule inj_on_inverseI [where g = "\<lambda>k. k XOR drop_bit 16 k"]) (rule xorshift_16_self)

lemma inj_xorshift_13: "inj (\<lambda>k :: u32. k XOR drop_bit 13 k)"
  by (rule inj_on_inverseI [where g = "\<lambda>y. y XOR drop_bit 13 y XOR drop_bit 26 y"]) (rule xorshift_13_self)

lemma inj_mult_unit: "c * d = 1 \<Longrightarrow> inj (\<lambda>k :: 'a::len word. k * c)"
  by (rule inj_on_inverseI [where g = "\<lambda>k. k * d"]) (simp add: mult.assoc)

lemma inj_fmix64: "inj fmix64"
proof -
  let ?s = "\<lambda>k :: u64. k XOR drop_bit 33 k"
  have "inj (?s \<circ> (\<lambda>k. k * 0xc4ceb9fe1a85ec53) \<circ> ?s \<circ> (\<lambda>k. k * 0xff51afd7ed558ccd) \<circ> ?s)"
    by (intro inj_compose inj_xorshift_33 inj_mult_unit [where d = "0x9cb4b2f8129337db"] inj_mult_unit [where d = "0x4f74430c22a54005"]) simp_all
  moreover have "?s \<circ> (\<lambda>k. k * 0xc4ceb9fe1a85ec53) \<circ> ?s \<circ> (\<lambda>k. k * 0xff51afd7ed558ccd) \<circ> ?s = fmix64"
    by (simp only: fun_eq_iff fmix64_def Let_def comp_apply) simp
  ultimately show ?thesis by simp
qed

lemma inj_fmix32: "inj fmix32"
proof -
  let ?s = "\<lambda>k :: u32. k XOR drop_bit 16 k" and ?t = "\<lambda>k :: u32. k XOR drop_bit 13 k"
  have "inj (?s \<circ> (\<lambda>k. k * 0xc2b2ae35) \<circ> ?t \<circ> (\<lambda>k. k * 0x85ebca6b) \<circ> ?s)"
    by (intro inj_compose inj_xorshift_16 inj_xorshift_13 inj_mult_unit [where d = "0x7ed1b41d"] inj_mult_unit [where d = "0xa5cb9243"]) simp_all
  moreover have "?s \<circ> (\<lambda>k. k * 0xc2b2ae35) \<circ> ?t \<circ> (\<lambda>k. k * 0x85ebca6b) \<circ> ?s = fmix32"
    by (simp only: fun_eq_iff fmix32_def Let_def comp_apply) simp
  ultimately show ?thesis by simp
qed

lemma rotr_rotl64:
  fixes x :: u64
  assumes r: "0 < r" "r < 64"
  shows "drop_bit r (rotl64 x r) OR push_bit (64 - r) (rotl64 x r) = x"
proof (rule bit_word_eqI)
  fix n assume "n < LENGTH(64)"
  then have n: "n < 64" by simp
  show "bit (drop_bit r (rotl64 x r) OR push_bit (64 - r) (rotl64 x r)) n \<longleftrightarrow> bit x n"
  proof (cases "n + r < 64")
    case True
    have "\<not> bit x (64 + n)" by (auto dest: bit_imp_le_length)
    with True n r show ?thesis by (auto simp: rotl64_def bit_simps add.commute)
  next
    case False
    have "\<not> bit x (64 + n)" by (auto dest: bit_imp_le_length)
    with False n r show ?thesis by (auto simp: rotl64_def bit_simps add.commute)
  qed
qed

lemma inj_rotl64: "0 < r \<Longrightarrow> r < 64 \<Longrightarrow> inj (\<lambda>x. rotl64 x r)"
  by (rule inj_on_inverseI [where g = "\<lambda>y. drop_bit r y OR push_bit (64 - r) y"]) (rule rotr_rotl64)

lemma inj_mix64: "inj (mix64 D1 D2 31)"
proof -
  have "inj ((\<lambda>k. k * D2) \<circ> (\<lambda>k. rotl64 k 31) \<circ> (\<lambda>k. k * D1))"
    by (intro inj_compose inj_rotl64 inj_mult_unit [where d = "0xa81e14edd9de2c7f"] inj_mult_unit [where d = "0xa98409e882ce4d7d"])
      (simp_all add: D1_def D2_def)
  moreover have "(\<lambda>k. k * D2) \<circ> (\<lambda>k. rotl64 k 31) \<circ> (\<lambda>k. k * D1) = mix64 D1 D2 31"
    by (simp add: fun_eq_iff mix64_def)
  ultimately show ?thesis by simp
qed

section \<open>The tail\<close>

text \<open>The bytes of a 64-bit value in memory.\<close>

definition key_bytes :: "u64 \<Rightarrow> u8 list" where
  "key_bytes k = map (\<lambda>i. ucast (drop_bit (8 * i) k)) [0..<8]"

lemma push_drop_split:
  fixes k :: u64
  shows "push_bit n (drop_bit n k) = push_bit n (ucast (ucast (drop_bit n k) :: u8)) XOR push_bit (n + 8) (drop_bit (n + 8) k)"
  by (rule bit_word_eqI) (auto simp: bit_simps dest: bit_imp_le_length)

lemma key_bytes_word:
  fixes k :: u64
  shows "(((((((push_bit 56 (ucast (key_bytes k ! 7)) XOR push_bit 48 (ucast (key_bytes k ! 6)))
     XOR push_bit 40 (ucast (key_bytes k ! 5))) XOR push_bit 32 (ucast (key_bytes k ! 4)))
     XOR push_bit 24 (ucast (key_bytes k ! 3))) XOR push_bit 16 (ucast (key_bytes k ! 2)))
     XOR push_bit 8 (ucast (key_bytes k ! 1))) XOR push_bit 0 (ucast (key_bytes k ! 0))) = k" (is "?l = k")
proof -
  let ?b = "\<lambda>n. push_bit n (ucast (ucast (drop_bit n k) :: u8)) :: u64"
  let ?s = "\<lambda>n. push_bit n (drop_bit n k)"
  have "?s 64 = 0" by (rule bit_word_eqI) (simp add: bit_simps)
  then have "?s 56 = ?b 56" using push_drop_split [of 56 k] by simp
  then have "?s 48 = ?b 56 XOR ?b 48" using push_drop_split [of 48 k] by (simp add: ac_simps)
  then have "?s 40 = ?b 56 XOR ?b 48 XOR ?b 40" using push_drop_split [of 40 k] by (simp add: ac_simps)
  then have "?s 32 = ?b 56 XOR ?b 48 XOR ?b 40 XOR ?b 32" using push_drop_split [of 32 k] by (simp add: ac_simps)
  then have "?s 24 = ?b 56 XOR ?b 48 XOR ?b 40 XOR ?b 32 XOR ?b 24" using push_drop_split [of 24 k] by (simp add: ac_simps)
  then have "?s 16 = ?b 56 XOR ?b 48 XOR ?b 40 XOR ?b 32 XOR ?b 24 XOR ?b 16" using push_drop_split [of 16 k] by (simp add: ac_simps)
  then have "?s 8 = ?b 56 XOR ?b 48 XOR ?b 40 XOR ?b 32 XOR ?b 24 XOR ?b 16 XOR ?b 8" using push_drop_split [of 8 k] by (simp add: ac_simps)
  then have "?s 0 = ?b 56 XOR ?b 48 XOR ?b 40 XOR ?b 32 XOR ?b 24 XOR ?b 16 XOR ?b 8 XOR ?b 0" using push_drop_split [of 0 k] by (simp add: ac_simps)
  moreover have "?l = ?b 56 XOR ?b 48 XOR ?b 40 XOR ?b 32 XOR ?b 24 XOR ?b 16 XOR ?b 8 XOR ?b 0"
    by (simp add: key_bytes_def xor.assoc)
  ultimately have "?l = ?s 0" by (rule trans [OF _ sym, rotated])
  then show ?thesis by simp
qed

section \<open>Hashing stays inside of the key\<close>

lemma le_word_total: "off + n \<le> length data \<Longrightarrow> \<exists>w. le_word data off n = Some w"
  by (induction data off n rule: le_word.induct) (auto simp: aget_def)

lemma tail_case_total: "t0 + r \<le> length data \<Longrightarrow> 0 < j \<Longrightarrow> \<exists>w. tail_case data t0 r j sh k = Some w"
  by (auto simp: tail_case_def aget_def)

lemma bind_total: "\<exists>x. m = Some x \<Longrightarrow> (\<And>x. \<exists>y. f x = Some y) \<Longrightarrow> \<exists>y. m \<bind> f = Some y"
  by auto

lemma x86_128_tail_total: "t0 + r \<le> length data \<Longrightarrow> \<exists>h'. x86_128_tail data t0 r h = Some h'"
  unfolding x86_128_tail_def Let_def by (cases h) (simp only: split, intro bind_total tail_case_total, simp_all)

lemma x64_128_tail_total: "t0 + r \<le> length data \<Longrightarrow> \<exists>h'. x64_128_tail data t0 r h = Some h'"
  unfolding x64_128_tail_def Let_def by (cases h) (simp only: split, intro bind_total tail_case_total, simp_all)

lemma for_up_total: "(\<And>i s. i < hi \<Longrightarrow> \<exists>s'. f i s = Some s') \<Longrightarrow> \<exists>s'. for_up 0 hi f s = Some s'"
  using for_up_rule [where P = "\<lambda>_ _. True" and lo = 0 and hi = hi and f = f and s = s] by auto

text \<open>
  C17: A hash of \<open>len\<close> bytes of a buffer that holds at least \<open>len\<close> bytes reads only bytes of the buffer
  and always produces a digest, for each of the three functions and for every residue of the length.
\<close>

theorem murmur_reads_in_bounds:
  assumes len: "len \<le> length data"
  shows "(\<exists>h. MurmurHash3_x86_32 data len seed = Some h) \<and> (\<exists>h. MurmurHash3_x86_128 data len seed = Some h)
    \<and> (\<exists>h. MurmurHash3_x64_128 data len seed = Some h)"
proof (intro conjI)
  have b: "n * i + n \<le> length data" if "i < len div n" for i n :: nat
  proof -
    have "n * Suc i \<le> n * (len div n)" using that by (intro mult_le_mono) simp_all
    also have "\<dots> \<le> len" by simp
    finally show ?thesis using len by simp
  qed
  have t: "len div n * n + len mod n \<le> length data" for n :: nat using len by simp
  show "\<exists>h. MurmurHash3_x86_32 data len seed = Some h"
    unfolding MurmurHash3_x86_32_def Let_def
    by (intro bind_total for_up_total le_word_total tail_case_total t b) simp_all
  show "\<exists>h. MurmurHash3_x86_128 data len seed = Some h"
    unfolding MurmurHash3_x86_128_def Let_def
    by (intro bind_total for_up_total le_word_total x86_128_tail_total t) (use b [of _ 16] in \<open>fastforce+\<close>)
  show "\<exists>h. MurmurHash3_x64_128 data len seed = Some h"
    unfolding MurmurHash3_x64_128_def Let_def
    by (intro bind_total for_up_total le_word_total x64_128_tail_total t) (use b [of _ 16] in \<open>fastforce+\<close>)
qed

theorem murmur_reads_in_bounds_witness:
  "5 \<le> length [1, 2, 3, 4, 5 :: u8] \<and> (\<exists>h. MurmurHash3_x86_32 [1, 2, 3, 4, 5] 5 0x64 = Some h)"
  using murmur_reads_in_bounds [of 5 "[1, 2, 3, 4, 5]" "0x64"] by simp

section \<open>The hash of a join key\<close>

lemma aget_key_bytes: "i < 8 \<Longrightarrow> aget (key_bytes k) i = Some (key_bytes k ! i)"
  by (simp add: aget_def key_bytes_def)

lemma length_key_bytes [simp]: "length (key_bytes k) = 8"
  by (simp add: key_bytes_def)

lemma x64_128_key:
  "MurmurHash3_x64_128 (key_bytes k) 8 seed = Some (x64_128_final 8 (ucast seed XOR mix64 D1 D2 31 k, ucast seed))"
proof -
  have "x64_128_tail (key_bytes k) 0 8 (h1, h2) = Some (h1 XOR mix64 D1 D2 31 k, h2)" for h1 h2
    using key_bytes_word [of k]
    by (simp add: x64_128_tail_def tail_case_def aget_key_bytes numeral_2_eq_2 cong: bind_weak_cong)
  then show ?thesis by (simp add: MurmurHash3_x64_128_def for_up_def)
qed

lemma x64_128_final_inj:
  assumes "x64_128_final len (h1, h2) = x64_128_final len (h1', h2)"
  shows "h1 = h1'"
proof -
  define p p' q where "p = h1 XOR word_of_nat len" and "p' = h1' XOR word_of_nat len" and "q = h2 XOR word_of_nat len"
  have fin: "x64_128_final len (x, h2) = (A + B, B + (A + B))"
    if "A = fmix64 ((x XOR word_of_nat len) + q)" "B = fmix64 (q + ((x XOR word_of_nat len) + q))" for x A B
    by (simp only: that x64_128_final_def split q_def Let_def)
  have "fmix64 (q + (p + q)) = fmix64 (q + (p' + q))"
    using assms fin [OF refl refl, of h1] fin [OF refl refl, of h1'] unfolding p_def p'_def by (metis add_right_cancel prod.inject)
  then have "q + (p + q) = q + (p' + q)" by (rule injD [OF inj_fmix64])
  then have "p = p'" by simp
  then have "p XOR word_of_nat len = p' XOR word_of_nat len" by simp
  then show ?thesis by (simp add: p_def p'_def xor.assoc)
qed

text \<open>
  C16: The 128-bit hash loses nothing of a join key: the digests of two 8-byte keys under the same seed
  are equal only if the keys are.
\<close>

theorem murmur_key_injective:
  assumes "MurmurHash3_x64_128 (key_bytes a) 8 seed = MurmurHash3_x64_128 (key_bytes b) 8 seed"
  shows "a = b"
proof -
  have "ucast seed XOR mix64 D1 D2 31 a = ucast seed XOR mix64 D1 D2 31 b"
    using assms unfolding x64_128_key option.inject by (rule x64_128_final_inj)
  then have "ucast seed XOR (ucast seed XOR mix64 D1 D2 31 a) = ucast seed XOR (ucast seed XOR mix64 D1 D2 31 b)" by simp
  then have "mix64 D1 D2 31 a = mix64 D1 D2 31 b" by (simp add: xor.assoc [symmetric])
  then show ?thesis by (rule injD [OF inj_mix64])
qed

theorem murmur_key_injective_witness:
  "MurmurHash3_x64_128 (key_bytes 4) 8 42 = MurmurHash3_x64_128 (key_bytes (2 + 2)) 8 42 \<and> (4 :: u64) = 2 + 2"
  using murmur_key_injective [of 4 42 "2 + 2"] by simp

end
