(* ===== verification/Getopt.thy ===== *)
theory Getopt
  imports Prelude
begin

text \<open>
  The C library's \<open>getopt\<close> with short options, as every program of the suite calls it in a loop until it
  returns -1. Options may be clustered, an argument is the rest of the cluster or the next element of
  \<open>argv\<close>, operands are moved behind the options (the GNU default), and \<open>--\<close> ends the options. An unknown
  option or a missing argument yields \<open>?\<close> with the character in \<open>optopt\<close>.
\<close>

datatype opt_event = Opt char string | BadOpt char

fun opt_kind :: "string \<Rightarrow> char \<Rightarrow> bool option" where
  "opt_kind [] c = None"
| "opt_kind (o1 # os) c =
     (if o1 = c \<and> c \<noteq> CHR '':'' then Some (case os of [] \<Rightarrow> False | x # _ \<Rightarrow> x = CHR '':'')
      else opt_kind os c)"

text \<open>One cluster: its events, the arguments after it, and the elements of \<open>argv\<close> that it consumed besides itself.\<close>

fun opt_cluster :: "string \<Rightarrow> string \<Rightarrow> string list \<Rightarrow> opt_event list \<times> string list \<times> string list" where
  "opt_cluster spec [] rest = ([], rest, [])"
| "opt_cluster spec (c # cs) rest =
     (case opt_kind spec c of
        None \<Rightarrow> (let (evs, r, u) = opt_cluster spec cs rest in (BadOpt c # evs, r, u))
      | Some False \<Rightarrow> (let (evs, r, u) = opt_cluster spec cs rest in (Opt c [] # evs, r, u))
      | Some True \<Rightarrow>
          (if cs \<noteq> [] then ([Opt c cs], rest, [])
           else (case rest of [] \<Rightarrow> ([BadOpt c], [], []) | a # r \<Rightarrow> ([Opt c a], r, [a]))))"

lemma opt_cluster_length: "length (fst (snd (opt_cluster spec cs rest))) \<le> length rest"
  by (induction spec cs rest rule: opt_cluster.induct) (auto split: option.splits bool.splits list.splits prod.splits)

definition is_option :: "string \<Rightarrow> bool" where
  "is_option a \<longleftrightarrow> (case a of CHR ''-'' # _ # _ \<Rightarrow> True | _ \<Rightarrow> False)"

text \<open>The whole scan: events, option elements of \<open>argv\<close> in order, operands in order.\<close>

function getopt_scan :: "string \<Rightarrow> string list \<Rightarrow> opt_event list \<times> string list \<times> string list" where
  "getopt_scan spec [] = ([], [], [])"
| "getopt_scan spec (a # as) =
     (if a = ''--'' then ([], [a], as)
      else if is_option a then
        (let (evs, r, u) = opt_cluster spec (tl a) as; (evs', os, ns) = getopt_scan spec r
         in (evs @ evs', a # u @ os, ns))
      else (let (evs, os, ns) = getopt_scan spec as in (evs, os, a # ns)))"
  by pat_completeness auto
termination
proof (relation "measure (length \<circ> snd)", goal_cases)
  case (2 spec a as x evs y r u)
  with opt_cluster_length [of spec "tl a" as] show ?case by (metis comp_apply fst_conv in_measure le_imp_less_Suc length_Cons snd_conv)
qed auto

definition getopt_events :: "string \<Rightarrow> string list \<Rightarrow> opt_event list" where
  "getopt_events spec argv = fst (getopt_scan spec (tl argv))"

text \<open>\<open>argv\<close> after the scan, with the operands moved behind the options.\<close>

definition getopt_argv :: "string \<Rightarrow> string list \<Rightarrow> string list" where
  "getopt_argv spec argv = take 1 argv @ (let (evs, os, ns) = getopt_scan spec (tl argv) in os @ ns)"

section \<open>Permutation\<close>

lemma opt_cluster_args: "opt_cluster spec cs rest = (evs, r, u) \<Longrightarrow> u @ r = rest"
  by (induction spec cs rest arbitrary: evs r u rule: opt_cluster.induct)
    (auto split: option.splits bool.splits list.splits prod.splits if_splits)

lemma getopt_scan_mset: "getopt_scan spec as = (evs, os, ns) \<Longrightarrow> mset (os @ ns) = mset as"
proof (induction spec as arbitrary: evs os ns rule: getopt_scan.induct)
  case (2 spec a as)
  show ?case
  proof (cases "a = ''--'' \<or> \<not> is_option a")
    case True
    with 2 show ?thesis by (auto split: if_splits prod.splits)
  next
    case False
    obtain e1 r u where c: "opt_cluster spec (tl a) as = (e1, r, u)" by (metis prod_cases3)
    obtain e2 os' ns' where g: "getopt_scan spec r = (e2, os', ns')" by (metis prod_cases3)
    have "mset (os' @ ns') = mset r" using 2(1) False c g by auto
    moreover have "u @ r = as" by (rule opt_cluster_args [OF c])
    moreover have "os = a # u @ os'" "ns = ns'" using 2(3) False c g by auto
    ultimately show ?thesis by (auto simp: ac_simps)
  qed
qed simp

text \<open>\<open>getopt\<close> only permutes \<open>argv\<close>: the number of arguments and the program name stay.\<close>

lemma getopt_argv_mset: "mset (getopt_argv spec argv) = mset argv"
proof (cases argv)
  case (Cons p as)
  obtain evs os ns where g: "getopt_scan spec as = (evs, os, ns)" by (metis prod_cases3)
  from getopt_scan_mset [OF g] g Cons show ?thesis by (simp add: getopt_argv_def)
qed (simp add: getopt_argv_def)

lemma getopt_argv_length [simp]: "length (getopt_argv spec argv) = length argv"
  using getopt_argv_mset [of spec argv] by (metis size_mset)

end
