(* ===== verification/Hashjoin.thy ===== *)
theory Hashjoin
  imports Murmur Getopt
begin

text \<open>
  The hash join of \<open>sources/hashjoin/src/hashjoin.c\<close>: the chained hash table over the inner relation, the probe
  loop over the outer relation and \<open>real_main\<close>. A pointer to a table element is its index in \<open>htelms\<close>, the
  null pointer is \<open>None\<close>. Undefined behaviour (an access outside of an array, a division by zero) is \<open>None\<close>; an
  exit of the process is a value of \<open>hj_outcome\<close>. Allocation, the marker files and the poll for the
  \<open>.flushed\<close> file are answered by the environment record.
\<close>

section \<open>Configuration\<close>

definition CONFIG_RAND_SEED :: u32 where "CONFIG_RAND_SEED = 42"
definition CONFIG_INNER_KEY_STRIDE :: u64 where "CONFIG_INNER_KEY_STRIDE = 4"
definition CONFIG_DEFAULT_OUTER_SIZE :: u64 where "CONFIG_DEFAULT_OUTER_SIZE = 1000000"
definition CONFIG_DEFAULT_INNER_SIZE :: u64 where "CONFIG_DEFAULT_INNER_SIZE = 100000"
definition CONFIG_DEFAULT_HASH_SIZE :: u64 where "CONFIG_DEFAULT_HASH_SIZE = CONFIG_DEFAULT_INNER_SIZE"
definition CONFIG_DEFAULT_NUM_LOOKUPS :: u64 where "CONFIG_DEFAULT_NUM_LOOKUPS = 50"
definition CONFIG_ELEMENT_TUPLE_SIZE :: nat where "CONFIG_ELEMENT_TUPLE_SIZE = 15"

record hj_config =
  hashsize :: u64
  nlookups :: u64
  outersize :: u64
  innersize :: u64

definition hj_defaults :: hj_config where
  "hj_defaults = \<lparr>hashsize = CONFIG_DEFAULT_HASH_SIZE, nlookups = CONFIG_DEFAULT_NUM_LOOKUPS,
     outersize = CONFIG_DEFAULT_OUTER_SIZE, innersize = CONFIG_DEFAULT_INNER_SIZE\<rparr>"

text \<open>The loop over the options: \<open>None\<close> is the early \<open>return -1\<close>.\<close>

fun hj_options :: "opt_event list \<Rightarrow> hj_config \<Rightarrow> hj_config option" where
  "hj_options [] cfg = Some cfg"
| "hj_options (BadOpt _ # evs) cfg = None"
| "hj_options (Opt c optarg # evs) cfg =
     (let v = word_of_int (strtol10 optarg) in
      if c = CHR ''s'' then hj_options evs (cfg\<lparr>hashsize := v\<rparr>)
      else if c = CHR ''n'' then hj_options evs (cfg\<lparr>nlookups := v\<rparr>)
      else if c = CHR ''o'' then hj_options evs (cfg\<lparr>outersize := v\<rparr>)
      else if c = CHR ''i'' then hj_options evs (cfg\<lparr>innersize := v\<rparr>)
      else None)"

section \<open>The hash table\<close>

record htelm =
  elkey :: u64
  elnext :: "nat option"

record hj_table =
  hashtable :: "nat option list"
  htelms :: "htelm list"
  nconflicts :: u64

definition sizeof_htelm :: nat where "sizeof_htelm = 16"
definition sizeof_ptr :: nat where "sizeof_ptr = 8"
definition sizeof_element :: nat where "sizeof_element = 8 * (1 + CONFIG_ELEMENT_TUPLE_SIZE)"

definition murmur_key :: "u64 \<Rightarrow> (u64 \<times> u64) option" where
  "murmur_key key = MurmurHash3_x64_128 (key_bytes key) 8 CONFIG_RAND_SEED"

definition hash :: "u64 \<Rightarrow> u64 option" where
  "hash key = do { (out0, out1) \<leftarrow> murmur_key key; Some out0 }"

definition umod :: "u64 \<Rightarrow> u64 \<Rightarrow> u64 option" where
  "umod a b = (if b = 0 then None else Some (a mod b))"

definition inner_key :: "nat \<Rightarrow> u64" where
  "inner_key i = (word_of_nat i + 1) * CONFIG_INNER_KEY_STRIDE"

definition build_step :: "u64 \<Rightarrow> nat \<Rightarrow> hj_table \<Rightarrow> hj_table option" where
  "build_step hs i t = do {
     e \<leftarrow> aget (htelms t) i;
     let e = e\<lparr>elkey := inner_key i\<rparr>;
     h \<leftarrow> hash (elkey e);
     idx \<leftarrow> umod h hs;
     b \<leftarrow> aget (hashtable t) (unat idx);
     let nc = nconflicts t + (if b \<noteq> None then 1 else 0);
     els \<leftarrow> aset (htelms t) i (e\<lparr>elnext := b\<rparr>);
     ht \<leftarrow> aset (hashtable t) (unat idx) (Some i);
     Some \<lparr>hashtable = ht, htelms = els, nconflicts = nc\<rparr> }"

definition build :: "u64 \<Rightarrow> nat \<Rightarrow> hj_table \<Rightarrow> hj_table option" where
  "build hs n t = for_up 0 n (build_step hs) t"

section \<open>The probe\<close>

text \<open>\<open>while (e) { if (e->key == key) { matches++; break; } e = e->next; }\<close>\<close>

partial_function (option) chain_find :: "htelm list \<Rightarrow> nat option \<Rightarrow> u64 \<Rightarrow> bool option" where
  "chain_find els e key =
     (case e of None \<Rightarrow> Some False
      | Some i \<Rightarrow> do { x \<leftarrow> aget els i;
          if elkey x = key then Some True else chain_find els (elnext x) key })"

definition probe :: "u64 \<Rightarrow> hj_table \<Rightarrow> u64 \<Rightarrow> u64 \<Rightarrow> u64 option" where
  "probe hs t key matches = do {
     (hash0, hash1) \<leftarrow> murmur_key key;
     i0 \<leftarrow> umod hash0 hs;
     e \<leftarrow> aget (hashtable t) (unat i0);
     found \<leftarrow> chain_find (htelms t) e key;
     let matches = (if found then matches + 1 else matches);
     i1 \<leftarrow> umod hash1 hs;
     e \<leftarrow> aget (hashtable t) (unat i1);
     found \<leftarrow> chain_find (htelms t) e key;
     Some (if found then matches + 1 else matches) }"

definition fill_outer :: "nat \<Rightarrow> u64 list \<Rightarrow> u64 list option" where
  "fill_outer n tab = for_up 0 n (\<lambda>i tab. aset tab i (word_of_nat i)) tab"

definition probe_all :: "u64 \<Rightarrow> hj_table \<Rightarrow> u64 list \<Rightarrow> nat \<Rightarrow> u64 \<Rightarrow> u64 option" where
  "probe_all hs t tab n matches = for_up 0 n (\<lambda>i matches. do { key \<leftarrow> aget tab i; probe hs t key matches }) matches"

definition lookups :: "u64 \<Rightarrow> hj_table \<Rightarrow> u64 list \<Rightarrow> nat \<Rightarrow> nat \<Rightarrow> u64 option" where
  "lookups hs t tab n k = for_up 0 k (\<lambda>j. probe_all hs t tab n) 0"

section \<open>The program\<close>

record hj_env =
  mem_ok :: "u64 \<Rightarrow> bool"
  ready_ok :: bool
  done_ok :: bool
  flushed :: "nat \<Rightarrow> bool"

record hj_report =
  r_sizes :: "u64 list"
  r_sleeps :: nat
  r_matches :: u64
  r_per_iteration :: u64
  r_probes :: u64
  r_conflicts :: u64

datatype hj_outcome = Exit int | Return int "hj_report option"

text \<open>The four sizes that are printed, in MB.\<close>

definition hj_sizes :: "hj_config \<Rightarrow> u64 list" where
  "hj_sizes cfg = (let hs = hashsize cfg; os = outersize cfg; is = innersize cfg;
       ptr = word_of_nat sizeof_ptr; el = word_of_nat sizeof_element; ht = word_of_nat sizeof_htelm in
     [drop_bit 20 (hs * ptr), drop_bit 20 (os * el), drop_bit 20 (hs * ht),
      drop_bit 20 (hs * ptr + (os + is) * el + hs * ht)])"

text \<open>\<open>allocate\<close>: a zeroed block of \<open>cnt * sz\<close> bytes, the product taken modulo \<open>2 ^ 64\<close>.\<close>

definition hj_allocate :: "hj_env \<Rightarrow> u64 \<Rightarrow> nat \<Rightarrow> 'a \<Rightarrow> 'a list option" where
  "hj_allocate env cnt sz z =
     (let bytes = cnt * word_of_nat sz in
      if mem_ok env bytes then Some (replicate (unat bytes div sz) z) else None)"

fun wait_flushed :: "hj_env \<Rightarrow> nat \<Rightarrow> nat \<Rightarrow> nat" where
  "wait_flushed env i 0 = 0"
| "wait_flushed env i (Suc k) = (if flushed env i then 0 else Suc (wait_flushed env (Suc i) k))"

definition hj_join :: "hj_env \<Rightarrow> hj_config \<Rightarrow> nat option list \<Rightarrow> htelm list \<Rightarrow> hj_outcome option" where
  "hj_join env cfg table0 elms0 = do {
     t \<leftarrow> build (hashsize cfg) (unat (innersize cfg)) \<lparr>hashtable = table0, htelms = elms0, nconflicts = 0\<rparr>;
     (case hj_allocate env (outersize cfg) sizeof_element 0 of
        None \<Rightarrow> Some (Exit 1)
      | Some tab \<Rightarrow> do {
          tab \<leftarrow> fill_outer (unat (outersize cfg)) tab;
          if \<not> ready_ok env then Some (Exit (- 1)) else do {
          let sleeps = wait_flushed env 0 600;
          matches \<leftarrow> lookups (hashsize cfg) t tab (unat (outersize cfg)) (unat (nlookups cfg));
          if \<not> done_ok env then Some (Exit (- 1)) else do {
          per \<leftarrow> (if nlookups cfg = 0 then None else Some (matches div nlookups cfg));
          Some (Return 0 (Some \<lparr>r_sizes = hj_sizes cfg, r_sleeps = sleeps, r_matches = matches,
             r_per_iteration = per, r_probes = 2 * outersize cfg, r_conflicts = nconflicts t\<rparr>)) } } }) }"

definition hj_main :: "hj_env \<Rightarrow> string list \<Rightarrow> hj_outcome option" where
  "hj_main env argv =
     (case hj_options (getopt_events ''s:n:o:i:'' argv) hj_defaults of
        None \<Rightarrow> Some (Return (- 1) None)
      | Some cfg \<Rightarrow>
         (case hj_allocate env (hashsize cfg) sizeof_ptr None of
            None \<Rightarrow> Some (Exit 1)
          | Some table0 \<Rightarrow>
             (case hj_allocate env (innersize cfg) sizeof_htelm \<lparr>elkey = 0, elnext = None\<rparr> of
                None \<Rightarrow> Some (Exit 1)
              | Some elms0 \<Rightarrow> hj_join env cfg table0 elms0)))"

section \<open>Chains\<close>

fun linked :: "htelm list \<Rightarrow> nat option \<Rightarrow> nat list \<Rightarrow> bool" where
  "linked els p [] \<longleftrightarrow> p = None"
| "linked els p (i # is) \<longleftrightarrow> p = Some i \<and> i < length els \<and> linked els (elnext (els ! i)) is"

lemma chain_update: "linked els p is \<Longrightarrow> n \<notin> set is \<Longrightarrow> linked (els[n := x]) p is"
  by (induction els p "is" rule: linked.induct) auto

text \<open>The walk along a chain returns, and finds exactly the keys on it.\<close>

lemma chain_find_chain:
  "linked els p is \<Longrightarrow> chain_find els p key = Some (\<exists>i\<in>set is. elkey (els ! i) = key)"
  by (induction els p "is" rule: linked.induct) (auto simp: chain_find.simps aget_def)

section \<open>The two digests of a key\<close>

lemma murmur_key_total: "\<exists>h. murmur_key k = Some h"
  by (simp add: murmur_key_def x64_128_key)

definition digest :: "u64 \<Rightarrow> u64 \<times> u64" where
  "digest k = the (murmur_key k)"

lemma murmur_key_digest: "murmur_key k = Some (digest k)"
  using murmur_key_total [of k] by (auto simp: digest_def)

definition bucket :: "u64 \<Rightarrow> u64 \<Rightarrow> nat" where
  "bucket hs k = unat (fst (digest k) mod hs)"

definition bucket2 :: "u64 \<Rightarrow> u64 \<Rightarrow> nat" where
  "bucket2 hs k = unat (snd (digest k) mod hs)"

lemma bucket_less: "hs \<noteq> 0 \<Longrightarrow> bucket hs k < unat hs" "hs \<noteq> 0 \<Longrightarrow> bucket2 hs k < unat hs"
  by (simp_all add: bucket_def bucket2_def unat_mod_distrib unat_gt_0)

section \<open>The invariant of the build loop\<close>

definition bucket_chain :: "u64 \<Rightarrow> nat \<Rightarrow> nat \<Rightarrow> nat list" where
  "bucket_chain hs n b = rev (filter (\<lambda>i. bucket hs (inner_key i) = b) [0..<n])"

definition conflicts :: "u64 \<Rightarrow> nat \<Rightarrow> nat" where
  "conflicts hs n = n - card ((\<lambda>i. bucket hs (inner_key i)) ` {..<n})"

definition build_inv :: "u64 \<Rightarrow> nat \<Rightarrow> nat \<Rightarrow> hj_table \<Rightarrow> bool" where
  "build_inv hs N n t \<longleftrightarrow>
     length (hashtable t) = unat hs \<and> length (htelms t) = N \<and>
     (\<forall>i<n. elkey (htelms t ! i) = inner_key i) \<and>
     (\<forall>b<unat hs. linked (htelms t) (hashtable t ! b) (bucket_chain hs n b)) \<and>
     nconflicts t = word_of_nat (conflicts hs n)"

lemma bucket_chain_Suc:
  "bucket_chain hs (Suc n) b = (if bucket hs (inner_key n) = b then n # bucket_chain hs n b else bucket_chain hs n b)"
  by (simp add: bucket_chain_def)

lemma set_bucket_chain: "set (bucket_chain hs n b) = {i. i < n \<and> bucket hs (inner_key i) = b}"
  by (auto simp: bucket_chain_def)

lemma chain_None_iff: "linked els p is \<Longrightarrow> p = None \<longleftrightarrow> is = []"
  by (cases "is") auto

lemma conflicts_Suc:
  "conflicts hs (Suc n) = conflicts hs n + (if bucket_chain hs n (bucket hs (inner_key n)) = [] then 0 else 1)"
proof -
  let ?f = "\<lambda>i. bucket hs (inner_key i)"
  have e: "bucket_chain hs n (?f n) = [] \<longleftrightarrow> ?f n \<notin> ?f ` {..<n}"
    unfolding set_empty [symmetric] set_bucket_chain image_iff by (metis (mono_tags, lifting) empty_Collect_eq lessThan_iff)
  have "card (?f ` {..<n}) \<le> n" using card_image_le [of "{..<n}" ?f] by simp
  then show ?thesis unfolding conflicts_def e lessThan_Suc image_insert
    by (cases "?f n \<in> ?f ` {..<n}") (auto simp: insert_absorb)
qed

lemma build_step_inv:
  assumes inv: "build_inv hs N n t" and hs: "hs \<noteq> 0" and n: "n < N"
  shows "\<exists>t'. build_step hs n t = Some t' \<and> build_inv hs N (Suc n) t'"
proof -
  let ?k = "inner_key n" and ?b = "bucket hs (inner_key n)"
  let ?els = "(htelms t)[n := (htelms t ! n)\<lparr>elkey := ?k, elnext := hashtable t ! ?b\<rparr>]"
  let ?t = "\<lparr>hashtable = (hashtable t)[?b := Some n], htelms = ?els,
    nconflicts = nconflicts t + (if hashtable t ! ?b \<noteq> None then 1 else 0)\<rparr>"
  note I = inv [unfolded build_inv_def]
  have b: "?b < unat hs" by (rule bucket_less(1) [OF hs])
  have step: "build_step hs n t = Some ?t"
    using I b n hs by (simp add: build_step_def hash_def murmur_key_digest umod_def bucket_def aget_def aset_def case_prod_beta)
  have ch: "linked (htelms t) (hashtable t ! c) (bucket_chain hs n c)" if "c < unat hs" for c using I that by blast
  have upd: "linked ?els (hashtable t ! c) (bucket_chain hs n c)" if "c < unat hs" for c
    using ch [OF that] by (rule chain_update) (simp add: set_bucket_chain)
  have "linked ?els ((hashtable t)[?b := Some n] ! c) (bucket_chain hs (Suc n) c)" if "c < unat hs" for c
    using upd [OF that] I that b n by (cases "?b = c") (simp_all add: bucket_chain_Suc)
  moreover have "nconflicts ?t = word_of_nat (conflicts hs (Suc n))"
    using I chain_None_iff [OF ch [OF b]] by (simp add: conflicts_Suc)
  moreover have "elkey (?els ! i) = inner_key i" if "i < Suc n" for i
    using that I n by (cases "i = n") auto
  ultimately have "build_inv hs N (Suc n) ?t" using I by (simp add: build_inv_def)
  with step show ?thesis by blast
qed

lemma build_ok:
  assumes "hs \<noteq> 0" "length table0 = unat hs" "\<forall>b<unat hs. table0 ! b = None" "length elms0 = n"
  shows "\<exists>t. build hs n \<lparr>hashtable = table0, htelms = elms0, nconflicts = 0\<rparr> = Some t \<and> build_inv hs n n t"
  unfolding build_def
proof (rule for_up_rule [where P = "build_inv hs n"])
  show "build_inv hs n 0 \<lparr>hashtable = table0, htelms = elms0, nconflicts = 0\<rparr>"
    using assms by (simp add: build_inv_def bucket_chain_def conflicts_def)
qed (use assms in \<open>auto intro: build_step_inv\<close>)

section \<open>What a probe counts\<close>

definition inner_keys :: "nat \<Rightarrow> u64 set" where
  "inner_keys n = inner_key ` {..<n}"

text \<open>A key of the inner relation is found in its first bucket, and once more if both digests lead there.\<close>

definition key_matches :: "u64 \<Rightarrow> nat \<Rightarrow> u64 \<Rightarrow> nat" where
  "key_matches hs n k = (if k \<in> inner_keys n then (if bucket2 hs k = bucket hs k then 2 else 1) else 0)"

lemma chain_find_bucket:
  assumes "build_inv hs N n t" "b < unat hs"
  shows "chain_find (htelms t) (hashtable t ! b) k = Some (k \<in> inner_keys n \<and> bucket hs k = b)"
proof -
  have "linked (htelms t) (hashtable t ! b) (bucket_chain hs n b)" using assms by (simp add: build_inv_def)
  from chain_find_chain [OF this] show ?thesis
    using assms(1) by (auto simp: set_bucket_chain build_inv_def inner_keys_def)
qed

lemma probe_ok:
  assumes inv: "build_inv hs N n t" and hs: "hs \<noteq> 0"
  shows "probe hs t k m = Some (m + word_of_nat (key_matches hs n k))"
proof -
  have len: "length (hashtable t) = unat hs" using inv by (simp add: build_inv_def)
  note b = bucket_less [OF hs, of k]
  have "aget (hashtable t) (bucket hs k) = Some (hashtable t ! bucket hs k)"
    "aget (hashtable t) (bucket2 hs k) = Some (hashtable t ! bucket2 hs k)"
    using b len by (simp_all add: aget_def)
  with chain_find_bucket [OF inv b(1), of k] chain_find_bucket [OF inv b(2), of k] hs
  show ?thesis
    by (auto simp: probe_def murmur_key_digest umod_def case_prod_beta key_matches_def simp flip: bucket_def bucket2_def)
qed

definition join_count :: "u64 \<Rightarrow> nat \<Rightarrow> nat \<Rightarrow> nat" where
  "join_count hs n m = (\<Sum>i<m. key_matches hs n (word_of_nat i))"

lemma fill_outer_ok:
  assumes "n \<le> length tab"
  shows "\<exists>tab'. fill_outer n tab = Some tab' \<and> length tab' = length tab \<and> (\<forall>i<n. tab' ! i = word_of_nat i)"
  using for_up_rule [where P = "\<lambda>j tab'. length tab' = length tab \<and> (\<forall>i<j. tab' ! i = word_of_nat i)" and lo = 0
      and hi = n and s = tab and f = "\<lambda>i tab. aset tab i (word_of_nat i :: u64)"] assms
  by (auto simp: fill_outer_def aset_def nth_list_update less_Suc_eq)

lemma probe_all_ok:
  assumes inv: "build_inv hs N n t" and hs: "hs \<noteq> 0" and tab: "m \<le> length tab" "\<forall>i<m. tab ! i = word_of_nat i"
  shows "probe_all hs t tab m s = Some (s + word_of_nat (join_count hs n m))"
proof -
  let ?f = "\<lambda>i matches. do { key \<leftarrow> aget tab i; probe hs t key matches }"
  have "\<exists>s'. for_up 0 m ?f s = Some s' \<and> s' = s + word_of_nat (join_count hs n m)"
    by (rule for_up_rule [where P = "\<lambda>j s'. s' = s + word_of_nat (join_count hs n j)"])
      (use tab in \<open>auto simp: aget_def probe_ok [OF inv hs] join_count_def\<close>)
  then show ?thesis by (simp add: probe_all_def)
qed

lemma lookups_ok:
  assumes "build_inv hs N n t" "hs \<noteq> 0" "m \<le> length tab" "\<forall>i<m. tab ! i = word_of_nat i"
  shows "lookups hs t tab m k = Some (word_of_nat (k * join_count hs n m))"
proof -
  have "\<exists>s'. for_up 0 k (\<lambda>j. probe_all hs t tab m) 0 = Some s' \<and> s' = word_of_nat (k * join_count hs n m)"
    by (rule for_up_rule [where P = "\<lambda>j s'. s' = word_of_nat (j * join_count hs n m)"])
      (auto simp: probe_all_ok [OF assms] algebra_simps)
  then show ?thesis by (simp add: lookups_def)
qed

section \<open>The program\<close>

text \<open>The environment lets every allocation and both marker files succeed, and the sizes fit in 64 bits.\<close>

definition hj_runs :: "hj_env \<Rightarrow> hj_config \<Rightarrow> bool" where
  "hj_runs env cfg \<longleftrightarrow> mem_ok env (hashsize cfg * 8) \<and> mem_ok env (innersize cfg * 16) \<and> mem_ok env (outersize cfg * 128)
     \<and> ready_ok env \<and> done_ok env \<and> unat (hashsize cfg) < 2 ^ 61 \<and> unat (innersize cfg) < 2 ^ 60
     \<and> unat (outersize cfg) < 2 ^ 57"

lemma hj_allocate_ok:
  assumes "mem_ok env (cnt * word_of_nat sz)" "unat cnt * sz < 2 ^ 64" "0 < sz"
  shows "hj_allocate env cnt sz z = Some (replicate (unat cnt) z)"
proof -
  have "sz < 2 ^ 64 \<or> unat cnt = 0" using assms(2,3) by (cases "unat cnt") (auto simp: less_le_trans)
  then have "unat (cnt * word_of_nat sz) = unat cnt * sz"
    using assms(2) by (auto simp: unat_word_ariths unat_of_nat take_bit_eq_mod unsigned_of_nat)
  with assms show ?thesis by (simp add: hj_allocate_def)
qed

lemma hj_main_ok:
  assumes "hj_options (getopt_events ''s:n:o:i:'' argv) hj_defaults = Some cfg" "hj_runs env cfg" "hashsize cfg \<noteq> 0"
    "nlookups cfg \<noteq> 0"
  defines "ms \<equiv> word_of_nat (unat (nlookups cfg) * join_count (hashsize cfg) (unat (innersize cfg)) (unat (outersize cfg)))"
  shows "hj_main env argv = Some (Return 0 (Some \<lparr>r_sizes = hj_sizes cfg, r_sleeps = wait_flushed env 0 600, r_matches = ms,
    r_per_iteration = ms div nlookups cfg, r_probes = 2 * outersize cfg,
    r_conflicts = word_of_nat (conflicts (hashsize cfg) (unat (innersize cfg)))\<rparr>))"
proof -
  let ?hs = "hashsize cfg" and ?n = "unat (innersize cfg)" and ?m = "unat (outersize cfg)"
  let ?e = "\<lparr>elkey = 0, elnext = None\<rparr> :: htelm"
  note R = assms(2) [unfolded hj_runs_def]
  have a: "hj_allocate env ?hs sizeof_ptr (None :: nat option) = Some (replicate (unat ?hs) None)"
    "hj_allocate env (innersize cfg) sizeof_htelm ?e = Some (replicate ?n ?e)"
    "hj_allocate env (outersize cfg) sizeof_element (0 :: u64) = Some (replicate ?m 0)"
    using R by (intro hj_allocate_ok; simp add: sizeof_ptr_def sizeof_htelm_def sizeof_element_def CONFIG_ELEMENT_TUPLE_SIZE_def)+
  obtain t where t: "build ?hs ?n \<lparr>hashtable = replicate (unat ?hs) None, htelms = replicate ?n ?e, nconflicts = 0\<rparr> = Some t"
    "build_inv ?hs ?n ?n t"
    using build_ok [OF assms(3), of "replicate (unat ?hs) None" "replicate ?n ?e" ?n] by auto
  obtain tab where tab: "fill_outer ?m (replicate ?m 0) = Some tab" "length tab = ?m" "\<forall>i<?m. tab ! i = word_of_nat i"
    using fill_outer_ok [of ?m "replicate ?m 0"] by auto
  have "lookups ?hs t tab ?m (unat (nlookups cfg)) = Some ms"
    unfolding ms_def using lookups_ok [OF t(2) assms(3)] tab by simp
  moreover have "nconflicts t = word_of_nat (conflicts ?hs ?n)" using t(2) by (simp add: build_inv_def)
  ultimately show ?thesis
    using R assms(1,4) a t(1) tab(1) by (simp add: hj_main_def hj_join_def)
qed

text \<open>
  C18: The join reports the right number of matches. When the table is not empty, the sizes fit and no system call
  fails, the program returns 0 with a match count of \<open>nlookups\<close> times the sum over the outer keys of the number
  of buckets (among the two that the digests select) in which the key is found: a key of the inner relation
  \<open>{4, 8, \<dots>, 4 * innersize}\<close> counts once, or twice when both digests select the same bucket, any other key
  counts nothing. The conflict count is the number of inner keys less the number of buckets in use.
\<close>

theorem hash_join_matches:
  assumes "hj_options (getopt_events ''s:n:o:i:'' argv) hj_defaults = Some cfg" "hj_runs env cfg" "hashsize cfg \<noteq> 0"
    "nlookups cfg \<noteq> 0"
  shows "\<exists>r. hj_main env argv = Some (Return 0 (Some r)) \<and>
    r_matches r = word_of_nat (unat (nlookups cfg) * (\<Sum>i<unat (outersize cfg).
      if (word_of_nat i :: u64) \<in> (\<lambda>j. 4 * (word_of_nat j + 1)) ` {..<unat (innersize cfg)}
      then (if snd (digest (word_of_nat i)) mod hashsize cfg = fst (digest (word_of_nat i)) mod hashsize cfg then 2 else 1)
      else 0)) \<and>
    r_conflicts r = word_of_nat (unat (innersize cfg) -
      card ((\<lambda>j. fst (digest (4 * (word_of_nat j + 1))) mod hashsize cfg) ` {..<unat (innersize cfg)}))"
proof -
  have k: "inner_key = (\<lambda>j. 4 * (word_of_nat j + 1))"
    by (simp add: fun_eq_iff inner_key_def CONFIG_INNER_KEY_STRIDE_def mult.commute)
  have c: "card ((\<lambda>i. unat (f i :: u64)) ` A) = card (f ` A)" for f :: "nat \<Rightarrow> u64" and A
    using card_image [OF inj_on_subset [OF inj_unsigned subset_UNIV], of "f ` A"] by (simp add: image_image)
  have u: "unat a = unat b \<longleftrightarrow> a = b" for a b :: u64 by (simp add: word_unat_eq_iff)
  show ?thesis
    unfolding hj_main_ok [OF assms] join_count_def key_matches_def conflicts_def bucket_def bucket2_def inner_keys_def k u c
    by (intro exI conjI, rule refl) (simp_all only: hj_report.simps)
qed


definition small_env :: hj_env where
  "small_env = \<lparr>mem_ok = (\<lambda>n. n \<le> 4096), ready_ok = True, done_ok = True, flushed = (\<lambda>i. i = 2)\<rparr>"

definition small_args :: "string \<Rightarrow> string list" where
  "small_args n = [''hashjoin'', ''-s'', ''3'', ''-n'', n, ''-o'', ''9'', ''-i2'']"

lemma small_options:
  "hj_options (getopt_events ''s:n:o:i:'' (small_args ''5'')) hj_defaults = Some \<lparr>hashsize = 3, nlookups = 5, outersize = 9, innersize = 2\<rparr>"
  "hj_options (getopt_events ''s:n:o:i:'' (small_args ''0'')) hj_defaults = Some \<lparr>hashsize = 3, nlookups = 0, outersize = 9, innersize = 2\<rparr>"
  by code_simp+

lemma small_runs: "hj_runs small_env \<lparr>hashsize = 3, nlookups = n, outersize = 9, innersize = 2\<rparr>"
  by (simp add: hj_runs_def small_env_def)

theorem hash_join_matches_witness:
  "hj_runs small_env \<lparr>hashsize = 3, nlookups = 5, outersize = 9, innersize = 2\<rparr> \<and>
   (\<exists>r. hj_main small_env (small_args ''5'') = Some (Return 0 (Some r)))"
  using hash_join_matches [OF small_options(1) small_runs] small_runs by auto


end
