(* ===== verification/Harness.thy ===== *)
theory Harness
  imports Getopt "HOL-Library.Sublist"
begin

text \<open>
  The \<open>main\<close> functions of \<open>sources/common\<close> (\<open>main-mt.c\<close>, \<open>main-st.c\<close>, \<open>main-ptdump.c\<close>) and of
  \<open>sources/hashjoin/src/main.c\<close> that start every benchmark: option handling, the split of \<open>argv\<close> at \<open>--\<close>, the
  marker files that tell the scripts when the run starts and ends, and the report around the call of
  \<open>real_main\<close>. A run is its exit status and the list of its effects in order; what the operating system
  answers is a record. \<open>getopt\<close>'s own diagnostics are not part of the list.
\<close>

section \<open>Printing\<close>

fun show_nat :: "nat \<Rightarrow> string" where
  "show_nat n = (if n < 10 then [char_of (48 + n)] else show_nat (n div 10) @ [char_of (48 + n mod 10)])"

declare show_nat.simps [simp del]

definition show_int :: "int \<Rightarrow> string" where
  "show_int i = (if i < 0 then ''-'' @ show_nat (nat (- i)) else show_nat (nat i))"

definition show_u64 :: "u64 \<Rightarrow> string" where
  "show_u64 w = show_nat (unat w)"

text \<open>\<open>%03zu\<close>\<close>

definition pad3 :: "string \<Rightarrow> string" where
  "pad3 s = replicate (3 - length s) CHR ''0'' @ s"

definition NL :: string where "NL = [CHR 0x0A]"
definition QUOTE :: string where "QUOTE = [CHR 0x27]"
definition DQUOTE :: string where "DQUOTE = [CHR 0x22]"

text \<open>Division of C, which truncates towards zero.\<close>

definition cdiv :: "int \<Rightarrow> int \<Rightarrow> int" where
  "cdiv a b = sgn a * sgn b * (\<bar>a\<bar> div \<bar>b\<bar>)"

section \<open>Effects and the environment\<close>

datatype effect =
    Stdout string
  | Stderr string
  | Out "string option" string
  | Create string
  | Usleep nat
  | Membind int
  | Affinity nat
  | Bind_policy
  | Catch_usr1
  | Run "string list"
  | Flush

type_synonym run = "int \<times> effect list"

definition emit :: "effect list \<Rightarrow> run \<Rightarrow> run" where
  "emit es r = (fst r, es @ snd r)"

record time =
  tv_sec :: int
  tv_usec :: int

record henv =
  numa_ok :: bool
  nodemask_ok :: bool
  numa_nodes :: int
  ncpus :: nat
  openmp :: bool
  signal_disabled :: bool
  append_ok :: "string \<Rightarrow> bool"
  create_ok :: "string \<Rightarrow> bool"
  stats_seen :: "nat \<Rightarrow> bool"
  ptdump_ok :: bool
  tstart :: time
  tend :: time

definition SHM_FILE_NAME :: string where "SHM_FILE_NAME = ''/tmp/alloctest-bench''"

definition READY :: string where "READY = SHM_FILE_NAME @ ''.ready''"
definition DONE :: string where "DONE = SHM_FILE_NAME @ ''.done''"

definition argv0 :: "string list \<Rightarrow> string" where
  "argv0 argv = (case argv of [] \<Rightarrow> ''(null)'' | a # _ \<Rightarrow> a)"

definition echo_args :: "string list \<Rightarrow> effect list" where
  "echo_args argv = map (\<lambda>a. Stdout (a @ '' '')) argv @ [Stdout NL]"

text \<open>The loop that looks for \<open>--\<close> and hands the rest, with the program name in its place, to \<open>real_main\<close>.\<close>

fun split_from :: "string \<Rightarrow> string list \<Rightarrow> string list option" where
  "split_from p [] = None"
| "split_from p (a # as) = (if a = ''--'' then Some (p # as) else split_from p as)"

definition prog_argv :: "string list \<Rightarrow> string list" where
  "prog_argv argv = (case split_from (argv0 argv) argv of Some as \<Rightarrow> as | None \<Rightarrow> argv)"

text \<open>Creating a marker file; the program exits with -1 when it cannot.\<close>

definition marker :: "henv \<Rightarrow> string \<Rightarrow> run \<Rightarrow> run" where
  "marker env f r =
     (if create_ok env f then emit [Create f] r
      else (- 1, [Stderr (''ERROR: could not create the shared memory file descriptor'' @ NL)]))"

definition took :: "henv \<Rightarrow> string" where
  "took env = show_u64 (word_of_int (tv_sec (tend env) - tv_sec (tstart env))) @ ''.'' @
     pad3 (show_u64 (word_of_int (cdiv (tv_usec (tend env) - tv_usec (tstart env)) 1000)))"

definition to_int :: "int \<Rightarrow> int" where
  "to_int v = sint (word_of_int v :: 32 word)"

definition CHECK_NODE :: "henv \<Rightarrow> string \<Rightarrow> int \<Rightarrow> int \<times> effect list" where
  "CHECK_NODE env what n =
     (if n < 0 \<or> numa_nodes env \<le> n
      then (0, [Stderr (''WARNING: provided numa node for '' @ what @ '' was '' @ '' '' @ show_int n
                 @ '' out of supported range! setting to 0.'' @ NL)])
      else (n, []))"

text \<open>\<open>-o FILE\<close>\<close>

definition open_out :: "henv \<Rightarrow> string \<Rightarrow> string option \<times> effect list" where
  "open_out env f =
     (if append_ok env f then (Some f, [])
      else (None, [Stderr (''Could not open the file '' @ QUOTE @ f @ QUOTE @ '' switching to stdout'' @ NL)]))"

section \<open>Options\<close>

record hconfig =
  node_pte :: int
  node_data :: int
  node_run :: int
  mem_size :: u64
  huge :: bool
  interference :: bool
  dump_crc :: bool
  dump_full :: bool
  num_threads :: int
  out_file :: "string option"

definition mt_defaults :: hconfig where
  "mt_defaults = \<lparr>node_pte = 0, node_data = - 1, node_run = 0, mem_size = push_bit 30 1, huge = False,
     interference = False, dump_crc = False, dump_full = False, num_threads = 1, out_file = None\<rparr>"

definition st_defaults :: hconfig where
  "st_defaults = mt_defaults\<lparr>node_data := 0\<rparr>"

definition usage :: "string \<Rightarrow> effect list" where
  "usage prog = [Stdout (''usage: '' @ prog @ '' [-p N] [-d N] [-r N] [-m N] [-o FILE]'' @ NL),
     Stdout (''p: pagetable node, d: datanode, r: runnode, m: memory in GB'' @ NL)]"

definition bad_option :: "char list \<Rightarrow> char \<Rightarrow> effect" where
  "bad_option args c =
     (if c \<in> set args then Stderr (''Option -'' @ [c] @ '' requires an argument.'' @ NL)
      else Stderr (''Unknown option '' @ [CHR 0x60] @ ''-'' @ [c] @ QUOTE @ ''.'' @ NL))"

text \<open>The option loops: the status of an early return or the configuration, and the effects on the way.\<close>

fun mt_options :: "henv \<Rightarrow> string \<Rightarrow> opt_event list \<Rightarrow> hconfig \<Rightarrow> (int + hconfig) \<times> effect list" where
  "mt_options env prog [] cfg = (Inr cfg, [])"
| "mt_options env prog (BadOpt c # evs) cfg = (Inl (- 1), [bad_option ''prdmo'' c])"
| "mt_options env prog (Opt c optarg # evs) cfg =
     (let go = (\<lambda>(cfg, es). let (r, es') = mt_options env prog evs cfg in (r, es @ es')) in
      if c = CHR ''p'' then (let (n, es) = CHECK_NODE env ''pagetable node'' (to_int (strtol10 optarg)) in go (cfg\<lparr>node_pte := n\<rparr>, es))
      else if c = CHR ''d'' then (let (n, es) = CHECK_NODE env ''data node'' (to_int (strtol10 optarg)) in go (cfg\<lparr>node_data := n\<rparr>, es))
      else if c = CHR ''m'' then go (cfg\<lparr>mem_size := push_bit 30 (fst (strtoull10 optarg))\<rparr>, [])
      else if c = CHR ''t'' then go (cfg\<lparr>huge := True\<rparr>, [])
      else if c = CHR ''h'' then (Inl 0, usage prog)
      else if c = CHR ''o'' then (let (f, es) = open_out env optarg in go (cfg\<lparr>out_file := f\<rparr>, es))
      else go (cfg, []))"

fun st_options :: "henv \<Rightarrow> string \<Rightarrow> opt_event list \<Rightarrow> hconfig \<Rightarrow> (int + hconfig) \<times> effect list" where
  "st_options env prog [] cfg = (Inr cfg, [])"
| "st_options env prog (BadOpt c # evs) cfg = (Inl (- 1), [bad_option ''prdmo'' c])"
| "st_options env prog (Opt c optarg # evs) cfg =
     (let go = (\<lambda>(cfg, es). let (r, es') = st_options env prog evs cfg in (r, es @ es')) in
      if c = CHR ''p'' then (let (n, es) = CHECK_NODE env ''pagetable node'' (to_int (strtol10 optarg)) in go (cfg\<lparr>node_pte := n\<rparr>, es))
      else if c = CHR ''d'' then (let (n, es) = CHECK_NODE env ''data node'' (to_int (strtol10 optarg)) in go (cfg\<lparr>node_data := n\<rparr>, es))
      else if c = CHR ''r'' then (let (n, es) = CHECK_NODE env ''run node'' (to_int (strtol10 optarg)) in go (cfg\<lparr>node_run := n\<rparr>, es))
      else if c = CHR ''m'' then go (cfg\<lparr>mem_size := push_bit 30 (fst (strtoull10 optarg))\<rparr>, [])
      else if c = CHR ''t'' then go (cfg\<lparr>huge := True\<rparr>, [])
      else if c = CHR ''i'' then go (cfg\<lparr>interference := True\<rparr>, [])
      else if c = CHR ''s'' then go (cfg\<lparr>num_threads := 0\<rparr>, [])
      else if c = CHR ''h'' then (Inl 0, usage prog)
      else if c = CHR ''o'' then (let (f, es) = open_out env optarg in go (cfg\<lparr>out_file := f\<rparr>, es))
      else go (cfg, []))"

fun pt_options :: "henv \<Rightarrow> string \<Rightarrow> opt_event list \<Rightarrow> hconfig \<Rightarrow> (int + hconfig) \<times> effect list" where
  "pt_options env prog [] cfg = (Inr cfg, [])"
| "pt_options env prog (BadOpt c # evs) cfg = (Inl (- 1), [bad_option ''prdmo'' c])"
| "pt_options env prog (Opt c optarg # evs) cfg =
     (let go = (\<lambda>(cfg, es). let (r, es') = pt_options env prog evs cfg in (r, es @ es')) in
      if c = CHR ''p'' then (let (n, es) = CHECK_NODE env ''pagetable node'' (to_int (strtol10 optarg)) in go (cfg\<lparr>node_pte := n\<rparr>, es))
      else if c = CHR ''d'' then (let (n, es) = CHECK_NODE env ''data node'' (to_int (strtol10 optarg)) in go (cfg\<lparr>node_data := n\<rparr>, es))
      else if c = CHR ''m'' then go (cfg\<lparr>mem_size := push_bit 30 (fst (strtoull10 optarg))\<rparr>, [])
      else if c = CHR ''c'' then go (cfg\<lparr>dump_crc := True\<rparr>, [])
      else if c = CHR ''f'' then go (cfg\<lparr>dump_full := True\<rparr>, [])
      else if c = CHR ''t'' then go (cfg\<lparr>huge := True\<rparr>, [])
      else if c = CHR ''h'' then (Inl 0, usage prog)
      else if c = CHR ''o'' then (let (f, es) = open_out env optarg in go (cfg\<lparr>out_file := f\<rparr>, es))
      else go (cfg, []))"

text \<open>\<open>hashjoin/src/main.c\<close> knows \<open>-o\<close> and \<open>-h\<close> only.\<close>

fun hj_main_options :: "henv \<Rightarrow> string \<Rightarrow> opt_event list \<Rightarrow> string option \<Rightarrow> (int + string option) \<times> effect list" where
  "hj_main_options env prog [] out = (Inr out, [])"
| "hj_main_options env prog (BadOpt c # evs) out = (Inl (- 1), [bad_option ''o'' c])"
| "hj_main_options env prog (Opt c optarg # evs) out =
     (if c = CHR ''h'' then (Inl 0, [Stdout (''usage: '' @ prog @ '' [-o FILE]'' @ NL)])
      else if c = CHR ''o''
      then (let (f, es) = open_out env optarg; (r, es') = hj_main_options env prog evs f in (r, es @ es'))
      else hj_main_options env prog evs out)"

section \<open>The report\<close>

definition openmp_line :: "henv \<Rightarrow> string" where
  "openmp_line env = (if openmp env then ''  <openmp>on</openmp>'' else ''  <openmp>off</openmp>'')"

definition show_bool :: "bool \<Rightarrow> string" where
  "show_bool b = (if b then ''1'' else ''0'')"

definition benchmark_line :: "string \<Rightarrow> string" where
  "benchmark_line prog = ''<benchmark exec='' @ DQUOTE @ prog @ DQUOTE @ ''>'' @ NL"

definition mt_config :: "henv \<Rightarrow> hconfig \<Rightarrow> string list" where
  "mt_config env cfg =
     [''<config>'' @ NL, openmp_line env,
      ''  <memsize>'' @ show_u64 (drop_bit 30 (mem_size cfg)) @ ''G <memsize>'',
      ''  <hugetlb>'' @ show_bool (huge cfg) @ ''</hugetlb>'' @ NL,
      ''  <data>'' @ show_int (node_data cfg) @ ''</data>'',
      ''  <interference>'' @ show_bool (interference cfg) @ ''</interference>'' @ NL,
      ''</config>'' @ NL]"

definition st_config :: "henv \<Rightarrow> hconfig \<Rightarrow> string list" where
  "st_config env cfg =
     [''<config>'' @ NL, openmp_line env,
      ''  <memsize>'' @ show_u64 (drop_bit 30 (mem_size cfg)) @ ''G <memsize>'',
      ''  <hugetlb>'' @ show_bool (huge cfg) @ ''</hugetlb>'' @ NL,
      ''  <data>'' @ show_int (node_data cfg) @ ''</data>'',
      ''  <pte>'' @ show_int (node_pte cfg) @ ''</pte>'',
      ''  <run>'' @ show_int (node_run cfg) @ ''</run>'' @ NL,
      ''  <interference>'' @ show_bool (interference cfg) @ ''</interference>'' @ NL,
      ''</config>'' @ NL]"

definition ready_signal :: "henv \<Rightarrow> run \<Rightarrow> run" where
  "ready_signal env r =
     (if signal_disabled env then r
      else emit [Stderr (''signalling readyness to '' @ READY @ NL)] (marker env READY (emit [Usleep 250] r)))"

text \<open>\<open>while (access(stats_path, F_OK) != 0)\<close> with its bound of 3001 rounds.\<close>

fun stats_wait :: "henv \<Rightarrow> nat \<Rightarrow> nat \<Rightarrow> effect list" where
  "stats_wait env waited 0 = [Stderr (''WARNING: timed out waiting for stats capture'' @ NL)]"
| "stats_wait env waited (Suc k) =
     (if stats_seen env waited then []
      else Usleep 10000 # (if 3000 < Suc waited then [Stderr (''WARNING: timed out waiting for stats capture'' @ NL)]
                           else stats_wait env (Suc waited) k))"

section \<open>The main functions\<close>

definition main_mt :: "henv \<Rightarrow> string list \<Rightarrow> run" where
  "main_mt env argv =
     (let prog = argv0 argv; spec = ''p:d:m:o:fhitc'';
          (res, es) = mt_options env prog (getopt_events spec argv) mt_defaults in
      emit (echo_args argv @ es)
        (case res of Inl st \<Rightarrow> (st, [])
         | Inr cfg \<Rightarrow> (let out = Out (out_file cfg) in
            ready_signal env
              (emit (map out (benchmark_line prog # mt_config env cfg) @ [Catch_usr1, out (''<run>'' @ NL)])
                (emit [Run (prog_argv (getopt_argv spec argv)), out (''</run>'' @ NL)]
                  (marker env DONE
                    (0, stats_wait env 0 3001 @ [Stdout (''Took: '' @ took env @ NL), out (''Took: '' @ took env @ NL),
                         out (''</benchmark>'' @ NL), Flush])))))))"

definition main_st :: "henv \<Rightarrow> string list \<Rightarrow> run" where
  "main_st env argv = emit (echo_args argv)
     (if \<not> numa_ok env then (- 1, [Stderr (''ERROR: Numa not available on this machine.'' @ NL)])
      else if \<not> nodemask_ok env then (- 1, [Stderr (''ERROR: No memory for nodemask'' @ NL)])
      else (let prog = argv0 argv; spec = ''p:d:r:m:o:fhistc'';
          (res, es) = st_options env prog (getopt_events spec argv) st_defaults in
      emit es
        (case res of Inl st \<Rightarrow> (st, [])
         | Inr cfg \<Rightarrow> (let out = Out (out_file cfg); pargv = prog_argv (getopt_argv spec argv) in
            emit (map (\<lambda>(i, a). Stdout (''prog_argv['' @ show_nat i @ '']='' @ a @ NL)) (enumerate 0 pargv)
                  @ [Stderr (''NO signalling readyness to '' @ READY @ NL)])
             (ready_signal env
              (emit (map out (benchmark_line prog # st_config env cfg) @ [Bind_policy, Catch_usr1, out (''<run>'' @ NL)])
                (emit [Run pargv, out (''</run>'' @ NL)]
                  (marker env DONE
                    (0, [Usleep 250, Stdout (''Took: '' @ took env @ NL), out (''Took: '' @ took env @ NL),
                         out (''</benchmark>'' @ NL)]))))))))) "

definition pt_numa :: "henv \<Rightarrow> hconfig \<Rightarrow> effect list" where
  "pt_numa env cfg =
     (let bind = (if node_data cfg \<noteq> - 1 then [Membind (node_data cfg)] else []) in
      bind @ (if openmp env
        then Stderr (''Total CPUs: '' @ show_nat (ncpus env) @ '', Total NUMA nodes: '' @ show_int (numa_nodes env)
                @ '', Threads used: '' @ show_nat (ncpus env) @ NL)
             # concat (map (\<lambda>i. Affinity i # bind) [0..<ncpus env])
        else []))"

definition main_ptdump :: "henv \<Rightarrow> string list \<Rightarrow> run" where
  "main_ptdump env argv =
     (let prog = argv0 argv; spec = ''p:d:m:o:fhitc'';
          (res, es) = pt_options env prog (getopt_events spec argv) mt_defaults in
      emit (echo_args argv @ es)
        (case res of Inl st \<Rightarrow> (st, [])
         | Inr cfg \<Rightarrow> (let out = Out (out_file cfg) in
            emit (pt_numa env cfg)
            (ready_signal env
              (emit (map out (benchmark_line prog # mt_config env cfg))
               (if (dump_full cfg \<or> dump_crc cfg) \<and> \<not> ptdump_ok env
                then (- 1, [Stderr (''Can'' @ QUOTE @ ''t open device file: /proc/ptdumpself'' @ NL)])
                else
                 emit [Catch_usr1, out (''<run>'' @ NL), Run (prog_argv (getopt_argv spec argv)), out (''</run>'' @ NL)]
                  (marker env DONE
                    (0, [Usleep 250, Stdout (''Took: '' @ took env @ NL), out (''Took: '' @ took env @ NL),
                         out (''</benchmark>'' @ NL), Flush]))))))))"

definition main_hashjoin :: "henv \<Rightarrow> string list \<Rightarrow> run" where
  "main_hashjoin env argv = emit (echo_args argv)
     (if \<not> numa_ok env then (- 1, [Stderr (''ERROR: Numa not available on this machine.'' @ NL)])
      else (let prog = argv0 argv; (res, es) = hj_main_options env prog (getopt_events ''o:h'' argv) None in
      emit es
        (case res of Inl st \<Rightarrow> (st, [])
         | Inr f \<Rightarrow> (let out = Out f in
            (0, [out (benchmark_line prog), out (''<config>'' @ NL), out (openmp_line env), out (''</config>'' @ NL),
                 Bind_policy, Catch_usr1, out (''<run>'' @ NL), Run (prog_argv (getopt_argv ''o:h'' argv)),
                 out (''</run>'' @ NL), Stdout (''Total time: '' @ took env @ NL), out (''</benchmark>'' @ NL)])))))"

text \<open>The handler of SIGUSR1.\<close>

definition signalhandler :: "henv \<Rightarrow> string option \<Rightarrow> int \<Rightarrow> run" where
  "signalhandler env f sig = emit [Out f (''<sig>Signal '' @ show_int sig @ '' caught!</sig>'' @ NL)]
     (marker env DONE (0, [Usleep 250, Out f (''</benchmark>'' @ NL)]))"

section \<open>The start and end protocol\<close>

definition milestones :: "effect list \<Rightarrow> effect list" where
  "milestones = filter (\<lambda>e. case e of Create _ \<Rightarrow> True | Run _ \<Rightarrow> True | _ \<Rightarrow> False)"

definition protocol :: "henv \<Rightarrow> string list \<Rightarrow> effect list" where
  "protocol env args = (if signal_disabled env then [] else [Create READY]) @ [Run args, Create DONE]"

text \<open>
  A run follows the protocol: its milestones are a prefix of it, and all of it unless the run fails
  or stops before its first milestone.
\<close>

definition follows :: "henv \<Rightarrow> string list \<Rightarrow> run \<Rightarrow> bool" where
  "follows env args r \<longleftrightarrow> prefix (milestones (snd r)) (protocol env args) \<and>
     (fst r = 0 \<longrightarrow> milestones (snd r) \<in> {[], protocol env args})"

lemma milestones_simps [simp]:
  "milestones [] = []" "milestones (es @ es') = milestones es @ milestones es'"
  "milestones (Stdout s # es) = milestones es" "milestones (Stderr s # es) = milestones es"
  "milestones (Out f s # es) = milestones es" "milestones (Usleep k # es) = milestones es"
  "milestones (Membind m # es) = milestones es" "milestones (Affinity i # es) = milestones es"
  "milestones (Bind_policy # es) = milestones es" "milestones (Catch_usr1 # es) = milestones es"
  "milestones (Flush # es) = milestones es"
  "milestones (Create n # es) = Create n # milestones es" "milestones (Run as # es) = Run as # milestones es"
  by (simp_all add: milestones_def)

lemma milestones_map [simp]: "(\<And>x. milestones [g x] = []) \<Longrightarrow> milestones (map g xs) = []"
proof (induction xs)
  case (Cons x xs)
  have "milestones (map g (x # xs)) = milestones [g x] @ milestones (map g xs)" by (simp add: milestones_def)
  with Cons show ?case by simp
qed simp

lemma milestones_concat: "(\<And>x. milestones (g x) = []) \<Longrightarrow> milestones (concat (map g xs)) = []"
  by (induction xs) auto

lemma milestones_stats_wait [simp]: "milestones (stats_wait env w k) = []"
  by (induction env w k rule: stats_wait.induct) auto

lemma milestones_echo [simp]: "milestones (echo_args argv) = []"
  by (simp add: echo_args_def)

lemma milestones_numa [simp]: "milestones (pt_numa env cfg) = []"
  by (simp add: pt_numa_def Let_def milestones_concat)

lemma milestones_helpers:
  "milestones (snd (CHECK_NODE env what n)) = []" "milestones (snd (open_out env f)) = []" "milestones (usage p) = []"
  "milestones [bad_option as c] = []"
  by (simp_all add: CHECK_NODE_def open_out_def usage_def bad_option_def)

lemma milestones_mt_options [simp]: "milestones (snd (mt_options env p evs cfg)) = []"
  by (induction env p evs cfg rule: mt_options.induct) (simp_all add: Let_def case_prod_beta milestones_helpers)

lemma milestones_st_options [simp]: "milestones (snd (st_options env p evs cfg)) = []"
  by (induction env p evs cfg rule: st_options.induct) (simp_all add: Let_def case_prod_beta milestones_helpers)

lemma milestones_pt_options [simp]: "milestones (snd (pt_options env p evs cfg)) = []"
  by (induction env p evs cfg rule: pt_options.induct) (simp_all add: Let_def case_prod_beta milestones_helpers)

lemma milestones_emit [simp]: "milestones (snd (emit es r)) = milestones es @ milestones (snd r)" "fst (emit es r) = fst r"
  by (simp_all add: emit_def)

lemma milestones_marker:
  "milestones (snd (marker env f r)) = (if create_ok env f then Create f # milestones (snd r) else [])"
  "fst (marker env f r) = (if create_ok env f then fst r else - 1)"
  by (simp_all add: marker_def)

lemma milestones_ready:
  "milestones (snd (ready_signal env r)) = (if signal_disabled env then milestones (snd r)
     else if create_ok env READY then Create READY # milestones (snd r) else [])"
  "fst (ready_signal env r) = (if signal_disabled env \<or> create_ok env READY then fst r else - 1)"
  by (simp_all add: ready_signal_def milestones_marker)

lemmas protocol_simps = follows_def protocol_def milestones_marker milestones_ready

text \<open>
  C20: The scripts can rely on the marker files. In each of the three common \<open>main\<close> functions, for any command line
  and whatever the system answers, the benchmark is run at most once, with the arguments after \<open>--\<close>, only after the
  \<open>.ready\<close> file was created (unless signalling is compiled out), and the \<open>.done\<close> file is created only
  after it returned; status 0 means that all of this happened, or nothing of it (\<open>-h\<close>).
\<close>

theorem harness_protocol:
  "follows env (prog_argv (getopt_argv ''p:d:m:o:fhitc'' argv)) (main_mt env argv) \<and>
   follows env (prog_argv (getopt_argv ''p:d:r:m:o:fhistc'' argv)) (main_st env argv) \<and>
   follows env (prog_argv (getopt_argv ''p:d:m:o:fhitc'' argv)) (main_ptdump env argv)"
proof (intro conjI)
  show "follows env (prog_argv (getopt_argv ''p:d:m:o:fhitc'' argv)) (main_mt env argv)"
    by (simp add: main_mt_def Let_def case_prod_beta protocol_simps split: sum.split)
  show "follows env (prog_argv (getopt_argv ''p:d:r:m:o:fhistc'' argv)) (main_st env argv)"
    by (simp add: main_st_def Let_def case_prod_beta protocol_simps split: sum.split)
  show "follows env (prog_argv (getopt_argv ''p:d:m:o:fhitc'' argv)) (main_ptdump env argv)"
    by (simp add: main_ptdump_def Let_def case_prod_beta protocol_simps split: sum.split)
qed

section \<open>The arguments of the benchmark\<close>

lemma opt_cluster_append:
  "opt_cluster spec cs rest = (evs, r, u) \<Longrightarrow> (\<forall>c. BadOpt c \<notin> set evs) \<Longrightarrow> opt_cluster spec cs (rest @ xs) = (evs, r @ xs, u)"
proof (induction spec cs rest arbitrary: evs r u rule: opt_cluster.induct)
  case (2 spec c cs rest)
  show ?case
  proof (cases "opt_kind spec c")
    case None
    with 2(3,4) show ?thesis by (auto split: prod.splits)
  next
    case (Some b)
    with 2 show ?thesis by (cases b) (auto split: prod.splits if_splits list.splits)
  qed
qed auto

lemma getopt_scan_dashes:
  "getopt_scan spec opts = (evs, os, ns) \<Longrightarrow> (\<forall>c. BadOpt c \<notin> set evs) \<Longrightarrow> ''--'' \<notin> set opts \<Longrightarrow>
   getopt_scan spec (opts @ ''--'' # args) = (evs, os @ [''--''], ns @ args)"
proof (induction spec opts arbitrary: evs os ns rule: getopt_scan.induct)
  case (2 spec a as)
  show ?case
  proof (cases "is_option a")
    case False
    with 2 show ?thesis by (auto split: prod.splits)
  next
    case True
    obtain e1 r u where c: "opt_cluster spec (tl a) as = (e1, r, u)" by (metis prod_cases3)
    obtain e2 os' ns' where g: "getopt_scan spec r = (e2, os', ns')" by (metis prod_cases3)
    have eq: "evs = e1 @ e2" "os = a # u @ os'" "ns = ns'" using 2(3,5) True c g by auto
    have ur: "u @ r = as" by (rule opt_cluster_args [OF c])
    have "getopt_scan spec (r @ ''--'' # args) = (e2, os' @ [''--''], ns' @ args)"
      using 2(1) [OF _ True c [symmetric] refl refl g] 2(4,5) eq ur by (metis Un_iff list.set_intros(1) list.set_intros(2) set_append)
    then show ?thesis using opt_cluster_append [OF c] 2(4,5) eq True by auto
  qed
qed auto

lemma split_from_append: "''--'' \<notin> set os \<Longrightarrow> split_from p (os @ ''--'' # as) = Some (p # as)"
  by (induction os) auto

text \<open>
  C21: The benchmark receives exactly its own arguments. When the options in front of \<open>--\<close> are well-formed for the
  option string of the \<open>main\<close> function, \<open>real_main\<close> is called with the program name followed by what comes
  after \<open>--\<close>, in order, even though \<open>getopt\<close> permutes \<open>argv\<close>.
\<close>

theorem harness_forwards_arguments:
  assumes scan: "getopt_scan spec opts = (evs, os, [])" and good: "\<forall>c. BadOpt c \<notin> set evs"
    and dash: "''--'' \<notin> set opts" "p \<noteq> ''--''"
  shows "prog_argv (getopt_argv spec (p # opts @ ''--'' # args)) = p # args"
proof -
  have "''--'' \<notin> set os" using getopt_scan_mset [OF scan] dash by (metis append_Nil2 set_mset_mset)
  then show ?thesis
    using split_from_append [of "p # os" p args] getopt_scan_dashes [OF scan good dash(1), of args] dash(2)
    by (simp add: getopt_argv_def prog_argv_def argv0_def)
qed

theorem harness_forwards_arguments_witness:
  "prog_argv (getopt_argv ''p:d:m:o:fhitc'' [''bench'', ''-t'', ''-d'', ''1'', ''--'', ''-n'', ''5'']) = [''bench'', ''-n'', ''5'']"
proof -
  have "getopt_scan ''p:d:m:o:fhitc'' [''-t'', ''-d'', ''1''] = ([Opt CHR ''t'' [], Opt CHR ''d'' ''1''], [''-t'', ''-d'', ''1''], [])"
    by code_simp
  from harness_forwards_arguments [OF this, of "''bench''" "[''-n'', ''5'']"] show ?thesis by simp
qed

section \<open>Options\<close>

definition node_ok :: "henv \<Rightarrow> int \<Rightarrow> bool" where
  "node_ok env n \<longleftrightarrow> 0 \<le> n \<and> n < numa_nodes env"

definition nodes_ok :: "henv \<Rightarrow> hconfig \<Rightarrow> bool" where
  "nodes_ok env cfg \<longleftrightarrow> node_ok env (node_pte cfg) \<and> (node_data cfg = - 1 \<or> node_ok env (node_data cfg)) \<and> node_ok env (node_run cfg)"

lemma CHECK_NODE_ok: "0 < numa_nodes env \<Longrightarrow> node_ok env (fst (CHECK_NODE env what n))"
  by (simp add: CHECK_NODE_def node_ok_def)

lemma nodes_ok_update:
  "nodes_ok env cfg \<Longrightarrow> nodes_ok env (cfg\<lparr>huge := b\<rparr>)" "nodes_ok env cfg \<Longrightarrow> nodes_ok env (cfg\<lparr>mem_size := m\<rparr>)"
  "nodes_ok env cfg \<Longrightarrow> nodes_ok env (cfg\<lparr>out_file := f\<rparr>)" "nodes_ok env cfg \<Longrightarrow> nodes_ok env (cfg\<lparr>interference := b\<rparr>)"
  "nodes_ok env cfg \<Longrightarrow> nodes_ok env (cfg\<lparr>num_threads := i\<rparr>)" "nodes_ok env cfg \<Longrightarrow> nodes_ok env (cfg\<lparr>dump_crc := b\<rparr>)"
  "nodes_ok env cfg \<Longrightarrow> nodes_ok env (cfg\<lparr>dump_full := b\<rparr>)"
  "nodes_ok env cfg \<Longrightarrow> node_ok env i \<Longrightarrow> nodes_ok env (cfg\<lparr>node_pte := i\<rparr>)"
  "nodes_ok env cfg \<Longrightarrow> node_ok env i \<Longrightarrow> nodes_ok env (cfg\<lparr>node_data := i\<rparr>)"
  "nodes_ok env cfg \<Longrightarrow> node_ok env i \<Longrightarrow> nodes_ok env (cfg\<lparr>node_run := i\<rparr>)"
  by (simp_all add: nodes_ok_def)

lemma mt_options_nodes:
  "0 < numa_nodes env \<Longrightarrow> nodes_ok env cfg \<Longrightarrow> fst (mt_options env p evs cfg) = Inr cfg' \<Longrightarrow> nodes_ok env cfg'"
  by (induction env p evs cfg rule: mt_options.induct)
    (simp_all add: Let_def case_prod_beta split: if_splits, (blast intro: nodes_ok_update CHECK_NODE_ok)+)

lemma st_options_nodes:
  "0 < numa_nodes env \<Longrightarrow> nodes_ok env cfg \<Longrightarrow> fst (st_options env p evs cfg) = Inr cfg' \<Longrightarrow> nodes_ok env cfg'"
  by (induction env p evs cfg rule: st_options.induct)
    (simp_all add: Let_def case_prod_beta split: if_splits, (blast intro: nodes_ok_update CHECK_NODE_ok)+)

lemma pt_options_nodes:
  "0 < numa_nodes env \<Longrightarrow> nodes_ok env cfg \<Longrightarrow> fst (pt_options env p evs cfg) = Inr cfg' \<Longrightarrow> nodes_ok env cfg'"
  by (induction env p evs cfg rule: pt_options.induct)
    (simp_all add: Let_def case_prod_beta split: if_splits, (blast intro: nodes_ok_update CHECK_NODE_ok)+)

text \<open>
  C22: No configuration names a NUMA node that the machine does not have: whatever the options are, the page table,
  data and run nodes of an accepted command line lie between 0 and the number of nodes (the data node may
  keep its default -1, no binding).
\<close>

theorem accepted_nodes_exist:
  assumes nodes: "0 < numa_nodes env"
    and acc: "Inr cfg \<in> {fst (mt_options env p evs mt_defaults), fst (st_options env p evs st_defaults), fst (pt_options env p evs mt_defaults)}"
  shows "nodes_ok env cfg"
proof -
  have "nodes_ok env mt_defaults" "nodes_ok env st_defaults"
    using nodes by (simp_all add: nodes_ok_def node_ok_def mt_defaults_def st_defaults_def)
  then show ?thesis
    using acc mt_options_nodes [OF nodes] st_options_nodes [OF nodes] pt_options_nodes [OF nodes] by (metis empty_iff insert_iff)
qed

definition sample_henv :: henv where
  "sample_henv = \<lparr>numa_ok = True, nodemask_ok = True, numa_nodes = 4, ncpus = 8, openmp = True, signal_disabled = False,
     append_ok = (\<lambda>_. False), create_ok = (\<lambda>_. True), stats_seen = (\<lambda>i. i = 3), ptdump_ok = True,
     tstart = \<lparr>tv_sec = 10, tv_usec = 900000\<rparr>, tend = \<lparr>tv_sec = 12, tv_usec = 100000\<rparr>\<rparr>"

theorem accepted_nodes_exist_witness:
  "fst (mt_options sample_henv ''bench'' [Opt CHR ''d'' ''7''] mt_defaults) = Inr (mt_defaults\<lparr>node_data := 0\<rparr>) \<and>
   nodes_ok sample_henv (mt_defaults\<lparr>node_data := 0\<rparr>)"
proof -
  have e: "fst (mt_options sample_henv ''bench'' [Opt CHR ''d'' ''7''] mt_defaults) = Inr (mt_defaults\<lparr>node_data := 0\<rparr>)"
    by code_simp
  with accepted_nodes_exist [of sample_henv "mt_defaults\<lparr>node_data := 0\<rparr>" "''bench''" "[Opt CHR ''d'' ''7'']"]
  show ?thesis by (simp add: sample_henv_def)
qed

text \<open>
  C23: The option \<open>-r N\<close> that the usage message of \<open>main-mt.c\<close> and \<open>main-ptdump.c\<close> advertises is always refused, with
  the complaint that it requires an argument, although one is given: it is missing in the option string.
\<close>

theorem run_node_option_refused:
  assumes main: "main \<in> {main_mt, main_ptdump}"
  shows "main env [p, ''-r'', n] = (- 1, echo_args [p, ''-r'', n] @ [Stderr (''Option -r requires an argument.'' @ NL)])"
proof -
  obtain evs where "getopt_events ''p:d:m:o:fhitc'' [p, ''-r'', n] = BadOpt CHR ''r'' # evs"
    by (simp add: getopt_events_def is_option_def case_prod_beta)
  then show ?thesis using main by (auto simp: main_mt_def main_ptdump_def bad_option_def emit_def)
qed

theorem run_node_option_refused_witness: "fst (main_mt sample_henv [''bench'', ''-r'', ''1'']) = - 1"
  using run_node_option_refused [of main_mt sample_henv "''bench''" "''1''"] by simp

section \<open>The printed time\<close>

definition valid_time :: "time \<Rightarrow> bool" where
  "valid_time t \<longleftrightarrow> 0 \<le> tv_sec t \<and> tv_sec t < 2 ^ 62 \<and> 0 \<le> tv_usec t \<and> tv_usec t < 1000000"

text \<open>
  C24: The printed run time is right only if the microseconds did not decrease. If they did not, the seconds and the
  three-digit milliseconds are those of the elapsed time; if they fell by a millisecond or more, the
  number printed for the milliseconds is the wrapped 64-bit one, above \<open>2 ^ 64 - 1000\<close>.
\<close>

theorem printed_time:
  assumes "valid_time (tstart env)" "valid_time (tend env)" "tv_sec (tstart env) \<le> tv_sec (tend env)"
  defines "ds \<equiv> tv_sec (tend env) - tv_sec (tstart env)" and "du \<equiv> tv_usec (tend env) - tv_usec (tstart env)"
  shows "(0 \<le> du \<longrightarrow> took env = show_nat (nat ds) @ ''.'' @ pad3 (show_nat (nat ((1000000 * ds + du) div 1000 mod 1000)))) \<and>
    (du \<le> - 1000 \<longrightarrow> took env = show_nat (nat ds) @ ''.'' @ pad3 (show_nat (2 ^ 64 - nat (- du) div 1000)))"
proof -
  have ds: "0 \<le> ds" "ds < 2 ^ 62" using assms by (simp_all add: valid_time_def)
  have du: "- 1000000 < du" "du < 1000000" using assms by (simp_all add: valid_time_def)
  have s: "unat (word_of_int ds :: u64) = nat ds" using ds by (simp add: unsigned_of_int take_bit_int_eq_self)
  have took: "took env = show_nat (nat ds) @ ''.'' @ pad3 (show_nat (unat (word_of_int (cdiv du 1000) :: u64)))"
    using s by (simp add: took_def show_u64_def ds_def du_def)
  have "unat (word_of_int (cdiv du 1000) :: u64) = nat ((1000000 * ds + du) div 1000 mod 1000)" if "0 \<le> du"
  proof -
    have "cdiv du 1000 = du div 1000" using that by (cases "du = 0") (simp_all add: cdiv_def)
    moreover have "(1000000 * ds + du) div 1000 mod 1000 = du div 1000"
    proof -
      have "1000000 * ds + du = du + 1000 * (1000 * ds)" by simp
      then have "(1000000 * ds + du) div 1000 = du div 1000 + 1000 * ds" by (simp only: div_mult_self2)
      moreover have "0 \<le> du div 1000" "du div 1000 < 1000" using that du by simp_all
      ultimately show ?thesis by (simp only: mod_mult_self2 mod_pos_pos_trivial)
    qed
    moreover have "0 \<le> du div 1000" "du div 1000 < 2 ^ 64" using that du by simp_all
    ultimately show ?thesis by (simp add: unsigned_of_int take_bit_int_eq_self)
  qed
  moreover have "unat (word_of_int (cdiv du 1000) :: u64) = 2 ^ 64 - nat (- du) div 1000" if "du \<le> - 1000"
  proof -
    define q where "q = nat (- du) div 1000"
    have q: "0 < q" "q < 1000" using that du by (simp_all add: q_def)
    have "cdiv du 1000 = - int q" using that by (simp add: cdiv_def q_def zdiv_int)
    moreover have "unat (word_of_int (- int q) :: u64) = 2 ^ 64 - q"
    proof -
      have "(- int q) mod 2 ^ 64 = 2 ^ 64 - int q" using q by (simp add: zmod_zminus1_eq_if)
      then have "uint (word_of_int (- int q) :: u64) = 2 ^ 64 - int q" by (simp only: uint_word_of_int len_num0 len_num1 len_bit0) simp
      then show ?thesis using q by (simp only: unat_eq_nat_uint) simp
    qed
    ultimately show ?thesis by (simp add: q_def)
  qed
  ultimately show ?thesis by (simp add: took)
qed

theorem printed_time_witness:
  "valid_time (tstart sample_henv) \<and> took sample_henv = ''2.'' @ pad3 (show_nat (2 ^ 64 - 800))"
proof -
  have v: "valid_time (tstart sample_henv)" "valid_time (tend sample_henv)" by (simp_all add: sample_henv_def valid_time_def)
  have d: "tv_sec (tend sample_henv) - tv_sec (tstart sample_henv) = 2" "tv_usec (tend sample_henv) - tv_usec (tstart sample_henv) = - 800000"
    "tv_sec (tstart sample_henv) \<le> tv_sec (tend sample_henv)" by (simp_all add: sample_henv_def)
  have "took sample_henv = show_nat 2 @ ''.'' @ pad3 (show_nat (2 ^ 64 - 800))"
    using printed_time [OF v d(3)] unfolding d by simp
  moreover have "show_nat 2 = ''2''" by code_simp
  ultimately show ?thesis using v by simp
qed

end
