(* ===== verification/PtDump.thy ===== *)
theory PtDump
  imports Harness
begin

text \<open>
  The page-table dump of \<open>sources/common/main-ptdump.c\<close> and the command interface of \<open>sources/common/ptdump.h\<close>:
  the CRC-32 with its lazily built table, the packing of \<open>ioctl\<close> commands and arguments, and
  \<open>dump_page_tables\<close>. What the kernel module answers to an \<open>ioctl\<close> is a parameter. The CRC is shown to be the
  bit-serial CRC-32, the packing to be invertible, and the frame lists to split the present entries.
\<close>

section \<open>CRC-32\<close>

definition crc_poly :: u32 where "crc_poly = 0xEDB88320"

definition crc_bit :: "u32 \<Rightarrow> u32" where
  "crc_bit r = (if r AND 1 \<noteq> 0 then 0 else crc_poly) XOR drop_bit 1 r"

definition crc32_for_byte :: "u32 \<Rightarrow> u32" where
  "crc32_for_byte r = (crc_bit ^^ 8) r XOR 0xFF000000"

definition crc_fill :: "u32 list \<Rightarrow> u32 list option" where
  "crc_fill table = for_up 0 256 (\<lambda>i t. aset t i (crc32_for_byte (word_of_nat i))) table"

definition crc_byte :: "u32 list \<Rightarrow> u8 list \<Rightarrow> nat \<Rightarrow> u32 \<Rightarrow> u32 option" where
  "crc_byte table data i crc = do {
     d \<leftarrow> aget data i;
     t \<leftarrow> aget table (unat ((ucast crc :: u8) XOR d));
     Some (t XOR drop_bit 8 crc) }"

text \<open>The static table is part of the state; the result is the table and the checksum.\<close>

definition crc32 :: "u8 list \<Rightarrow> nat \<Rightarrow> u32 list \<times> u32 \<Rightarrow> (u32 list \<times> u32) option" where
  "crc32 data n = (\<lambda>(table, crc). do {
     t0 \<leftarrow> aget table 0;
     table \<leftarrow> (if t0 = 0 then crc_fill table else Some table);
     crc \<leftarrow> for_up 0 n (crc_byte table data) crc;
     Some (table, crc) })"

section \<open>Commands and arguments of the ioctl interface\<close>

definition PTDUMP_IOCTL_MKCMD :: "u32 \<Rightarrow> u32 \<Rightarrow> u32 \<Rightarrow> u32" where
  "PTDUMP_IOCTL_MKCMD cmd ptstart ptend = (cmd AND 0xff) OR push_bit 8 (ptstart AND 0x1ff) OR push_bit 17 (ptend AND 0x1ff)"

definition PTDUMP_IOCTL_EXCMD :: "u32 \<Rightarrow> u32" where
  "PTDUMP_IOCTL_EXCMD x = x AND 0xff"

definition PTDUMP_IOCTL_EXPTSTART :: "u32 \<Rightarrow> u32" where
  "PTDUMP_IOCTL_EXPTSTART x = drop_bit 8 x AND 0x1ff"

definition PTDUMP_IOCTL_EXPTEND :: "u32 \<Rightarrow> u32" where
  "PTDUMP_IOCTL_EXPTEND x = drop_bit 17 x AND 0x1ff"

definition PTDUMP_IOCTL_MKARGBUF :: "u64 \<Rightarrow> u64 \<Rightarrow> u64" where
  "PTDUMP_IOCTL_MKARGBUF buf bits = (buf AND 0xffffffffffff) OR push_bit 48 (bits AND 0xff)"

definition PTDUMP_IOCTL_EXBUF :: "u64 \<Rightarrow> u64" where
  "PTDUMP_IOCTL_EXBUF arg = arg AND 0xffffffffffff"

definition PTDUMP_IOCTL_EXBITS :: "u64 \<Rightarrow> u64" where
  "PTDUMP_IOCTL_EXBITS arg = drop_bit 48 arg AND 0xff"

definition PTDUMP_TABLE_MKBASE :: "u64 \<Rightarrow> u64 \<Rightarrow> u64" where
  "PTDUMP_TABLE_MKBASE base level = push_bit 48 (level AND 0xff) OR (base AND 0xffffffffffff)"

text \<open>\<open>(unsigned)(base >> 48)\<close>\<close>

definition PTDUMP_TABLE_EXLEVEL :: "u64 \<Rightarrow> u32" where
  "PTDUMP_TABLE_EXLEVEL base = ucast (drop_bit 48 base)"

definition PTDUMP_TABLE_EXBASE :: "u64 \<Rightarrow> u64" where
  "PTDUMP_TABLE_EXBASE base = base AND 0xffffffffffff"

definition PTDUMP_IOCTL_CMD_DUMP :: u32 where "PTDUMP_IOCTL_CMD_DUMP = 3"
definition PTDUMP_IOCTL_CMD_CRC32 :: u32 where "PTDUMP_IOCTL_CMD_CRC32 = 4"
definition PTDUMP_IOCTL_CMD_RANGES :: u32 where "PTDUMP_IOCTL_CMD_RANGES = 5"

definition MAX_VASPACE_DUMP :: nat where "MAX_VASPACE_DUMP = 512 * 2 ^ 30"
definition NUM_L4 :: nat where "NUM_L4 = 1"
definition NUM_L3 :: nat where "NUM_L3 = MAX_VASPACE_DUMP div (512 * 2 ^ 30)"
definition NUM_L2 :: nat where "NUM_L2 = MAX_VASPACE_DUMP div 2 ^ 30"
definition NUM_L1 :: nat where "NUM_L1 = MAX_VASPACE_DUMP div (2 * 2 ^ 20)"
definition PTDUMP_DUMP_SIZE_MAX :: nat where "PTDUMP_DUMP_SIZE_MAX = NUM_L1 + NUM_L2 + NUM_L3 + NUM_L4"

record ptdump_table =
  base :: u64
  vbase :: u64
  entries :: "u64 list"

record ptdump =
  processid :: int
  num_tables :: nat
  num_migrations :: nat
  table :: "ptdump_table list"

record ptcrc32 =
  crc_processid :: int
  pml4 :: u32
  pdpt :: u32
  pdir :: u32
  pt :: u32
  crcdata :: u32
  crctable :: u32

record ptranges =
  rng_processid :: int
  pml4_base :: u64
  pml4_limit :: u64
  pt_base :: u64
  pt_limit :: u64
  code_base :: u64
  code_limit :: u64
  data_base :: u64
  data_limit :: u64
  kernel_base :: u64
  kernel_limit :: u64

section \<open>dump_page_tables\<close>

definition PTABLE_BASE_MASK :: "u64 \<Rightarrow> u64" where
  "PTABLE_BASE_MASK x = x AND 0xfffffffff000"

fun hex_digits :: "nat \<Rightarrow> string" where
  "hex_digits n = (if n < 16 then [if n < 10 then char_of (48 + n) else char_of (87 + n)]
     else hex_digits (n div 16) @ [if n mod 16 < 10 then char_of (48 + n mod 16) else char_of (87 + n mod 16)])"

declare hex_digits.simps [simp del]

text \<open>\<open>%0<w>lx\<close>\<close>

definition show_hex :: "nat \<Rightarrow> 'a::len word \<Rightarrow> string" where
  "show_hex w x = (let ds = hex_digits (unat x) in replicate (w - length ds) CHR ''0'' @ ds)"

definition present :: "u64 \<Rightarrow> bool" where "present e \<longleftrightarrow> e AND 1 \<noteq> 0"
definition large :: "u64 \<Rightarrow> bool" where "large e \<longleftrightarrow> e AND push_bit 7 1 \<noteq> 0"
definition noexec :: "u64 \<Rightarrow> bool" where "noexec e \<longleftrightarrow> e AND push_bit 63 1 \<noteq> 0"

text \<open>The loop over the tables, printing the base of each.\<close>

definition ptables :: "ptdump \<Rightarrow> string list option" where
  "ptables d = for_up 0 (num_tables d) (\<lambda>i out. do {
     t \<leftarrow> aget (table d) i;
     Some (out @ [show_hex 9 (drop_bit 12 (PTABLE_BASE_MASK (base t))) @ '' '']) }) []"

text \<open>The inner loop over the 512 entries of one table, and the loop over the tables of one level.\<close>

definition entry_loop :: "(u64 \<Rightarrow> bool) \<Rightarrow> (u64 \<Rightarrow> string) \<Rightarrow> ptdump_table \<Rightarrow> string list \<Rightarrow> string list option" where
  "entry_loop sel pr t out = for_up 0 512 (\<lambda>j out. do {
     e \<leftarrow> aget (entries t) j;
     Some (if sel e then out @ [pr e] else out) }) out"

definition frames :: "u32 \<Rightarrow> (u64 \<Rightarrow> bool) \<Rightarrow> (u64 \<Rightarrow> string) \<Rightarrow> ptdump \<Rightarrow> string list option" where
  "frames level sel pr d = for_up 0 (num_tables d) (\<lambda>i out. do {
     t \<leftarrow> aget (table d) i;
     if PTDUMP_TABLE_EXLEVEL (base t) \<noteq> level then Some out else entry_loop sel pr t out }) []"

definition frame4k :: "u64 \<Rightarrow> string" where
  "frame4k e = show_hex 9 (drop_bit 12 (PTABLE_BASE_MASK e)) @ '' ''"

definition frame2M :: "u64 \<Rightarrow> string" where
  "frame2M e = show_hex 7 (drop_bit 21 (PTABLE_BASE_MASK e)) @ '' ''"

definition codeframes4k :: "ptdump \<Rightarrow> string list option" where
  "codeframes4k = frames 1 (\<lambda>e. present e \<and> \<not> noexec e) frame4k"

definition dataframes4k :: "ptdump \<Rightarrow> string list option" where
  "dataframes4k = frames 1 (\<lambda>e. present e \<and> noexec e) frame4k"

definition codeframes2M :: "ptdump \<Rightarrow> string list option" where
  "codeframes2M = frames 2 (\<lambda>e. present e \<and> large e \<and> \<not> noexec e) frame2M"

definition dataframes2M :: "ptdump \<Rightarrow> string list option" where
  "dataframes2M = frames 2 (\<lambda>e. present e \<and> large e \<and> noexec e) frame2M"

definition tagged :: "string \<Rightarrow> string list \<Rightarrow> string list" where
  "tagged tag body = (''<'' @ tag @ ''>'') # body @ [''</'' @ tag @ ''>'' @ NL]"

text \<open>
  The kernel module: what the \<open>n\<close>-th \<open>ioctl\<close> of the process with a command and an argument returns and leaves in the buffer.
\<close>

record kmodule =
  io_dump :: "nat \<Rightarrow> u32 \<Rightarrow> u64 \<Rightarrow> int \<times> ptdump"
  io_ranges :: "u32 \<Rightarrow> u64 \<Rightarrow> int \<times> ptranges"
  io_crc :: "u32 \<Rightarrow> u64 \<Rightarrow> int \<times> ptcrc32"

text \<open>\<open>do { res = ioctl(\<dots>); } while (res != 0);\<close> A module that never answers 0 is \<open>None\<close>.\<close>

partial_function (option) dump_retry :: "kmodule \<Rightarrow> u64 \<Rightarrow> nat \<Rightarrow> ptdump option" where
  "dump_retry k buf n =
     (let (res, d) = io_dump k n (PTDUMP_IOCTL_MKCMD PTDUMP_IOCTL_CMD_DUMP 0 256) (PTDUMP_IOCTL_MKARGBUF buf 0)
      in if res \<noteq> 0 then dump_retry k buf (Suc n) else Some d)"

definition range_line :: "string \<Rightarrow> u64 \<Rightarrow> u64 \<Rightarrow> string" where
  "range_line tag lo hi = ''<'' @ tag @ ''>0x'' @ show_hex 12 lo @ ''..0x'' @ show_hex 12 hi @ ''</'' @ tag @ ''>'' @ NL"

definition crc_field :: "string \<Rightarrow> u32 \<Rightarrow> string" where
  "crc_field tag c = ''<'' @ tag @ ''>0x'' @ show_hex 8 c @ ''</'' @ tag @ ''>''"

definition dump_full_report :: "ptdump \<Rightarrow> string list option" where
  "dump_full_report d = do {
     ps \<leftarrow> ptables d;
     c4 \<leftarrow> codeframes4k d; d4 \<leftarrow> dataframes4k d; c2 \<leftarrow> codeframes2M d; d2 \<leftarrow> dataframes2M d;
     Some (tagged ''ptables'' ps @ tagged ''codeframes4k'' c4 @ tagged ''dataframes4k'' d4
           @ tagged ''codeframes2M'' c2 @ tagged ''dataframes2M'' d2) }"

definition dump_crc_report :: "kmodule \<Rightarrow> u64 \<Rightarrow> u64 \<Rightarrow> string list" where
  "dump_crc_report k rbuf cbuf =
     (let (res, r) = io_ranges k (PTDUMP_IOCTL_MKCMD PTDUMP_IOCTL_CMD_RANGES 0 256) (PTDUMP_IOCTL_MKARGBUF rbuf 0);
          (res', c) = io_crc k (PTDUMP_IOCTL_MKCMD PTDUMP_IOCTL_CMD_CRC32 0 256) (PTDUMP_IOCTL_MKARGBUF cbuf 0) in
      (if res = 0 then [''<ptranges>'' @ NL @ range_line ''l4'' (pml4_base r) (pml4_limit r)
            @ range_line ''table'' (pt_base r) (pt_limit r) @ range_line ''data'' (data_base r) (data_limit r)
            @ range_line ''code'' (code_base r) (code_limit r) @ range_line ''kernel'' (kernel_base r) (kernel_limit r)
            @ ''</ptranges>'' @ NL]
       else [''<ptranges>INVALID</ptranges>'' @ NL]) @
      (if res' = 0 then [''<crc>'' @ crc_field ''l4'' (pml4 c) @ crc_field ''l3'' (pdpt c) @ crc_field ''l2'' (pdir c)
            @ crc_field ''l1'' (pt c) @ crc_field ''d'' (crcdata c) @ ''</crc>'' @ NL]
       else [''<crc>INVALID</crc>'' @ NL]))"

definition dump_page_tables :: "kmodule \<Rightarrow> bool \<Rightarrow> bool \<Rightarrow> u64 \<Rightarrow> u64 \<Rightarrow> u64 \<Rightarrow> string list option" where
  "dump_page_tables k full crc buf rbuf cbuf = do {
     body \<leftarrow> (if full then do { d \<leftarrow> dump_retry k buf 0; dump_full_report d }
              else if crc then Some (dump_crc_report k rbuf cbuf)
              else Some [''Page table dumping disabled.'' @ NL]);
     Some ([''<pagetables>'' @ NL] @ body @ [''</pagetables>'' @ NL]) }"

section \<open>The CRC is the bit-serial one\<close>

text \<open>The reflected CRC-32 register, one bit and one byte at a time.\<close>

definition reg_bit :: "u32 \<Rightarrow> u32" where
  "reg_bit x = (if bit x 0 then crc_poly else 0) XOR drop_bit 1 x"

definition reg_byte :: "u32 \<Rightarrow> u8 \<Rightarrow> u32" where
  "reg_byte x d = (reg_bit ^^ 8) (x XOR ucast d)"

lemma reg_bit_xor: "reg_bit (x XOR y) = reg_bit x XOR reg_bit y"
  by (rule bit_word_eqI) (auto simp: reg_bit_def bit_simps)

lemma reg_bits_xor: "(reg_bit ^^ n) (x XOR y) = (reg_bit ^^ n) x XOR (reg_bit ^^ n) y"
  by (induction n) (simp_all add: reg_bit_xor)

lemma reg_bits_shift: "take_bit n x = 0 \<Longrightarrow> (reg_bit ^^ n) x = drop_bit n x"
proof (induction n arbitrary: x)
  case (Suc n)
  from Suc.prems have ev: "even x" by (simp add: take_bit_Suc) (metis even_mult_iff even_numeral mod2_eq_if add_0 odd_add odd_one zero_neq_one)
  then have "reg_bit x = drop_bit 1 x" by (simp add: reg_bit_def bit_0)
  moreover have "take_bit n (drop_bit 1 x) = 0"
    using Suc.prems by (metis drop_bit_0 drop_bit_take_bit diff_Suc_1 One_nat_def take_bit_0 drop_bit_of_0)
  ultimately show ?case using Suc.IH [of "drop_bit 1 x"] by (simp add: funpow_swap1 drop_bit_Suc) 
qed simp

lemma crc_bit_reg:
  assumes "odd c"
  shows "crc_bit (x XOR c) = reg_bit x XOR drop_bit 1 c"
proof -
  have "(x XOR c) AND 1 \<noteq> 0 \<longleftrightarrow> even x" using assms by (simp add: and_one_eq mod_2_eq_odd even_xor_iff)
  then show ?thesis by (simp add: crc_bit_def reg_bit_def bit_0 ac_simps)
qed

lemma crc_bits_reg: "j \<le> 31 \<Longrightarrow> (crc_bit ^^ j) (x XOR - 1) = (reg_bit ^^ j) x XOR drop_bit j (- 1)"
proof (induction j)
  case (Suc j)
  have "odd (drop_bit j (- 1 :: u32))" using Suc.prems by (simp add: even_mask_iff)
  from crc_bit_reg [OF this, of "(reg_bit ^^ j) x"] Suc
  have "(crc_bit ^^ Suc j) (x XOR - 1) = reg_bit ((reg_bit ^^ j) x) XOR drop_bit 1 (drop_bit j (- 1))" by simp
  then show ?case by (simp only: drop_bit_drop_bit funpow.simps comp_apply plus_1_eq_Suc)
qed simp

lemma crc32_for_byte_reg: "crc32_for_byte b = NOT ((reg_bit ^^ 8) (NOT b))"
proof -
  have m: "drop_bit 8 (- 1 :: u32) XOR 0xFF000000 = - 1" by code_simp
  have "b = NOT b XOR - 1" by simp
  then have "(crc_bit ^^ 8) b = (reg_bit ^^ 8) (NOT b) XOR drop_bit 8 (- 1)" using crc_bits_reg [of 8 "NOT b"] by simp
  then have "crc32_for_byte b = (reg_bit ^^ 8) (NOT b) XOR (drop_bit 8 (- 1) XOR 0xFF000000)"
    by (simp add: crc32_for_byte_def xor.assoc)
  then show ?thesis unfolding m by simp
qed

lemma crc_byte_reg:
  fixes x :: u32 and d :: u8
  defines "b \<equiv> ucast (ucast (NOT x) XOR d) :: u32"
  shows "crc32_for_byte b XOR drop_bit 8 (NOT x) = NOT (reg_byte x d)"
proof -
  define z where "z = (x XOR ucast d) XOR NOT b"
  have tz: "take_bit 8 z = 0" unfolding z_def b_def by (rule bit_word_eqI) (auto simp: bit_simps)
  have dz: "drop_bit 8 z = drop_bit 8 (NOT x)" unfolding z_def b_def by (rule bit_word_eqI) (auto simp: bit_simps dest: bit_imp_le_length)
  have "x XOR ucast d = NOT b XOR z" unfolding z_def by (rule bit_word_eqI) (auto simp: bit_xor_iff)
  then have "reg_byte x d = (reg_bit ^^ 8) (NOT b) XOR drop_bit 8 (NOT x)"
    unfolding reg_byte_def by (simp only: reg_bits_xor reg_bits_shift [OF tz] dz)
  then show ?thesis by (simp add: crc32_for_byte_reg)
qed

definition crc_table :: "u32 list" where
  "crc_table = map (\<lambda>i. crc32_for_byte (word_of_nat i)) [0..<256]"

lemma crc_fill_table: "length t = 256 \<Longrightarrow> crc_fill t = Some crc_table"
proof -
  assume len: "length t = 256"
  let ?g = "\<lambda>i. crc32_for_byte (word_of_nat i)"
  have "\<exists>t'. crc_fill t = Some t' \<and> (length t' = 256 \<and> (\<forall>i<256. t' ! i = ?g i))"
    unfolding crc_fill_def
    by (rule for_up_rule [where P = "\<lambda>j t'. length t' = 256 \<and> (\<forall>i<j. t' ! i = ?g i)"])
      (auto simp: len aset_def nth_list_update less_Suc_eq)
  then obtain t' where t': "crc_fill t = Some t'" "length t' = 256" "\<forall>i<256. t' ! i = ?g i" by blast
  then have "t' = crc_table" unfolding crc_table_def by (intro nth_equalityI) simp_all
  with t' show ?thesis by simp
qed

lemma crc_byte_table:
  assumes "i < length data"
  shows "crc_byte crc_table data i (NOT x) = Some (NOT (reg_byte x (data ! i)))"
proof -
  let ?b = "ucast (NOT x) XOR data ! i :: u8"
  have "unat ?b < 256" using unsigned_less [of ?b, where 'a = nat] by simp
  then have "aget crc_table (unat ?b) = Some (crc32_for_byte (ucast ?b))"
    by (simp add: aget_def crc_table_def of_nat_unat)
  with assms crc_byte_reg [of x "data ! i"] show ?thesis by (simp add: crc_byte_def aget_def)
qed

lemma crc_loop:
  assumes "n \<le> length data"
  shows "for_up 0 n (crc_byte crc_table data) (NOT x) = Some (NOT (foldl reg_byte x (take n data)))"
proof -
  have "\<exists>s'. for_up 0 n (crc_byte crc_table data) (NOT x) = Some s' \<and> s' = NOT (foldl reg_byte x (take n data))"
    by (rule for_up_rule [where P = "\<lambda>j s. s = NOT (foldl reg_byte x (take j data))"])
      (use assms in \<open>auto simp: crc_byte_table take_Suc_conv_app_nth\<close>)
  then show ?thesis by simp
qed

text \<open>
  C25: The table-driven checksum is CRC-32. Called with a zeroed table or with the table an earlier call left behind,
  \<open>crc32\<close> stays inside the table and the data and turns the checksum of what was read so far into the
  complement of the bit-serial register fed with the bytes; from 0 on this is the standard CRC-32 (register
  initially all ones, complemented at the end).
\<close>

theorem crc32_bit_serial:
  assumes "n \<le> length data" and "tab = replicate 256 0 \<or> tab = crc_table"
  shows "crc32 data n (tab, crc) = Some (crc_table, NOT (foldl reg_byte (NOT crc) (take n data)))"
proof -
  have "crc_table ! 0 = crc32_for_byte 0" by (simp add: crc_table_def)
  also have "\<dots> \<noteq> 0" by code_simp
  finally have z: "crc_table ! 0 \<noteq> 0" .
  have len: "length crc_table = 256" by (simp add: crc_table_def)
  have "crc32 data n (tab, crc) = do { c \<leftarrow> for_up 0 n (crc_byte crc_table data) (NOT (NOT crc)); Some (crc_table, c) }"
    using assms(2) z len by (auto simp: crc32_def aget_def crc_fill_table)
  then show ?thesis by (simp only: crc_loop [OF assms(1)]) simp
qed

theorem crc32_bit_serial_witness:
  "crc32 [0x31] 1 (replicate 256 0, 0) = Some (crc_table, 0x83DCEFB7)"
proof -
  have "NOT (reg_byte (NOT 0) 0x31) = 0x83DCEFB7"
  proof -
    have "(8 :: nat) = Suc (Suc (Suc (Suc (Suc (Suc (Suc (Suc 0)))))))" by simp
    then show ?thesis unfolding reg_byte_def by (simp only: funpow.simps comp_apply id_apply) (simp add: reg_bit_def crc_poly_def)
  qed
  with crc32_bit_serial [of 1 "[0x31]" "replicate 256 0" 0] show ?thesis by simp
qed

section \<open>Packing\<close>

text \<open>
  C26: Commands, buffer arguments and table bases survive packing: the kernel side extracts exactly the fields that were
  put in, each cut to its width.
\<close>

theorem ioctl_fields_roundtrip:
  "PTDUMP_IOCTL_EXCMD (PTDUMP_IOCTL_MKCMD c s e) = take_bit 8 c \<and> PTDUMP_IOCTL_EXPTSTART (PTDUMP_IOCTL_MKCMD c s e) = take_bit 9 s \<and>
   PTDUMP_IOCTL_EXPTEND (PTDUMP_IOCTL_MKCMD c s e) = take_bit 9 e \<and>
   PTDUMP_IOCTL_EXBUF (PTDUMP_IOCTL_MKARGBUF b n) = take_bit 48 b \<and> PTDUMP_IOCTL_EXBITS (PTDUMP_IOCTL_MKARGBUF b n) = take_bit 8 n \<and>
   PTDUMP_TABLE_EXBASE (PTDUMP_TABLE_MKBASE b n) = take_bit 48 b \<and> PTDUMP_TABLE_EXLEVEL (PTDUMP_TABLE_MKBASE b n) = ucast (take_bit 8 n)"
proof -
  have m: "0xff = (mask 8 :: u32)" "0x1ff = (mask 9 :: u32)" "0xffffffffffff = (mask 48 :: u64)" "0xff = (mask 8 :: u64)"
    by (simp_all add: mask_eq_exp_minus_1)
  show ?thesis
    unfolding PTDUMP_IOCTL_EXCMD_def PTDUMP_IOCTL_MKCMD_def PTDUMP_IOCTL_EXPTSTART_def PTDUMP_IOCTL_EXPTEND_def
      PTDUMP_IOCTL_EXBUF_def PTDUMP_IOCTL_MKARGBUF_def PTDUMP_IOCTL_EXBITS_def PTDUMP_TABLE_EXBASE_def PTDUMP_TABLE_MKBASE_def
      PTDUMP_TABLE_EXLEVEL_def m
    by (intro conjI; rule bit_word_eqI) (auto simp: bit_simps dest: bit_imp_le_length)
qed

section \<open>The frame lists\<close>

definition dump_ok :: "ptdump \<Rightarrow> bool" where
  "dump_ok d \<longleftrightarrow> num_tables d \<le> length (table d) \<and> (\<forall>t\<in>set (table d). length (entries t) = 512)"

text \<open>The entries of all dumped tables of one level, in order.\<close>

definition level_entries :: "u32 \<Rightarrow> ptdump \<Rightarrow> u64 list" where
  "level_entries l d = concat (map entries (filter (\<lambda>t. PTDUMP_TABLE_EXLEVEL (base t) = l) (take (num_tables d) (table d))))"

lemma entry_loop_filter:
  assumes "length (entries t) = 512"
  shows "entry_loop sel pr t out = Some (out @ map pr (filter sel (entries t)))"
proof -
  have "\<exists>o'. entry_loop sel pr t out = Some o' \<and> o' = out @ map pr (filter sel (take 512 (entries t)))"
    unfolding entry_loop_def
    by (rule for_up_rule [where P = "\<lambda>j o'. o' = out @ map pr (filter sel (take j (entries t)))"])
      (use assms in \<open>auto simp: aget_def take_Suc_conv_app_nth\<close>)
  with assms show ?thesis by simp
qed

lemma frames_filter:
  assumes "dump_ok d"
  shows "frames l sel pr d = Some (map pr (filter sel (level_entries l d)))"
proof -
  let ?ts = "\<lambda>j. filter (\<lambda>t. PTDUMP_TABLE_EXLEVEL (base t) = l) (take j (table d))"
  let ?P = "\<lambda>j out. out = map pr (filter sel (concat (map entries (?ts j))))"
  have "\<exists>out. frames l sel pr d = Some out \<and> ?P (num_tables d) out"
    unfolding frames_def
  proof (rule for_up_rule [where P = ?P], goal_cases)
    case (3 i out)
    let ?t = "table d ! i"
    have i: "i < length (table d)" and len: "length (entries ?t) = 512" using 3 assms by (auto simp: dump_ok_def)
    from i have tk: "take (Suc i) (table d) = take i (table d) @ [?t]" by (simp add: take_Suc_conv_app_nth)
    show ?case
    proof (cases "PTDUMP_TABLE_EXLEVEL (base ?t) = l")
      case True
      with 3 i tk entry_loop_filter [OF len, of sel pr out] show ?thesis by (simp add: aget_def)
    next
      case False
      with 3 i tk show ?thesis by (simp add: aget_def)
    qed
  qed simp_all
  then show ?thesis by (simp add: level_entries_def)
qed

text \<open>
  C27: The full dump accounts for every mapped page exactly once. For a dump whose tables are complete, the code and data
  lists of 4 KB frames together are the present entries of the level-1 tables, and those of 2 MB frames the present
  large-page entries of the level-2 tables; which list an entry is in is decided by its no-execute bit.
\<close>

theorem frames_partition:
  assumes "dump_ok d"
  shows "\<exists>c4 d4 c2 d2. codeframes4k d = Some c4 \<and> dataframes4k d = Some d4 \<and> codeframes2M d = Some c2 \<and> dataframes2M d = Some d2 \<and>
    mset c4 + mset d4 = image_mset frame4k (filter_mset present (mset (level_entries 1 d))) \<and>
    mset c2 + mset d2 = image_mset frame2M (filter_mset (\<lambda>e. present e \<and> large e) (mset (level_entries 2 d))) \<and>
    c4 = map frame4k (filter (\<lambda>e. present e \<and> \<not> noexec e) (level_entries 1 d)) \<and>
    c2 = map frame2M (filter (\<lambda>e. present e \<and> large e \<and> \<not> noexec e) (level_entries 2 d))"
proof -
  have split: "mset (map pr (filter (\<lambda>e. P e \<and> \<not> Q e) xs)) + mset (map pr (filter (\<lambda>e. P e \<and> Q e) xs)) =
      image_mset pr (filter_mset P (mset xs))" for pr :: "u64 \<Rightarrow> string" and P Q xs
    by (induction xs) auto
  show ?thesis
    using split [of frame4k present noexec "level_entries 1 d"] split [of frame2M "\<lambda>e. present e \<and> large e" noexec "level_entries 2 d"]
    by (simp add: codeframes4k_def dataframes4k_def codeframes2M_def dataframes2M_def frames_filter [OF assms])
qed

definition sample_dump :: ptdump where
  "sample_dump = \<lparr>processid = 1, num_tables = 1, num_migrations = 0,
     table = [\<lparr>base = PTDUMP_TABLE_MKBASE 0x5000 1, vbase = 0, entries = 0x7001 # replicate 511 0\<rparr>]\<rparr>"

theorem frames_partition_witness: "dump_ok sample_dump \<and> (\<exists>c4. codeframes4k sample_dump = Some c4)"
proof -
  have "dump_ok sample_dump" by (simp add: dump_ok_def sample_dump_def)
  with frames_partition [OF this] show ?thesis by blast
qed

section \<open>Retrying the ioctl\<close>

lemma dump_retry_first:
  "(\<forall>j<n. fst (io_dump k (i + j) c a) \<noteq> 0) \<Longrightarrow> fst (io_dump k (i + n) c a) = 0 \<Longrightarrow>
   c = PTDUMP_IOCTL_MKCMD PTDUMP_IOCTL_CMD_DUMP 0 256 \<Longrightarrow> a = PTDUMP_IOCTL_MKARGBUF buf 0 \<Longrightarrow>
   dump_retry k buf i = Some (snd (io_dump k (i + n) c a))"
proof (induction n arbitrary: i)
  case 0
  then show ?case by (subst dump_retry.simps) (simp add: case_prod_beta)
next
  case (Suc n)
  have "fst (io_dump k i c a) \<noteq> 0" using Suc.prems(1) by (metis add_0_right zero_less_Suc)
  then have "dump_retry k buf i = dump_retry k buf (Suc i)"
    using Suc.prems by (subst dump_retry.simps) (simp add: case_prod_beta)
  also have "\<dots> = Some (snd (io_dump k (Suc i + n) c a))"
    using Suc.prems by (intro Suc.IH) (auto dest: spec [where x = "Suc _"])
  finally show ?case by simp
qed

text \<open>
  C28: With \<open>-f\<close> the dump is produced as soon as the kernel module has answered the request once: if the
  \<open>n\<close>-th \<open>ioctl\<close> is the first to return 0, with complete tables, \<open>dump_page_tables\<close> ends and prints that dump.
\<close>

theorem full_dump_terminates:
  assumes fail: "\<forall>j<n. fst (io_dump k j cmd arg) \<noteq> 0" and res: "io_dump k n cmd arg = (0, d)" and ok: "dump_ok d"
    and cmd: "cmd = PTDUMP_IOCTL_MKCMD PTDUMP_IOCTL_CMD_DUMP 0 256" and arg: "arg = PTDUMP_IOCTL_MKARGBUF buf 0"
  shows "\<exists>body. dump_page_tables k True crc buf rbuf cbuf = Some ([''<pagetables>'' @ NL] @ body @ [''</pagetables>'' @ NL])
    \<and> dump_full_report d = Some body"
proof -
  have "dump_retry k buf 0 = Some d" using dump_retry_first [of n k 0 cmd arg buf] fail res cmd arg by simp
  moreover have "\<exists>ps. ptables d = Some ps \<and> True"
    unfolding ptables_def by (rule for_up_rule) (use ok in \<open>simp_all add: dump_ok_def aget_def\<close>)
  ultimately show ?thesis
    by (auto simp: dump_page_tables_def dump_full_report_def codeframes4k_def dataframes4k_def codeframes2M_def dataframes2M_def
        frames_filter [OF ok])
qed

definition sample_module :: kmodule where
  "sample_module = \<lparr>io_dump = (\<lambda>n _ _. (if n < 2 then - 1 else 0, sample_dump)), io_ranges = (\<lambda>_ _. (- 1, undefined)),
     io_crc = (\<lambda>_ _. (- 1, undefined))\<rparr>"

theorem full_dump_terminates_witness: "\<exists>out. dump_page_tables sample_module True False 0x1000 0 0 = Some out"
proof -
  have "dump_ok sample_dump" by (simp add: dump_ok_def sample_dump_def)
  then have "\<exists>body. dump_page_tables sample_module True False 0x1000 0 0 = Some ([''<pagetables>'' @ NL] @ body @ [''</pagetables>'' @ NL])
    \<and> dump_full_report sample_dump = Some body"
    by (intro full_dump_terminates [of 2 _ _ _ sample_dump, OF _ _ _ refl refl]) (simp_all add: sample_module_def)
  then show ?thesis by blast
qed

end
