(* ===== verification/Doubles.thy ===== *)
theory Doubles
  imports Prelude "HOL-Library.Log_Nat"
begin

text \<open>
  The C type \<open>double\<close> as STREAM and the programs of Graph500 use it. A finite \<open>double\<close> is its value, a rational number; an operation rounds the exact
  result to 53 significant bits, ties to even, with the gradual underflow of the binary64 format. A result that is infinite or not
  a number is \<open>None\<close>. The programs are compiled for x86-64, Graph500 with \<open>-std=c99\<close> and STREAM without an option for a newer processor, so that
  every operation is rounded by itself.
\<close>

section \<open>Numbers\<close>

type_synonym double = rat

text \<open>\<open>2 powi expo x\<close> is the largest power of two that is at most \<open>x\<close>, \<open>ulp x\<close> the distance of the doubles next to \<open>x\<close>.\<close>

definition expo :: "rat \<Rightarrow> int" where
  "expo x = (let (a, b) = quotient_of x; e = bitlen a - bitlen b in if 2 powi e \<le> x then e else e - 1)"

definition ulp :: "rat \<Rightarrow> rat" where
  "ulp x = 2 powi (max (expo \<bar>x\<bar> - 52) (- 1074))"

definition round_even :: "rat \<Rightarrow> int" where
  "round_even x = (let f = \<lfloor>x\<rfloor>; r = x - of_int f in
     if r < 1 / 2 then f else if 1 / 2 < r then f + 1 else if even f then f else f + 1)"

definition rnd :: "rat \<Rightarrow> double" where
  "rnd x = (if x = 0 then 0 else of_int (round_even (x / ulp x)) * ulp x)"

definition finite_double :: "rat \<Rightarrow> double option" where
  "finite_double x = (if \<bar>rnd x\<bar> < 2 ^ 1024 then Some (rnd x) else None)"

definition dadd :: "double \<Rightarrow> double \<Rightarrow> double option" where "dadd x y = finite_double (x + y)"
definition dsub :: "double \<Rightarrow> double \<Rightarrow> double option" where "dsub x y = finite_double (x - y)"
definition dmul :: "double \<Rightarrow> double \<Rightarrow> double option" where "dmul x y = finite_double (x * y)"
definition ddiv :: "double \<Rightarrow> double \<Rightarrow> double option" where
  "ddiv x y = (if y = 0 then None else finite_double (x / y))"

text \<open>The conversion of an \<open>int64_t\<close>, and of a \<open>double\<close> to an integer type, which cuts off the fraction.\<close>

definition of_int64 :: "int \<Rightarrow> double" where "of_int64 i = rnd (of_int i)"

definition truncate_double :: "double \<Rightarrow> int" where
  "truncate_double x = (if 0 \<le> x then \<lfloor>x\<rfloor> else \<lceil>x\<rceil>)"

section \<open>Rounding\<close>

lemma bitlen_rat: "0 < a \<Longrightarrow> 2 powi (bitlen a - 1) \<le> (of_int a :: rat) \<and> (of_int a :: rat) < 2 powi bitlen a"
proof -
  assume a: "0 < a"
  have b: "0 < bitlen a" using a bitlen_nonneg [of a] bitlen_eq_zero_iff [of a] by linarith
  then have "bitlen a = int (Suc (nat (bitlen a - 1)))" by simp
  then obtain n where n: "bitlen a = int (Suc n)" by blast
  then have e: "bitlen a - 1 = int n" "nat (bitlen a - 1) = n" "nat (bitlen a) = Suc n" by simp_all
  have "2 ^ n \<le> a" "a < 2 ^ Suc n" using bitlen_bounds [OF a] by (simp_all only: e nat_int)
  then have "(of_int (2 ^ n) :: rat) \<le> of_int a" "(of_int a :: rat) < of_int (2 ^ Suc n)"
    by (simp_all only: of_int_le_iff of_int_less_iff)
  then show ?thesis unfolding e(1) unfolding n power_int_of_nat by simp
qed

lemma expo_bounds: "0 < x \<Longrightarrow> 2 powi expo x \<le> x \<and> x < 2 powi (expo x + 1)"
proof -
  assume x: "0 < x"
  obtain a b where q: "quotient_of x = (a, b)" by fastforce
  have b: "0 < b" using q by (rule quotient_of_denom_pos)
  have xab: "x = of_int a / of_int b" using q by (rule quotient_of_div)
  have a: "0 < a" using x b by (simp add: xab zero_less_divide_iff)
  note A = bitlen_rat [OF a] and B = bitlen_rat [OF b]
  let ?e = "bitlen a - bitlen b"
  have "2 powi (?e - 1) * (of_int b :: rat) \<le> 2 powi (?e - 1) * 2 powi bitlen b" using B by (intro mult_left_mono) auto
  also have "\<dots> = 2 powi (bitlen a - 1)" by (simp flip: power_int_add)
  also have "\<dots> \<le> of_int a" using A by simp
  finally have 1: "2 powi (?e - 1) \<le> x" using b by (simp add: xab pos_le_divide_eq)
  have "(of_int a :: rat) < 2 powi bitlen a" using A by simp
  also have "\<dots> = 2 powi (?e + 1) * 2 powi (bitlen b - 1)" by (simp flip: power_int_add)
  also have "\<dots> \<le> 2 powi (?e + 1) * of_int b" using B by (intro mult_left_mono) auto
  finally have 2: "x < 2 powi (?e + 1)" using b by (simp add: xab pos_divide_less_eq)
  from 1 2 show ?thesis by (simp add: expo_def q Let_def)
qed

lemma expo_less: "0 < x \<Longrightarrow> x < 2 powi k \<Longrightarrow> expo x < k"
proof (rule ccontr)
  assume x: "0 < x" "x < 2 powi k" "\<not> expo x < k"
  then have "(2 :: rat) powi k \<le> 2 powi expo x" by (intro power_int_increasing) simp_all
  with x expo_bounds [OF x(1)] show False by simp
qed

lemma expo_eqI: "2 powi k \<le> x \<Longrightarrow> x < 2 powi (k + 1) \<Longrightarrow> expo x = k"
proof -
  assume x: "2 powi k \<le> x" "x < 2 powi (k + 1)"
  have "(0 :: rat) < 2 powi k" by simp
  with x have p: "0 < x" by linarith
  have "expo x < k + 1" using p x(2) by (rule expo_less)
  moreover have "\<not> expo x + 1 \<le> k"
  proof
    assume "expo x + 1 \<le> k"
    then have "2 powi (expo x + 1) \<le> (2 :: rat) powi k" by (intro power_int_increasing) simp_all
    with x expo_bounds [OF p] show False by linarith
  qed
  ultimately show ?thesis by simp
qed

lemma ulp_pos [simp]: "0 < ulp x" "ulp x \<noteq> 0"
  by (simp_all add: ulp_def)

lemma ulp_le: "x \<noteq> 0 \<Longrightarrow> \<bar>x\<bar> < 2 powi k \<Longrightarrow> - 1021 \<le> k \<Longrightarrow> ulp x \<le> 2 powi (k - 53)"
  using expo_less [of "\<bar>x\<bar>" k] unfolding ulp_def by (intro power_int_increasing) auto

lemma ulp_int: "x \<noteq> 0 \<Longrightarrow> \<bar>x\<bar> < 2 ^ 53 \<Longrightarrow> \<exists>m. of_int b / ulp x = of_int m"
proof -
  assume x: "x \<noteq> 0" "\<bar>x\<bar> < 2 ^ 53"
  then have "expo \<bar>x\<bar> < 53" using expo_less [of "\<bar>x\<bar>" 53] by simp
  then have "max (expo \<bar>x\<bar> - 52) (- 1074) = - int (nat (- max (expo \<bar>x\<bar> - 52) (- 1074)))" by simp
  then obtain n where "max (expo \<bar>x\<bar> - 52) (- 1074) = - int n" by blast
  then have "of_int b / ulp x = of_int (b * 2 ^ n)" by (simp add: ulp_def power_int_minus divide_inverse)
  then show ?thesis by blast
qed

lemma floor_rat: "of_int \<lfloor>y\<rfloor> \<le> y" "y < of_int \<lfloor>y\<rfloor> + 1" for y :: rat
  using floor_correct [of y] by simp_all

lemma round_even_error: "\<bar>of_int (round_even y) - y\<bar> \<le> 1 / 2"
  using floor_rat [of y] by (auto simp: round_even_def Let_def abs_le_iff)

lemmas round_even_err = round_even_error [unfolded abs_le_iff]

lemma round_even_tie: "y < of_int n + 1 / 2 \<Longrightarrow> round_even y \<le> n"
proof -
  assume y: "y < of_int n + 1 / 2"
  have "(of_int (round_even y) :: rat) < of_int (n + 1)" using round_even_err [of y] y unfolding of_int_add of_int_diff of_int_1 by linarith
  then show ?thesis by (simp only: of_int_less_iff)
qed

lemma round_even_le: "y \<le> of_int n \<Longrightarrow> round_even y \<le> n"
  by (rule round_even_tie) simp

lemma round_even_ge: "of_int n \<le> y \<Longrightarrow> n \<le> round_even y"
proof -
  assume y: "of_int n \<le> y"
  have "(of_int (n - 1) :: rat) < of_int (round_even y)" using round_even_err [of y] y unfolding of_int_add of_int_diff of_int_1 by linarith
  then show ?thesis by (simp only: of_int_less_iff)
qed

lemma rnd_error:
  assumes "\<bar>x\<bar> < 2 powi k" "- 1021 \<le> k"
  shows "\<bar>rnd x - x\<bar> \<le> 2 powi (k - 54)"
proof (cases "x = 0")
  case False
  have "rnd x - x = (of_int (round_even (x / ulp x)) - x / ulp x) * ulp x" using False by (simp add: rnd_def left_diff_distrib)
  then have "\<bar>rnd x - x\<bar> = \<bar>of_int (round_even (x / ulp x)) - x / ulp x\<bar> * ulp x" by (simp add: abs_mult less_imp_le)
  also have "\<dots> \<le> 1 / 2 * ulp x" by (intro mult_right_mono round_even_error) (simp add: less_imp_le)
  also have "\<dots> \<le> 1 / 2 * 2 powi (k - 53)" using ulp_le [OF False assms] by simp
  also have "\<dots> = 2 powi (k - 54)" using power_int_add_1 [of "2 :: rat" "k - 54"] by simp
  finally show ?thesis .
qed (simp add: rnd_def)

lemma rnd_le_int: "\<bar>x\<bar> < 2 ^ 53 \<Longrightarrow> x \<le> of_int b \<Longrightarrow> rnd x \<le> of_int b"
proof (cases "x = 0")
  case False
  assume x: "\<bar>x\<bar> < 2 ^ 53" "x \<le> of_int b"
  from ulp_int [OF False x(1)] obtain m where m: "of_int b / ulp x = of_int m" by blast
  have "x / ulp x \<le> of_int m" using x(2) by (simp flip: m add: divide_right_mono less_imp_le)
  then have "of_int (round_even (x / ulp x)) * ulp x \<le> of_int m * ulp x"
    using round_even_le by (intro mult_right_mono) (simp_all add: less_imp_le)
  also have "\<dots> = of_int b" by (simp flip: m)
  finally show ?thesis using False by (simp add: rnd_def)
qed (simp add: rnd_def)

lemma rnd_ge_int: "\<bar>x\<bar> < 2 ^ 53 \<Longrightarrow> of_int b \<le> x \<Longrightarrow> of_int b \<le> rnd x"
proof (cases "x = 0")
  case False
  assume x: "\<bar>x\<bar> < 2 ^ 53" "of_int b \<le> x"
  from ulp_int [OF False x(1)] obtain m where m: "of_int b / ulp x = of_int m" by blast
  have "of_int m \<le> x / ulp x" using x(2) by (simp flip: m add: divide_right_mono less_imp_le)
  then have "of_int m * ulp x \<le> of_int (round_even (x / ulp x)) * ulp x"
    using round_even_ge by (intro mult_right_mono) (simp_all add: less_imp_le)
  moreover have "of_int m * ulp x = of_int b" by (simp flip: m)
  ultimately show ?thesis using False by (simp add: rnd_def)
qed (simp add: rnd_def)

lemma rnd_int: "\<bar>n\<bar> < 2 ^ 53 \<Longrightarrow> rnd (of_int n) = of_int n"
proof -
  assume "\<bar>n\<bar> < 2 ^ 53"
  then have "\<bar>of_int n :: rat\<bar> < 2 ^ 53" by (metis of_int_abs of_int_less_iff of_int_numeral of_int_power)
  then show ?thesis using rnd_le_int [of "of_int n" n] rnd_ge_int [of "of_int n" n] by simp
qed

lemma rnd_nonneg: "0 \<le> x \<Longrightarrow> 0 \<le> rnd x"
  using round_even_ge [of 0 "x / ulp x"] by (simp add: rnd_def less_imp_le)

lemma rnd_bound: "\<bar>x\<bar> \<le> of_int b \<Longrightarrow> b < 2 ^ 53 \<Longrightarrow> \<bar>rnd x\<bar> \<le> of_int b"
proof -
  assume x: "\<bar>x\<bar> \<le> of_int b" "b < 2 ^ 53"
  then have "(of_int b :: rat) < 2 ^ 53" by (metis of_int_less_iff of_int_numeral of_int_power)
  then have "\<bar>x\<bar> < 2 ^ 53" using x by simp
  with x rnd_le_int [of x b] rnd_ge_int [of x "- b"] show ?thesis by (simp add: abs_le_iff)
qed

lemma finite_double_small: "\<bar>x\<bar> \<le> of_int b \<Longrightarrow> b < 2 ^ 53 \<Longrightarrow> finite_double x = Some (rnd x)"
proof -
  assume x: "\<bar>x\<bar> \<le> of_int b" "b < 2 ^ 53"
  then have "(of_int b :: rat) < 2 ^ 53" by (metis of_int_less_iff of_int_numeral of_int_power)
  also have "\<dots> < 2 ^ 1024" by (rule power_strict_increasing) simp_all
  finally show ?thesis using rnd_bound [OF x] by (simp add: finite_double_def)
qed

lemma rnd_near: "\<bar>x\<bar> < 2 \<Longrightarrow> x - 1 / 2 ^ 53 \<le> rnd x \<and> rnd x \<le> x + 1 / 2 ^ 53"
proof -
  assume x: "\<bar>x\<bar> < 2"
  then have e: "\<bar>rnd x - x\<bar> \<le> 2 powi (1 - 54)" by (intro rnd_error) simp_all
  have "(2 :: rat) powi (1 - 54) = 1 / 2 ^ 53" by (simp add: power_int_minus field_simps)
  with abs_le_D1 [OF e] abs_le_D2 [OF e] show ?thesis by linarith
qed

lemma finite_4: "\<bar>x\<bar> \<le> 4 \<Longrightarrow> finite_double x = Some (rnd x)"
  using finite_double_small [of x 4] by simp

text \<open>Next to 1: just above it is rounded down, between 1 and the double before it there is nothing, and scaling a smaller one keeps it below the factor.\<close>

lemma rnd_le_one:
  assumes s: "0 \<le> s" "s < 1 + 1 / 2 ^ 53"
  shows "rnd s \<le> 1"
proof (cases "s \<le> 1")
  case True
  then show ?thesis using s rnd_le_int [of s 1] by simp
next
  case False
  have "expo s = 0" by (rule expo_eqI) (use s False in simp_all)
  then have ulp: "ulp s = 1 / 2 ^ 52" using s by (simp add: ulp_def power_int_minus)
  have "round_even (s / ulp s) \<le> 2 ^ 52" unfolding ulp by (rule round_even_tie) (use s in simp)
  then have "(of_int (round_even (s / ulp s)) :: rat) \<le> of_int (2 ^ 52)" by (simp only: of_int_le_iff)
  then show ?thesis using False by (simp add: rnd_def ulp)
qed

lemma rnd_below_one:
  assumes "0 \<le> s" "rnd s < 1" "s < 2"
  shows "rnd s \<le> 1 - 1 / 2 ^ 53"
proof (cases "s < 1 / 2")
  case True
  then show ?thesis using rnd_near [of s] assms by simp
next
  case False
  have s: "s < 1"
  proof (rule ccontr)
    assume "\<not> s < 1"
    then have "1 \<le> rnd s" using rnd_ge_int [of s 1] assms by simp
    then show False using assms by simp
  qed
  have "expo s = - 1" by (rule expo_eqI) (use s False in simp_all)
  then have u: "ulp s = 1 / 2 ^ 53" using False by (simp add: ulp_def power_int_minus)
  let ?m = "round_even (s / ulp s)"
  have r: "rnd s = of_int ?m / 2 ^ 53" using False by (simp add: rnd_def u)
  then have "(of_int ?m :: rat) < of_int (2 ^ 53)" using assms(2) by simp
  then have "(of_int ?m :: rat) \<le> of_int (2 ^ 53 - 1)" by (simp only: of_int_less_iff of_int_le_iff)
  then show ?thesis by (simp add: r)
qed

lemma ulp_small: "0 < x \<Longrightarrow> x < of_int n \<Longrightarrow> ulp x < of_int n / 2 ^ 52"
proof (cases "expo x - 52 < - 1074")
  case True
  assume x: "0 < x" "x < of_int n"
  have "ulp x = 2 powi (- 1074)" using True x by (simp add: ulp_def)
  also have "\<dots> < 2 powi (- 52)" by (rule power_int_strict_increasing) simp_all
  also have "(2 :: rat) powi (- 52) = 1 / 2 ^ 52" by (simp add: power_int_minus field_simps)
  also have "\<dots> \<le> of_int n / 2 ^ 52"
  proof -
    have "0 < (of_int n :: rat)" using x by linarith
    then have "(of_int 1 :: rat) \<le> of_int n" by (simp only: of_int_0_less_iff of_int_le_iff)
    then show ?thesis by (simp add: divide_right_mono)
  qed
  finally show ?thesis .
next
  case False
  assume x: "0 < x" "x < of_int n"
  have "ulp x = 2 powi (expo x - 52)" using False x by (simp add: ulp_def)
  also have "\<dots> = 2 powi expo x / 2 ^ 52" by (simp add: power_int_diff)
  also have "\<dots> \<le> x / 2 ^ 52" using expo_bounds [OF x(1)] by (simp add: divide_right_mono)
  also have "\<dots> < of_int n / 2 ^ 52" using x by (simp add: divide_strict_right_mono)
  finally show ?thesis .
qed

lemma rnd_scaled:
  assumes r: "0 \<le> r" "r \<le> 1 - 1 / 2 ^ 53" and n: "0 < n"
  shows "0 \<le> rnd (r * of_int n)" "rnd (r * of_int n) < of_int n"
proof -
  let ?x = "r * of_int n"
  have n': "0 < (of_int n :: rat)" using n by simp
  show "0 \<le> rnd ?x" using r n by (intro rnd_nonneg) simp
  have "?x \<le> (1 - 1 / 2 ^ 53) * of_int n" using r n by (intro mult_right_mono) auto
  then have x: "?x \<le> of_int n - of_int n / 2 ^ 53" by (simp add: left_diff_distrib)
  show "rnd ?x < of_int n"
  proof (cases "?x = 0")
    case False
    then have "0 < ?x" using r n by (simp add: less_le)
    moreover have "?x < of_int n" using x n' by simp
    ultimately have u: "ulp ?x < of_int n / 2 ^ 52" by (rule ulp_small)
    have "of_int (round_even (?x / ulp ?x)) \<le> ?x / ulp ?x + 1 / 2" using round_even_err [of "?x / ulp ?x"] by linarith
    then have "of_int (round_even (?x / ulp ?x)) * ulp ?x \<le> (?x / ulp ?x + 1 / 2) * ulp ?x" by (intro mult_right_mono) (simp_all add: less_imp_le)
    then have "rnd ?x \<le> ?x + ulp ?x / 2" using False by (simp add: rnd_def distrib_right)
    then show ?thesis using u x by simp
  qed (simp add: rnd_def n)
qed

end
