(* ===== verification/StreamBench.thy ===== *)
theory StreamBench
  imports Doubles
begin

text \<open>
  The memory bandwidth benchmark \<open>sources/stream/stream.c\<close> in the builds that end (without \<open>__RUN_FOREVER__\<close>): \<open>do_run\<close> fills three arrays, runs
  the four kernels \<open>NTIMES\<close> times, updates the statistics of the measured times and checks the arrays; \<open>main\<close> runs it for local, remote and
  interleaved memory, or once on a machine with one node. The size of the arrays is an argument (each build sets \<open>STREAM_ARRAY_SIZE\<close>), as
  are the durations, the results of \<open>mmap\<close> and the number of nodes. The iterations of the parallel loops are independent.
\<close>

section \<open>Kernels\<close>

definition NTIMES :: nat where "NTIMES = 10"

type_synonym arrays = "double list \<times> double list \<times> double list"

definition init_step :: "nat \<Rightarrow> arrays \<Rightarrow> arrays option" where
  "init_step j = (\<lambda>(a, b, c). do { a \<leftarrow> aset a j 1; b \<leftarrow> aset b j 2; c \<leftarrow> aset c j 0; Some (a, b, c) })"

definition double_step :: "nat \<Rightarrow> arrays \<Rightarrow> arrays option" where
  "double_step j = (\<lambda>(a, b, c). do { x \<leftarrow> aget a j; y \<leftarrow> dmul 2 x; a \<leftarrow> aset a j y; Some (a, b, c) })"

definition copy_step :: "nat \<Rightarrow> arrays \<Rightarrow> arrays option" where
  "copy_step j = (\<lambda>(a, b, c). do { x \<leftarrow> aget a j; c \<leftarrow> aset c j x; Some (a, b, c) })"

definition scale_step :: "double \<Rightarrow> nat \<Rightarrow> arrays \<Rightarrow> arrays option" where
  "scale_step scalar j = (\<lambda>(a, b, c). do { x \<leftarrow> aget c j; y \<leftarrow> dmul scalar x; b \<leftarrow> aset b j y; Some (a, b, c) })"

definition add_step :: "nat \<Rightarrow> arrays \<Rightarrow> arrays option" where
  "add_step j = (\<lambda>(a, b, c). do { x \<leftarrow> aget a j; y \<leftarrow> aget b j; z \<leftarrow> dadd x y; c \<leftarrow> aset c j z; Some (a, b, c) })"

definition triad_step :: "double \<Rightarrow> nat \<Rightarrow> arrays \<Rightarrow> arrays option" where
  "triad_step scalar j = (\<lambda>(a, b, c). do {
     y \<leftarrow> aget b j; z \<leftarrow> aget c j; p \<leftarrow> dmul scalar z; x \<leftarrow> dadd y p; a \<leftarrow> aset a j x; Some (a, b, c) })"

definition kernels :: "nat \<Rightarrow> double \<Rightarrow> nat \<Rightarrow> arrays \<Rightarrow> arrays option" where
  "kernels n scalar k s = do {
     s \<leftarrow> for_up 0 n copy_step s;
     s \<leftarrow> for_up 0 n (scale_step scalar) s;
     s \<leftarrow> for_up 0 n add_step s;
     for_up 0 n (triad_step scalar) s }"

section \<open>Statistics\<close>

text \<open>The static variables; \<open>FLT_MAX\<close> is the largest finite \<open>float\<close>.\<close>

record stats =
  avgtime :: "double list"
  maxtime :: "double list"
  mintime :: "double list"

definition FLT_MAX :: double where "FLT_MAX = (2 - 1 / 2 ^ 23) * 2 ^ 127"

definition initial_stats :: stats where
  "initial_stats = \<lparr>avgtime = replicate 4 0, maxtime = replicate 4 0, mintime = replicate 4 FLT_MAX\<rparr>"

definition stat_step :: "(nat \<Rightarrow> nat \<Rightarrow> double) \<Rightarrow> nat \<Rightarrow> nat \<Rightarrow> stats \<Rightarrow> stats option" where
  "stat_step tm k j st = do {
     x \<leftarrow> aget (avgtime st) j;
     x \<leftarrow> dadd x (tm j k);
     avg \<leftarrow> aset (avgtime st) j x;
     x \<leftarrow> aget (mintime st) j;
     mins \<leftarrow> aset (mintime st) j (if x < tm j k then x else tm j k);
     x \<leftarrow> aget (maxtime st) j;
     maxs \<leftarrow> aset (maxtime st) j (if tm j k < x then x else tm j k);
     Some \<lparr>avgtime = avg, maxtime = maxs, mintime = mins\<rparr> }"

definition average_step :: "nat \<Rightarrow> stats \<Rightarrow> stats option" where
  "average_step j st = do {
     x \<leftarrow> aget (avgtime st) j;
     x \<leftarrow> ddiv x (of_int64 (int NTIMES - 1));
     avg \<leftarrow> aset (avgtime st) j x;
     Some (st\<lparr>avgtime := avg\<rparr>) }"

definition summary :: "(nat \<Rightarrow> nat \<Rightarrow> double) \<Rightarrow> stats \<Rightarrow> stats option" where
  "summary tm st = do {
     st \<leftarrow> for_up 1 NTIMES (\<lambda>k. for_up 0 4 (stat_step tm k)) st;
     for_up 0 4 average_step st }"

section \<open>The check\<close>

text \<open>The same operations on one element.\<close>

definition expect_step :: "double \<Rightarrow> nat \<Rightarrow> double \<times> double \<times> double \<Rightarrow> (double \<times> double \<times> double) option" where
  "expect_step scalar k = (\<lambda>(aj, bj, cj). do {
     let cj = aj;
     bj \<leftarrow> dmul scalar cj;
     cj \<leftarrow> dadd aj bj;
     p \<leftarrow> dmul scalar cj;
     aj \<leftarrow> dadd bj p;
     Some (aj, bj, cj) })"

definition expected :: "(double \<times> double \<times> double) option" where
  "expected = do {
     aj \<leftarrow> dmul 2 1;
     for_up 0 NTIMES (expect_step 3) (aj, 2, 0) }"

definition err_step :: "double list \<Rightarrow> double \<Rightarrow> nat \<Rightarrow> double \<Rightarrow> double option" where
  "err_step xs e j sumerr = do { x \<leftarrow> aget xs j; d \<leftarrow> dsub x e; dadd sumerr \<bar>d\<bar> }"

definition epsilon :: double where "epsilon = rnd (1 / 10 ^ 13)"

definition count_errors :: "nat \<Rightarrow> double list \<Rightarrow> double \<Rightarrow> int option" where
  "count_errors n xs e = for_up 0 n (\<lambda>j ierr. do {
     x \<leftarrow> aget xs j;
     q \<leftarrow> ddiv x e;
     d \<leftarrow> dsub q 1;
     Some (if epsilon < \<bar>d\<bar> then ierr + 1 else ierr) }) 0"

text \<open>One of the three arrays: whether it fails, and the number of errors that is then printed.\<close>

definition check_array :: "nat \<Rightarrow> double list \<Rightarrow> double \<Rightarrow> double \<Rightarrow> int option option" where
  "check_array n xs e avgerr = do {
     r \<leftarrow> ddiv avgerr e;
     if epsilon < \<bar>r\<bar> then do { ierr \<leftarrow> count_errors n xs e; Some (Some ierr) } else Some None }"

text \<open>The three results; the solution validates if none is there.\<close>

definition checkSTREAMresults :: "nat \<Rightarrow> arrays \<Rightarrow> int option list option" where
  "checkSTREAMresults n = (\<lambda>(a, b, c). do {
     (aj, bj, cj) \<leftarrow> expected;
     (aSumErr, bSumErr, cSumErr) \<leftarrow> for_up 0 n (\<lambda>j (x, y, z). do {
        x \<leftarrow> err_step a aj j x; y \<leftarrow> err_step b bj j y; z \<leftarrow> err_step c cj j z; Some (x, y, z) }) (0, 0, 0);
     aAvgErr \<leftarrow> ddiv aSumErr (of_int64 (int n));
     bAvgErr \<leftarrow> ddiv bSumErr (of_int64 (int n));
     cAvgErr \<leftarrow> ddiv cSumErr (of_int64 (int n));
     ra \<leftarrow> check_array n a aj aAvgErr;
     rb \<leftarrow> check_array n b bj bAvgErr;
     rc \<leftarrow> check_array n c cj cAvgErr;
     Some [ra, rb, rc] })"

section \<open>Runs\<close>

record stream_env =
  nodes :: nat
  mmap_ok :: "nat \<Rightarrow> nat \<Rightarrow> bool"
  duration :: "nat \<Rightarrow> nat \<Rightarrow> nat \<Rightarrow> double"

text \<open>What a run reports: the results of the check, and the shortest and average times from which the rates are computed.\<close>

record report =
  checked :: "int option list"
  best :: "double list"
  average :: "double list"

text \<open>Run number \<open>r\<close>; without memory there is no report. \<open>mmap\<close> returns zeroed memory.\<close>

definition do_run :: "nat \<Rightarrow> stream_env \<Rightarrow> nat \<Rightarrow> stats \<Rightarrow> (stats \<times> report option) option" where
  "do_run n env r st =
     (if \<not> mmap_ok env r 0 then Some (st, None)
      else if \<not> mmap_ok env r 1 then Some (st, None)
      else if \<not> mmap_ok env r 2 then Some (st, None)
      else do {
        s \<leftarrow> for_up 0 n init_step (replicate n 0, replicate n 0, replicate n 0);
        s \<leftarrow> for_up 0 n double_step s;
        s \<leftarrow> for_up 0 NTIMES (kernels n 3) s;
        st \<leftarrow> summary (duration env r) st;
        res \<leftarrow> checkSTREAMresults n s;
        Some (st, Some \<lparr>checked = res, best = mintime st, average = avgtime st\<rparr>) })"

definition stream_main :: "nat \<Rightarrow> stream_env \<Rightarrow> report option list option" where
  "stream_main n env =
     (if 1 < nodes env then do {
        (st, r0) \<leftarrow> do_run n env 0 initial_stats;
        (st, r1) \<leftarrow> do_run n env 1 st;
        (st, r2) \<leftarrow> do_run n env 2 st;
        Some [r0, r1, r2] }
      else do {
        (st, r0) \<leftarrow> do_run n env 0 initial_stats;
        Some [r0] })"

section \<open>The arrays\<close>

text \<open>Exact operations on integers.\<close>

lemma dmul_int: "\<bar>x * y\<bar> < 2 ^ 53 \<Longrightarrow> dmul (of_int x) (of_int y) = Some (of_int (x * y))"
  using rnd_int [of "x * y"] finite_double_small [of "of_int (x * y)" "\<bar>x * y\<bar>"] by (simp add: dmul_def)

lemma dadd_int: "\<bar>x + y\<bar> < 2 ^ 53 \<Longrightarrow> dadd (of_int x) (of_int y) = Some (of_int (x + y))"
  using rnd_int [of "x + y"] finite_double_small [of "of_int (x + y)" "\<bar>x + y\<bar>"] by (simp add: dadd_def)

text \<open>A loop that treats equal elements alike.\<close>

lemma uniform_loop:
  fixes f :: "nat \<Rightarrow> arrays \<Rightarrow> arrays option"
  assumes "\<And>j a b c. j < n \<Longrightarrow> length a = n \<Longrightarrow> length b = n \<Longrightarrow> length c = n \<Longrightarrow> a ! j = x \<Longrightarrow> b ! j = y \<Longrightarrow> c ! j = z \<Longrightarrow>
    f j (a, b, c) = Some (a[j := x'], b[j := y'], c[j := z'])"
  shows "for_up 0 n f (replicate n x, replicate n y, replicate n z) = Some (replicate n x', replicate n y', replicate n z')"
proof -
  let ?mix = "\<lambda>k u u'. replicate k u' @ replicate (n - k) u"
  have "\<exists>s. for_up 0 n f (replicate n x, replicate n y, replicate n z) = Some s \<and> s = (?mix n x x', ?mix n y y', ?mix n z z')"
  proof (rule for_up_rule [where P = "\<lambda>k s. s = (?mix k x x', ?mix k y y', ?mix k z z')"])
    fix k s assume k: "k < n" and s: "s = (?mix k x x', ?mix k y y', ?mix k z z')"
    have m: "(?mix k u u')[k := u'] = ?mix (Suc k) u u'" "?mix k u u' ! k = u" "length (?mix k u u') = n" for u u' :: double
    proof -
      have "replicate (n - k) u = u # replicate (n - Suc k) u" using k by (simp flip: replicate_Suc add: Suc_diff_Suc)
      then show "(?mix k u u')[k := u'] = ?mix (Suc k) u u'" "?mix k u u' ! k = u" "length (?mix k u u') = n"
        using k by (simp_all add: list_update_append nth_append replicate_app_Cons_same)
    qed
    have "f k (?mix k x x', ?mix k y y', ?mix k z z') = Some ((?mix k x x')[k := x'], (?mix k y y')[k := y'], (?mix k z z')[k := z'])"
      by (rule assms) (rule k m)+
    then show "\<exists>s'. f k s = Some s' \<and> s' = (?mix (Suc k) x x', ?mix (Suc k) y y', ?mix (Suc k) z z')" by (simp only: s m(1)) simp
  qed simp_all
  then show ?thesis by simp
qed

lemma array_loops:
  "for_up 0 n init_step (replicate n x, replicate n y, replicate n z) = Some (replicate n 1, replicate n 2, replicate n 0)"
  "dmul 2 x = Some x' \<Longrightarrow> for_up 0 n double_step (replicate n x, replicate n y, replicate n z) = Some (replicate n x', replicate n y, replicate n z)"
  "for_up 0 n copy_step (replicate n x, replicate n y, replicate n z) = Some (replicate n x, replicate n y, replicate n x)"
  "dmul sc z = Some y' \<Longrightarrow> for_up 0 n (scale_step sc) (replicate n x, replicate n y, replicate n z) = Some (replicate n x, replicate n y', replicate n z)"
  "dadd x y = Some z' \<Longrightarrow> for_up 0 n add_step (replicate n x, replicate n y, replicate n z) = Some (replicate n x, replicate n y, replicate n z')"
  "dmul sc z = Some p \<Longrightarrow> dadd y p = Some x' \<Longrightarrow>
     for_up 0 n (triad_step sc) (replicate n x, replicate n y, replicate n z) = Some (replicate n x', replicate n y, replicate n z)"
  by (rule uniform_loop; auto simp: init_step_def double_step_def copy_step_def scale_step_def add_step_def triad_step_def)+

lemma kernels_expect:
  assumes "expect_step sc k (x, y, z) = Some (x', y', z')"
  shows "kernels n sc k (replicate n x, replicate n y, replicate n z) = Some (replicate n x', replicate n y', replicate n z')"
proof -
  from assms obtain p where "dmul sc x = Some y'" "dadd x y' = Some z'" "dmul sc z' = Some p" "dadd y' p = Some x'"
    by (auto simp: expect_step_def split: bind_splits)
  then show ?thesis by (simp add: kernels_def array_loops)
qed

text \<open>Fifteenfold in every round, without rounding.\<close>

lemma expect_exact:
  assumes "0 \<le> m" "15 * m < 2 ^ 53"
  shows "expect_step 3 k (of_int m, y, z) = Some (of_int (15 * m), of_int (3 * m), of_int (4 * m))"
  using dmul_int [of 3 m] dadd_int [of m "3 * m"] dmul_int [of 3 "4 * m"] dadd_int [of "3 * m" "12 * m"] assms
  by (simp add: expect_step_def)

definition round_ok :: "nat \<Rightarrow> double \<times> double \<times> double \<Rightarrow> bool" where
  "round_ok k = (\<lambda>(x, y, z). x = of_int (2 * 15 ^ k) \<and> (0 < k \<longrightarrow> 0 < y \<and> 0 < z))"

lemma round_step:
  assumes "k < NTIMES" "round_ok k s"
  shows "\<exists>s'. expect_step 3 k s = Some s' \<and> round_ok (Suc k) s'"
proof -
  obtain y z where s: "s = (of_int (2 * 15 ^ k), y, z)" using assms(2) by (cases s) (simp add: round_ok_def)
  have "(15 :: int) ^ k \<le> 15 ^ 9" using assms(1) by (intro power_increasing) (simp_all add: NTIMES_def)
  then show ?thesis using expect_exact [of "2 * 15 ^ k" k y z] by (simp add: s round_ok_def)
qed

lemma rounds_agree:
  "\<exists>x y z. expected = Some (x, y, z) \<and> 0 < x \<and> 0 < y \<and> 0 < z \<and>
     for_up 0 NTIMES (kernels n 3) (replicate n 2, replicate n 2, replicate n 0) = Some (replicate n x, replicate n y, replicate n z)"
proof -
  let ?r = "\<lambda>(x, y, z). (replicate n x, replicate n y, replicate n z)"
  have two: "dmul 2 1 = Some 2" using dmul_int [of 2 1] by simp
  have "\<exists>s. for_n m k (expect_step 3) s0 = Some s \<and> round_ok (k + m) s \<and> for_n m k (kernels n 3) (?r s0) = Some (?r s)"
    if "k + m = NTIMES" "round_ok k s0" for m k s0
    using that
  proof (induction m arbitrary: k s0)
    case (Suc m)
    then obtain s1 where s1: "expect_step 3 k s0 = Some s1" "round_ok (Suc k) s1" using round_step [of k s0] by auto
    then have "kernels n 3 k (?r s0) = Some (?r s1)" using kernels_expect by (cases s0; cases s1) simp
    with Suc.IH [OF _ s1(2)] Suc.prems s1(1) show ?case by simp
  qed simp
  from this [of 0 NTIMES "(2, 2, 0)"] obtain s where
    s: "for_up 0 NTIMES (expect_step 3) (2, 2, 0) = Some s" "round_ok NTIMES s" "for_up 0 NTIMES (kernels n 3) (?r (2, 2, 0)) = Some (?r s)"
    by (auto simp: round_ok_def for_up_def)
  obtain x y z where "s = (x, y, z)" by (cases s)
  then show ?thesis using s by (auto simp: expected_def two round_ok_def NTIMES_def)
qed

section \<open>The check passes\<close>

lemma zero_results: "dsub x x = Some 0" "dadd 0 0 = Some 0" "y \<noteq> 0 \<Longrightarrow> ddiv 0 y = Some 0"
  by (simp_all add: dsub_def dadd_def ddiv_def finite_double_def rnd_def)

lemma epsilon_pos: "0 \<le> epsilon"
  unfolding epsilon_def by (rule rnd_nonneg) simp

lemma check_passes:
  assumes e: "expected = Some (x, y, z)" "0 < x" "0 < y" "0 < z" and n: "0 < n" "n < 2 ^ 53"
  shows "checkSTREAMresults n (replicate n x, replicate n y, replicate n z) = Some [None, None, None]"
proof -
  let ?f = "\<lambda>j (u, v, w). do { u \<leftarrow> err_step (replicate n x) x j u; v \<leftarrow> err_step (replicate n y) y j v; w \<leftarrow> err_step (replicate n z) z j w; Some (u, v, w) }"
  have "\<exists>s. for_up 0 n ?f (0, 0, 0) = Some s \<and> s = (0, 0, 0)"
    by (rule for_up_rule [where P = "\<lambda>_ s. s = (0, 0, 0)"]) (simp_all add: err_step_def zero_results)
  then have l: "for_up 0 n ?f (0, 0, 0) = Some (0, 0, 0)" by simp
  have "of_int64 (int n) = of_int (int n)" unfolding of_int64_def using n by (intro rnd_int) simp
  then have d: "of_int64 (int n) \<noteq> 0" using n by simp
  have c: "check_array n xs q 0 = Some None" if "0 < q" for xs q
    using that epsilon_pos by (simp add: check_array_def zero_results)
  show ?thesis unfolding checkSTREAMresults_def prod.case e(1) bind.bind_lunit l using e(2-) d by (simp add: zero_results c)
qed

section \<open>The statistics\<close>

definition stats_ok :: "(nat \<Rightarrow> int) \<Rightarrow> (nat \<Rightarrow> double) \<Rightarrow> stats \<Rightarrow> bool" where
  "stats_ok b m st \<longleftrightarrow> length (avgtime st) = 4 \<and> length (maxtime st) = 4 \<and> length (mintime st) = 4 \<and>
     (\<forall>j<4. 0 \<le> avgtime st ! j \<and> avgtime st ! j \<le> of_int (b j) \<and> mintime st ! j = m j)"

lemma bounded_add:
  assumes "0 \<le> x" "x \<le> of_int b" "0 \<le> t" "t \<le> 1000000" "b + 1000000 < 2 ^ 53"
  shows "\<exists>y. dadd x t = Some y \<and> 0 \<le> y \<and> y \<le> of_int (b + 1000000)"
proof -
  have a: "\<bar>x + t\<bar> \<le> of_int (b + 1000000)" using assms by simp
  have "rnd (x + t) \<le> of_int (b + 1000000)" using rnd_bound [OF a assms(5)] by linarith
  then show ?thesis using finite_double_small [OF a assms(5)] rnd_nonneg [of "x + t"] assms by (simp add: dadd_def)
qed

lemma stat_step_ok:
  assumes st: "stats_ok b m st" and j: "j < 4" "b j + 1000000 < 2 ^ 53" and t: "0 \<le> tm j k" "tm j k \<le> 1000000"
  shows "\<exists>st'. stat_step tm k j st = Some st' \<and> stats_ok (b(j := b j + 1000000)) (m(j := min (m j) (tm j k))) st'"
proof -
  from bounded_add [OF _ _ t j(2), of "avgtime st ! j"] st j(1) obtain y where
    y: "dadd (avgtime st ! j) (tm j k) = Some y" "0 \<le> y" "y \<le> of_int (b j + 1000000)" by (auto simp: stats_ok_def)
  have "(if x < tm j k then x else tm j k) = min x (tm j k)" for x by (simp add: min_def)
  then show ?thesis using st j(1) y by (auto simp: stat_step_def stats_ok_def nth_list_update)
qed

lemma stat_row_ok:
  assumes st: "stats_ok (\<lambda>_. b) m st" and b: "b + 1000000 < 2 ^ 53" and t: "\<And>j. 0 \<le> tm j k \<and> tm j k \<le> 1000000"
  shows "\<exists>st'. for_up 0 4 (stat_step tm k) st = Some st' \<and> stats_ok (\<lambda>_. b + 1000000) (\<lambda>j. min (m j) (tm j k)) st'"
proof -
  let ?b = "\<lambda>i j. if j < i then b + 1000000 else b" and ?m = "\<lambda>i j. if j < i then min (m j) (tm j k) else m j"
  have "\<exists>st'. for_up 0 4 (stat_step tm k) st = Some st' \<and> stats_ok (?b 4) (?m 4) st'"
  proof (rule for_up_rule [where P = "\<lambda>i. stats_ok (?b i) (?m i)"])
    fix i st assume i: "i < 4" and st: "stats_ok (?b i) (?m i) st"
    have "(?b i)(i := ?b i i + 1000000) = ?b (Suc i)" "(?m i)(i := min (?m i i) (tm i k)) = ?m (Suc i)" by (auto simp: fun_eq_iff)
    with stat_step_ok [where tm = tm and k = k, OF st i] b t show "\<exists>st'. stat_step tm k i st = Some st' \<and> stats_ok (?b (Suc i)) (?m (Suc i)) st'" by simp
  qed (use st in simp_all)
  then show ?thesis by (auto simp: stats_ok_def)
qed

lemma average_ok:
  assumes st: "stats_ok (\<lambda>_. 11000000) m st"
  shows "\<exists>st'. for_up 0 4 average_step st = Some st' \<and> stats_ok (\<lambda>_. 2000000) m st'"
proof -
  let ?b = "\<lambda>i j. if j < i then 2000000 else 11000000 :: int"
  have "\<exists>st'. for_up 0 4 average_step st = Some st' \<and> stats_ok (?b 4) m st'"
  proof (rule for_up_rule [where P = "\<lambda>i. stats_ok (?b i) m"])
    fix i st assume i: "i < 4" and st: "stats_ok (?b i) m st"
    let ?x = "avgtime st ! i"
    have x: "0 \<le> ?x" "?x \<le> 11000000" using st i by (auto simp: stats_ok_def)
    then have a: "\<bar>?x / 9\<bar> \<le> of_int 2000000" by simp
    have nine: "of_int64 9 = 9" using rnd_int [of 9] by (simp add: of_int64_def)
    have "ddiv ?x (of_int64 (int NTIMES - 1)) = Some (rnd (?x / 9))"
      using finite_double_small [OF a] by (simp add: ddiv_def NTIMES_def nine)
    moreover have "0 \<le> rnd (?x / 9)" "rnd (?x / 9) \<le> 2000000" using rnd_nonneg [of "?x / 9"] rnd_bound [OF a] x by auto
    ultimately show "\<exists>st'. average_step i st = Some st' \<and> stats_ok (?b (Suc i)) m st'"
      using st i by (auto simp: average_step_def stats_ok_def nth_list_update less_Suc_eq)
  qed (use st in simp_all)
  then show ?thesis by (auto simp: stats_ok_def)
qed

lemma summary_ok:
  assumes st: "stats_ok (\<lambda>_. 2000000) m st" and t: "\<And>j k. 0 \<le> tm j k \<and> tm j k \<le> 1000000"
  shows "\<exists>st'. summary tm st = Some st' \<and> stats_ok (\<lambda>_. 2000000) (\<lambda>j. Min (insert (m j) (tm j ` {1..<NTIMES}))) st'"
proof -
  let ?b = "\<lambda>k. 2000000 + int (k - 1) * 1000000" and ?m = "\<lambda>k j. Min (insert (m j) (tm j ` {1..<k}))"
  have "\<exists>st'. for_up 1 NTIMES (\<lambda>k. for_up 0 4 (stat_step tm k)) st = Some st' \<and> stats_ok (\<lambda>_. ?b NTIMES) (?m NTIMES) st'"
  proof (rule for_up_rule [where P = "\<lambda>k. stats_ok (\<lambda>_. ?b k) (?m k)"])
    fix k st assume k: "1 \<le> k" "k < NTIMES" and st: "stats_ok (\<lambda>_. ?b k) (?m k) st"
    have e: "{1..<Suc k} = insert k {1..<k}" using k by auto
    have "?m (Suc k) j = min (?m k j) (tm j k)" for j
      unfolding e image_insert by (subst insert_commute) (simp add: min.commute)
    moreover have "?b k + 1000000 = ?b (Suc k)" "?b k + 1000000 < 2 ^ 53" using k by (simp_all add: NTIMES_def)
    ultimately show "\<exists>st'. for_up 0 4 (stat_step tm k) st = Some st' \<and> stats_ok (\<lambda>_. ?b (Suc k)) (?m (Suc k)) st'"
      using stat_row_ok [where tm = tm and k = k, OF st _ t] by simp
  qed (use st in \<open>simp_all add: NTIMES_def\<close>)
  then obtain st' where s: "for_up 1 NTIMES (\<lambda>k. for_up 0 4 (stat_step tm k)) st = Some st'" "stats_ok (\<lambda>_. 11000000) (?m NTIMES) st'"
    by (auto simp: NTIMES_def)
  from average_ok [OF s(2)] s(1) show ?thesis by (simp add: summary_def)
qed

section \<open>All runs\<close>

lemma do_run_ok:
  assumes n: "0 < n" "n < 2 ^ 53" and env: "\<And>q i. mmap_ok env q i" "\<And>q j k. 0 \<le> duration env q j k \<and> duration env q j k \<le> 1000000"
    and st: "stats_ok (\<lambda>_. 2000000) m st"
  shows "\<exists>st' rep. do_run n env r st = Some (st', Some rep) \<and> checked rep = [None, None, None] \<and> best rep = mintime st' \<and>
    stats_ok (\<lambda>_. 2000000) (\<lambda>j. Min (insert (m j) (duration env r j ` {1..<NTIMES}))) st'"
proof -
  from rounds_agree [of n] obtain x y z where xyz: "expected = Some (x, y, z)" "0 < x" "0 < y" "0 < z"
    "for_up 0 NTIMES (kernels n 3) (replicate n 2, replicate n 2, replicate n 0) = Some (replicate n x, replicate n y, replicate n z)" by blast
  have two: "dmul 2 1 = Some 2" using dmul_int [of 2 1] by simp
  from summary_ok [where tm = "duration env r", OF st env(2)] obtain st' where
    "summary (duration env r) st = Some st'" "stats_ok (\<lambda>_. 2000000) (\<lambda>j. Min (insert (m j) (duration env r j ` {1..<NTIMES}))) st'" by blast
  then show ?thesis using env(1) xyz(5) check_passes [OF xyz(1-4) n] by (simp add: do_run_def array_loops two)
qed

text \<open>The durations of a kernel that count in the runs up to \<open>r\<close>, the first round of each run left out.\<close>

definition durations :: "stream_env \<Rightarrow> nat \<Rightarrow> nat \<Rightarrow> double set" where
  "durations env r j = (\<Union>q\<le>r. duration env q j ` {1..<NTIMES})"

lemma durations_Suc: "durations env (Suc r) j = durations env r j \<union> duration env (Suc r) j ` {1..<NTIMES}"
  by (auto simp: durations_def atMost_Suc)

lemma Min_insert_Un: "finite A \<Longrightarrow> finite B \<Longrightarrow> Min (insert (Min (insert a A)) B) = Min (insert a (A \<union> B))"
  for a :: double
  by (cases "A = {}"; cases "B = {}") (simp_all add: Min_Un min.assoc)

lemma durations_min:
  assumes "\<And>q j k. duration env q j k \<le> 1000000"
  shows "Min (insert FLT_MAX (durations env r j)) = Min (durations env r j)"
proof -
  have f: "finite (durations env r j)" by (simp add: durations_def)
  have i: "duration env 0 j 1 \<in> durations env r j" unfolding durations_def by (rule UN_I [of 0]) (auto simp: NTIMES_def)
  have "Min (durations env r j) \<le> duration env 0 j 1" using f i by (rule Min_le)
  also have "\<dots> \<le> 1000000" by (rule assms)
  also have "\<dots> \<le> FLT_MAX" by (simp add: FLT_MAX_def)
  finally show ?thesis using f i by (subst Min_insert) auto
qed

lemma finite_durations: "finite (durations env r j)"
  by (simp add: durations_def)

definition runs_ok :: "stream_env \<Rightarrow> nat \<Rightarrow> stats \<Rightarrow> bool" where
  "runs_ok env r st \<longleftrightarrow> stats_ok (\<lambda>_. 2000000) (\<lambda>j. Min (insert FLT_MAX (durations env r j))) st"

lemma first_run:
  assumes n: "0 < n" "n < 2 ^ 53" and env: "\<And>q i. mmap_ok env q i" "\<And>q j k. 0 \<le> duration env q j k \<and> duration env q j k \<le> 1000000"
  shows "\<exists>st rep. do_run n env 0 initial_stats = Some (st, Some rep) \<and> checked rep = [None, None, None] \<and> best rep = mintime st \<and> runs_ok env 0 st"
proof -
  have "stats_ok (\<lambda>_. 2000000) (\<lambda>_. FLT_MAX) initial_stats" by (simp add: stats_ok_def initial_stats_def)
  from do_run_ok [OF n env this, of 0] show ?thesis by (simp add: runs_ok_def durations_def)
qed

lemma next_run:
  assumes n: "0 < n" "n < 2 ^ 53" and env: "\<And>q i. mmap_ok env q i" "\<And>q j k. 0 \<le> duration env q j k \<and> duration env q j k \<le> 1000000"
    and st: "runs_ok env r st"
  shows "\<exists>st' rep. do_run n env (Suc r) st = Some (st', Some rep) \<and> checked rep = [None, None, None] \<and> best rep = mintime st' \<and> runs_ok env (Suc r) st'"
  using do_run_ok [OF n env st [unfolded runs_ok_def], of "Suc r"]
  by (simp add: runs_ok_def durations_Suc Min_insert_Un finite_durations)

text \<open>
  C29: A STREAM run validates, and its best times include those of earlier runs. For arrays of any size below \<open>2 ^ 53\<close>, memory for them and durations of
  at most \<open>10 ^ 6\<close> seconds, \<open>main\<close> makes three runs on a machine with more than one node and one run otherwise; in each of them the check finds no error in
  any array, and the best time reported for each kernel is the shortest one of all runs so far (the first round of each left out), and not
  that of the run for the remote or interleaved memory itself.
\<close>

theorem stream_runs_validate:
  assumes "0 < n" "n < 2 ^ 53" "\<And>q i. mmap_ok env q i" "\<And>q j k. 0 \<le> duration env q j k \<and> duration env q j k \<le> 1000000"
  shows "\<exists>reps. stream_main n env = Some (map Some reps) \<and> length reps = (if 1 < nodes env then 3 else 1) \<and>
    (\<forall>r<length reps. checked (reps ! r) = [None, None, None] \<and> (\<forall>j<4. best (reps ! r) ! j = Min (durations env r j)))"
proof -
  have best: "\<forall>j<4. best rep ! j = Min (durations env r j)" if "runs_ok env r st" "best rep = mintime st" for r st and rep :: report
    using that durations_min [of env r] assms(4) by (simp add: runs_ok_def stats_ok_def)
  from first_run [OF assms] obtain st0 rep0 where
    0: "do_run n env 0 initial_stats = Some (st0, Some rep0)" "checked rep0 = [None, None, None]" "best rep0 = mintime st0" "runs_ok env 0 st0" by blast
  show ?thesis
  proof (cases "1 < nodes env")
    case True
    from next_run [OF assms 0(4)] obtain st1 rep1 where
      1: "do_run n env 1 st0 = Some (st1, Some rep1)" "checked rep1 = [None, None, None]" "best rep1 = mintime st1" "runs_ok env 1 st1" by auto
    from next_run [OF assms 1(4)] obtain st2 rep2 where
      2: "do_run n env 2 st1 = Some (st2, Some rep2)" "checked rep2 = [None, None, None]" "best rep2 = mintime st2" "runs_ok env 2 st2"
      by (auto simp: numeral_2_eq_2)
    have "stream_main n env = Some (map Some [rep0, rep1, rep2])" using True 0(1) 1(1) 2(1) by (simp add: stream_main_def)
    then show ?thesis using True best [OF 0(4,3)] best [OF 1(4,3)] best [OF 2(4,3)] 0(2) 1(2) 2(2)
      by (intro exI [of _ "[rep0, rep1, rep2]"]) (auto simp: less_Suc_eq numeral_3_eq_3 numeral_2_eq_2)
  next
    case False
    then show ?thesis using 0 best [OF 0(4,3)] by (intro exI [of _ "[rep0]"]) (simp add: stream_main_def)
  qed
qed

theorem stream_runs_validate_witness:
  "\<exists>reps. stream_main 5 \<lparr>nodes = 2, mmap_ok = \<lambda>_ _. True, duration = \<lambda>q _ _. 1 + of_nat (min q 2)\<rparr> = Some (map Some reps) \<and> length reps = 3 \<and>
    checked (reps ! 2) = [None, None, None] \<and> best (reps ! 2) ! 0 = 1"
proof -
  let ?env = "\<lparr>nodes = 2, mmap_ok = \<lambda>_ _. True, duration = \<lambda>q _ _. 1 + of_nat (min q 2)\<rparr> :: stream_env"
  have "0 \<le> duration ?env q j k \<and> duration ?env q j k \<le> 1000000" for q j k by (simp add: min_def)
  from stream_runs_validate [of 5 ?env, OF _ _ _ this] obtain reps where
    r: "stream_main 5 ?env = Some (map Some reps)" "length reps = 3" "checked (reps ! 2) = [None, None, None]" "best (reps ! 2) ! 0 = Min (durations ?env 2 0)"
    by auto
  have "1 \<in> durations ?env 2 0" unfolding durations_def by (rule UN_I [of 0]) (auto simp: NTIMES_def intro!: image_eqI [of _ _ 1])
  then have "Min (durations ?env 2 0) = 1" by (intro Min_eqI) (auto simp: durations_def)
  with r show ?thesis by (intro exI [of _ reps]) simp
qed

end
