(* ===== verification/ModArith.thy ===== *)
theory ModArith
  imports Prelude
begin

text \<open>
  Arithmetic modulo \<open>2 ^ 31 - 1\<close> of \<open>sources/graph500/generator\<close>: \<open>mod_arith_64bit.h\<close>, which the build selects, and the
  alternative \<open>mod_arith_32bit.h\<close>. \<open>uint_fast32_t\<close> and \<open>int_fast32_t\<close> have 64 bits on the platform. A failed
  \<open>assert\<close> is \<open>None\<close>. Both headers are shown to implement one interface, so they are interchangeable.
\<close>

definition P31 :: nat where "P31 = 0x7FFFFFFF"

section \<open>mod\_arith\_64bit.h\<close>

definition arg_ok :: "u64 \<Rightarrow> bool" where
  "arg_ok a \<longleftrightarrow> a \<le> 0x7FFFFFFE"

definition mod_add :: "u64 \<Rightarrow> u64 \<Rightarrow> u64 option" where
  "mod_add a b = (if arg_ok a \<and> arg_ok b then Some ((a + b) mod 0x7FFFFFFF) else None)"

definition mod_mul :: "u64 \<Rightarrow> u64 \<Rightarrow> u64 option" where
  "mod_mul a b = (if arg_ok a \<and> arg_ok b then Some (a * b mod 0x7FFFFFFF) else None)"

definition mod_mac :: "u64 \<Rightarrow> u64 \<Rightarrow> u64 \<Rightarrow> u64 option" where
  "mod_mac s a b = (if arg_ok s \<and> arg_ok a \<and> arg_ok b then Some ((a * b + s) mod 0x7FFFFFFF) else None)"

definition mod_mac2 :: "u64 \<Rightarrow> u64 \<Rightarrow> u64 \<Rightarrow> u64 \<Rightarrow> u64 \<Rightarrow> u64 option" where
  "mod_mac2 s a b c d = (if arg_ok s \<and> arg_ok a \<and> arg_ok b \<and> arg_ok c \<and> arg_ok d
     then Some ((a * b + c * d + s) mod 0x7FFFFFFF) else None)"

definition mod_mac3 :: "u64 \<Rightarrow> u64 \<Rightarrow> u64 \<Rightarrow> u64 \<Rightarrow> u64 \<Rightarrow> u64 \<Rightarrow> u64 \<Rightarrow> u64 option" where
  "mod_mac3 s a b c d e f = (if arg_ok s \<and> arg_ok a \<and> arg_ok b \<and> arg_ok c \<and> arg_ok d \<and> arg_ok e \<and> arg_ok f
     then Some ((a * b + c * d + e * f + s) mod 0x7FFFFFFF) else None)"

definition mod_mac4 :: "u64 \<Rightarrow> u64 \<Rightarrow> u64 \<Rightarrow> u64 \<Rightarrow> u64 \<Rightarrow> u64 \<Rightarrow> u64 \<Rightarrow> u64 \<Rightarrow> u64 \<Rightarrow> u64 option" where
  "mod_mac4 s a b c d e f g h = (if arg_ok s \<and> arg_ok a \<and> arg_ok b \<and> arg_ok c \<and> arg_ok d \<and> arg_ok e \<and> arg_ok f \<and> arg_ok g \<and> arg_ok h
     then Some ((a * b + c * d + e * f + g * h + s) mod 0x7FFFFFFF) else None)"

definition mod_mul_x :: "u64 \<Rightarrow> u64 option" where
  "mod_mul_x a = mod_mul a 107374182"

definition mod_mul_y :: "u64 \<Rightarrow> u64 option" where
  "mod_mul_y a = mod_mul a 104480"

definition mod_mac_y :: "u64 \<Rightarrow> u64 \<Rightarrow> u64 option" where
  "mod_mac_y s a = mod_mac s a 104480"

section \<open>mod\_arith\_32bit.h\<close>

definition m32_add :: "u64 \<Rightarrow> u64 \<Rightarrow> u64 option" where
  "m32_add a b = (if arg_ok a \<and> arg_ok b
     then (let x = a + b in Some (if 0x7FFFFFFF \<le> x then x - 0x7FFFFFFF else x)) else None)"

text \<open>One fold of a product: low 31 bits plus the rest, and a conditional subtraction.\<close>

definition fold31 :: "u64 \<Rightarrow> u64" where
  "fold31 temp = (let temp2 = (temp AND 0x7FFFFFFF) + drop_bit 31 temp
     in if 0x7FFFFFFF \<le> temp2 then temp2 - 0x7FFFFFFF else temp2)"

definition m32_mul :: "u64 \<Rightarrow> u64 \<Rightarrow> u64 option" where
  "m32_mul a b = (if arg_ok a \<and> arg_ok b then Some (fold31 (a * b)) else None)"

definition m32_mac :: "u64 \<Rightarrow> u64 \<Rightarrow> u64 \<Rightarrow> u64 option" where
  "m32_mac s a b = (if arg_ok s \<and> arg_ok a \<and> arg_ok b then Some (fold31 (a * b + s)) else None)"

definition m32_mac2 :: "u64 \<Rightarrow> u64 \<Rightarrow> u64 \<Rightarrow> u64 \<Rightarrow> u64 \<Rightarrow> u64 option" where
  "m32_mac2 s a b c d = (if arg_ok s \<and> arg_ok a \<and> arg_ok b \<and> arg_ok c \<and> arg_ok d
     then do { r \<leftarrow> m32_mac s a b; m32_mac r c d } else None)"

definition m32_mac3 :: "u64 \<Rightarrow> u64 \<Rightarrow> u64 \<Rightarrow> u64 \<Rightarrow> u64 \<Rightarrow> u64 \<Rightarrow> u64 \<Rightarrow> u64 option" where
  "m32_mac3 s a b c d e f = (if arg_ok s \<and> arg_ok a \<and> arg_ok b \<and> arg_ok c \<and> arg_ok d \<and> arg_ok e \<and> arg_ok f
     then do { r \<leftarrow> m32_mac s a b; m32_mac2 r c d e f } else None)"

definition m32_mac4 :: "u64 \<Rightarrow> u64 \<Rightarrow> u64 \<Rightarrow> u64 \<Rightarrow> u64 \<Rightarrow> u64 \<Rightarrow> u64 \<Rightarrow> u64 \<Rightarrow> u64 \<Rightarrow> u64 option" where
  "m32_mac4 s a b c d e f g h = (if arg_ok s \<and> arg_ok a \<and> arg_ok b \<and> arg_ok c \<and> arg_ok d \<and> arg_ok e \<and> arg_ok f \<and> arg_ok g \<and> arg_ok h
     then do { r \<leftarrow> m32_mac2 s a b c d; m32_mac2 r e f g h } else None)"

text \<open>Multiplication by a constant with the quotient \<open>q\<close> and remainder \<open>r\<close> of the modulus, in signed arithmetic.\<close>

definition m32_mul_const :: "int \<Rightarrow> int \<Rightarrow> int \<Rightarrow> u64 \<Rightarrow> u64 option" where
  "m32_mul_const k q r a =
     (let n = sint a; res = n div q; res = k * (n - res * q) - res * r;
          res = res + (if res < 0 then 0x7FFFFFFF else 0)
      in if Some (word_of_int res) = m32_mul a (word_of_int k) then Some (word_of_int res) else None)"

definition m32_mul_x :: "u64 \<Rightarrow> u64 option" where
  "m32_mul_x a = m32_mul_const 107374182 20 7 a"

definition m32_mul_y :: "u64 \<Rightarrow> u64 option" where
  "m32_mul_y a = m32_mul_const 104480 20554 1727 a"

definition m32_mac_y :: "u64 \<Rightarrow> u64 \<Rightarrow> u64 option" where
  "m32_mac_y s a = do { y \<leftarrow> m32_mul_y a; r \<leftarrow> m32_add s y; if Some r = m32_mac s a 104480 then Some r else None }"

section \<open>The interface\<close>

text \<open>What the generator relies on: each operation is its name modulo \<open>2 ^ 31 - 1\<close>, on arguments below it.\<close>

definition res :: "nat \<Rightarrow> u64" where
  "res n = word_of_nat (n mod P31)"

locale mod31 =
  fixes add mul :: "u64 \<Rightarrow> u64 \<Rightarrow> u64 option" and mac :: "u64 \<Rightarrow> u64 \<Rightarrow> u64 \<Rightarrow> u64 option"
    and mac2 :: "u64 \<Rightarrow> u64 \<Rightarrow> u64 \<Rightarrow> u64 \<Rightarrow> u64 \<Rightarrow> u64 option"
    and mac3 :: "u64 \<Rightarrow> u64 \<Rightarrow> u64 \<Rightarrow> u64 \<Rightarrow> u64 \<Rightarrow> u64 \<Rightarrow> u64 \<Rightarrow> u64 option"
    and mac4 :: "u64 \<Rightarrow> u64 \<Rightarrow> u64 \<Rightarrow> u64 \<Rightarrow> u64 \<Rightarrow> u64 \<Rightarrow> u64 \<Rightarrow> u64 \<Rightarrow> u64 \<Rightarrow> u64 option"
    and mul_x mul_y :: "u64 \<Rightarrow> u64 option" and mac_y :: "u64 \<Rightarrow> u64 \<Rightarrow> u64 option"
  assumes add: "add a b = (if arg_ok a \<and> arg_ok b then Some (res (unat a + unat b)) else None)"
    and mul: "mul a b = (if arg_ok a \<and> arg_ok b then Some (res (unat a * unat b)) else None)"
    and mac: "mac s a b = (if arg_ok s \<and> arg_ok a \<and> arg_ok b then Some (res (unat a * unat b + unat s)) else None)"
    and mac2: "mac2 s a b c d = (if arg_ok s \<and> arg_ok a \<and> arg_ok b \<and> arg_ok c \<and> arg_ok d
      then Some (res (unat a * unat b + unat c * unat d + unat s)) else None)"
    and mac3: "mac3 s a b c d e f = (if arg_ok s \<and> arg_ok a \<and> arg_ok b \<and> arg_ok c \<and> arg_ok d \<and> arg_ok e \<and> arg_ok f
      then Some (res (unat a * unat b + unat c * unat d + unat e * unat f + unat s)) else None)"
    and mac4: "mac4 s a b c d e f g h = (if arg_ok s \<and> arg_ok a \<and> arg_ok b \<and> arg_ok c \<and> arg_ok d \<and> arg_ok e \<and> arg_ok f \<and> arg_ok g \<and> arg_ok h
      then Some (res (unat a * unat b + unat c * unat d + unat e * unat f + unat g * unat h + unat s)) else None)"
    and mul_x: "mul_x a = (if arg_ok a then Some (res (107374182 * unat a)) else None)"
    and mul_y: "mul_y a = (if arg_ok a then Some (res (104480 * unat a)) else None)"
    and mac_y: "mac_y s a = (if arg_ok s \<and> arg_ok a then Some (res (104480 * unat a + unat s)) else None)"

section \<open>Words below the modulus\<close>

lemma arg_ok_unat: "arg_ok a \<longleftrightarrow> unat a < P31"
  by (auto simp: arg_ok_def word_le_nat_alt P31_def)

lemma unat_res [simp]: "unat (res n) = n mod P31"
proof -
  have "n mod P31 < P31" by (simp add: P31_def)
  then have "n mod P31 < 2 ^ 64" by (rule less_trans) (simp add: P31_def)
  then show ?thesis by (simp add: res_def unsigned_of_nat take_bit_nat_eq_self)
qed

lemma arg_ok_res [simp]: "arg_ok (res n)"
  by (simp add: arg_ok_unat P31_def)

lemma res_mod: "res (n mod P31) = res n"
  by (simp add: res_def)

lemma word_eq_res: "unat w = n mod P31 \<Longrightarrow> w = res n"
  by (metis unat_res word_unat_eq_iff)

lemma word_mod_res:
  assumes "unat w = n"
  shows "w mod 0x7FFFFFFF = res n"
proof -
  have "unat (w mod 0x7FFFFFFF) = n mod P31" using assms by (simp add: unat_mod_distrib P31_def)
  then show ?thesis by (rule word_eq_res)
qed

lemma prod_le:
  assumes "arg_ok a" "arg_ok b"
  shows "unat a * unat b \<le> 4611686009837453316" and "unat (a * b) = unat a * unat b"
proof -
  have "unat a \<le> 2147483646" "unat b \<le> 2147483646" using assms by (simp_all add: arg_ok_unat P31_def)
  from mult_le_mono [OF this] show le: "unat a * unat b \<le> 4611686009837453316" by simp
  then have "unat a * unat b < 2 ^ 64" by simp
  then show "unat (a * b) = unat a * unat b" by (simp add: unat_word_ariths take_bit_nat_eq_self)
qed

lemma unat_plus_less: "unat a + unat b < 2 ^ 64 \<Longrightarrow> unat (a + b) = unat a + unat (b :: u64)"
  by (simp add: unat_word_ariths)

lemma arg_ok_le: "arg_ok a \<Longrightarrow> unat a \<le> 2147483646"
  by (simp add: arg_ok_unat P31_def)

lemma mod_add_res: "mod_add a b = (if arg_ok a \<and> arg_ok b then Some (res (unat a + unat b)) else None)"
  using arg_ok_le [of a] arg_ok_le [of b] by (auto simp: mod_add_def intro!: word_mod_res unat_plus_less)

lemma mod_mul_res: "mod_mul a b = (if arg_ok a \<and> arg_ok b then Some (res (unat a * unat b)) else None)"
  by (auto simp: mod_mul_def prod_le(2) intro!: word_mod_res)

lemma mod_mac_res: "mod_mac s a b = (if arg_ok s \<and> arg_ok a \<and> arg_ok b then Some (res (unat a * unat b + unat s)) else None)"
  using arg_ok_le [of s] prod_le [of a b] by (auto simp: mod_mac_def unat_plus_less intro!: word_mod_res)

lemma mod_mac2_res: "mod_mac2 s a b c d = (if arg_ok s \<and> arg_ok a \<and> arg_ok b \<and> arg_ok c \<and> arg_ok d
    then Some (res (unat a * unat b + unat c * unat d + unat s)) else None)"
  using arg_ok_le [of s] prod_le [of a b] prod_le [of c d] by (auto simp: mod_mac2_def unat_plus_less intro!: word_mod_res)

lemma mod_mac3_res: "mod_mac3 s a b c d e f = (if arg_ok s \<and> arg_ok a \<and> arg_ok b \<and> arg_ok c \<and> arg_ok d \<and> arg_ok e \<and> arg_ok f
    then Some (res (unat a * unat b + unat c * unat d + unat e * unat f + unat s)) else None)"
  using arg_ok_le [of s] prod_le [of a b] prod_le [of c d] prod_le [of e f]
  by (auto simp: mod_mac3_def unat_plus_less intro!: word_mod_res)

text \<open>Four products and a summand just fit in 64 bits.\<close>

lemma mod_mac4_res: "mod_mac4 s a b c d e f g h = (if arg_ok s \<and> arg_ok a \<and> arg_ok b \<and> arg_ok c \<and> arg_ok d \<and> arg_ok e \<and> arg_ok f \<and> arg_ok g \<and> arg_ok h
    then Some (res (unat a * unat b + unat c * unat d + unat e * unat f + unat g * unat h + unat s)) else None)"
  using arg_ok_le [of s] prod_le [of a b] prod_le [of c d] prod_le [of e f] prod_le [of g h]
  by (auto simp: mod_mac4_def unat_plus_less intro!: word_mod_res)

interpretation m64: mod31 mod_add mod_mul mod_mac mod_mac2 mod_mac3 mod_mac4 mod_mul_x mod_mul_y mod_mac_y
proof unfold_locales
  have "arg_ok 107374182" "arg_ok 104480" by (simp_all add: arg_ok_def)
  then show "mod_mul_x a = (if arg_ok a then Some (res (107374182 * unat a)) else None)"
    "mod_mul_y a = (if arg_ok a then Some (res (104480 * unat a)) else None)"
    "mod_mac_y s a = (if arg_ok s \<and> arg_ok a then Some (res (104480 * unat a + unat s)) else None)" for a s
    by (simp_all add: mod_mul_x_def mod_mul_y_def mod_mac_y_def mod_mul_res mod_mac_res mult.commute)
qed (rule mod_add_res mod_mul_res mod_mac_res mod_mac2_res mod_mac3_res mod_mac4_res)+

section \<open>The 32-bit header\<close>

lemma fold31_res:
  assumes "unat t \<le> 4611686011984936962"
  shows "fold31 t = res (unat t)"
proof -
  let ?lo = "t AND 0x7FFFFFFF" and ?hi = "drop_bit 31 t"
  have lo: "unat ?lo = unat t mod 2 ^ 31"
  proof -
    have "?lo = take_bit 31 t" by (simp add: take_bit_eq_mask mask_eq_exp_minus_1)
    then show ?thesis by (simp add: unsigned_take_bit_eq take_bit_eq_mod unat_mod_distrib)
  qed
  have hi: "unat ?hi = unat t div 2 ^ 31" by (simp add: drop_bit_eq_div unat_div_distrib)
  have hb: "unat ?hi \<le> 2147483645" unfolding hi using div_le_mono [OF assms, of "2 ^ 31"] by simp
  have lb: "unat ?lo \<le> 2147483647" unfolding lo by (simp add: less_Suc_eq_le [symmetric])
  have s: "unat (?lo + ?hi) = unat ?lo + unat ?hi" using hb lb by (intro unat_plus_less) simp
  have eq: "unat t = P31 * unat ?hi + (unat ?lo + unat ?hi)"
    using mult_div_mod_eq [of "2 ^ 31" "unat t"] unfolding lo hi P31_def by simp
  have "unat (fold31 t) = unat t mod P31"
  proof (cases "0x7FFFFFFF \<le> ?lo + ?hi")
    case True
    then have ge: "P31 \<le> unat ?lo + unat ?hi" using s by (simp add: word_le_nat_alt P31_def)
    have "unat (fold31 t) = unat ?lo + unat ?hi - P31" using True s by (simp add: fold31_def unat_sub P31_def)
    moreover have "unat t mod P31 = (unat ?lo + unat ?hi) mod P31" unfolding eq by simp
    moreover have "(unat ?lo + unat ?hi) mod P31 = unat ?lo + unat ?hi - P31"
      using ge hb lb by (simp add: le_mod_geq P31_def)
    ultimately show ?thesis by simp
  next
    case False
    then have "unat ?lo + unat ?hi < P31" using s by (simp add: word_le_nat_alt P31_def)
    moreover have "unat t mod P31 = (unat ?lo + unat ?hi) mod P31" unfolding eq by simp
    ultimately show ?thesis using False s by (simp add: fold31_def)
  qed
  then show ?thesis by (rule word_eq_res)
qed

lemma m32_add_res: "m32_add a b = (if arg_ok a \<and> arg_ok b then Some (res (unat a + unat b)) else None)"
proof (cases "arg_ok a \<and> arg_ok b")
  case True
  then have b: "unat a < P31" "unat b < P31" by (simp_all add: arg_ok_unat)
  then have s: "unat (a + b) = unat a + unat b" by (intro unat_plus_less) (simp add: P31_def)
  have le: "0x7FFFFFFF \<le> a + b \<longleftrightarrow> P31 \<le> unat a + unat b" unfolding word_le_nat_alt s by (simp add: P31_def)
  have "unat (if 0x7FFFFFFF \<le> a + b then a + b - 0x7FFFFFFF else a + b) = (unat a + unat b) mod P31"
  proof (cases "0x7FFFFFFF \<le> a + b")
    case True
    then have ge: "P31 \<le> unat a + unat b" unfolding le .
    have "unat (a + b - 0x7FFFFFFF) = unat a + unat b - P31" unfolding unat_sub [OF True] s by (simp add: P31_def)
    moreover have "(unat a + unat b) mod P31 = unat a + unat b - P31" using ge b by (simp add: le_mod_geq)
    ultimately show ?thesis using True by simp
  next
    case False
    then have "unat a + unat b < P31" unfolding le by simp
    then show ?thesis using False s by (simp only: if_False mod_less)
  qed
  then have "(if 0x7FFFFFFF \<le> a + b then a + b - 0x7FFFFFFF else a + b) = res (unat a + unat b)"
    by (rule word_eq_res)
  with True show ?thesis by (simp add: m32_add_def Let_def)
qed (auto simp: m32_add_def)

lemma m32_mul_res: "m32_mul a b = (if arg_ok a \<and> arg_ok b then Some (res (unat a * unat b)) else None)"
  using prod_le [of a b] by (auto simp: m32_mul_def fold31_res)

lemma m32_mac_res: "m32_mac s a b = (if arg_ok s \<and> arg_ok a \<and> arg_ok b then Some (res (unat a * unat b + unat s)) else None)"
  using arg_ok_le [of s] prod_le [of a b] by (auto simp: m32_mac_def unat_plus_less fold31_res)

lemma res_cong: "n mod P31 = m mod P31 \<Longrightarrow> res n = res m"
  by (simp add: res_def)

lemma m32_mac2_res: "m32_mac2 s a b c d = (if arg_ok s \<and> arg_ok a \<and> arg_ok b \<and> arg_ok c \<and> arg_ok d
    then Some (res (unat a * unat b + unat c * unat d + unat s)) else None)"
  by (auto simp: m32_mac2_def m32_mac_res mod_simps intro!: res_cong) (simp_all add: ac_simps)

lemma m32_mac3_res: "m32_mac3 s a b c d e f = (if arg_ok s \<and> arg_ok a \<and> arg_ok b \<and> arg_ok c \<and> arg_ok d \<and> arg_ok e \<and> arg_ok f
    then Some (res (unat a * unat b + unat c * unat d + unat e * unat f + unat s)) else None)"
  by (auto simp: m32_mac3_def m32_mac_res m32_mac2_res mod_simps intro!: res_cong) (simp_all add: ac_simps)

lemma m32_mac4_res: "m32_mac4 s a b c d e f g h = (if arg_ok s \<and> arg_ok a \<and> arg_ok b \<and> arg_ok c \<and> arg_ok d \<and> arg_ok e \<and> arg_ok f \<and> arg_ok g \<and> arg_ok h
    then Some (res (unat a * unat b + unat c * unat d + unat e * unat f + unat g * unat h + unat s)) else None)"
  by (auto simp: m32_mac4_def m32_mac2_res mod_simps intro!: res_cong) (simp_all add: ac_simps)

text \<open>Schrage's decomposition: with \<open>2 ^ 31 - 1 = k * q + r\<close> and \<open>r < q\<close> the product is computed without leaving 32 bits.\<close>

lemma schrage:
  fixes k q r n :: int
  assumes m: "k * q + r = 0x7FFFFFFF" and r: "0 \<le> r" "r < q" and q: "0 < q" and k: "0 < k" and n: "0 \<le> n" "n < 0x7FFFFFFF"
  defines "v \<equiv> k * (n - n div q * q) - n div q * r"
  shows "v + (if v < 0 then 0x7FFFFFFF else 0) = k * n mod 0x7FFFFFFF"
proof -
  let ?M = "0x7FFFFFFF :: int"
  have nm: "n - n div q * q = n mod q" by (simp add: minus_div_mult_eq_mod)
  have v: "v = k * n - (n div q) * ?M" unfolding v_def m [symmetric] by (simp add: algebra_simps)
  have lo: "0 \<le> k * (n mod q)" using k q by simp
  have hi: "k * (n mod q) \<le> k * (q - 1)" using k q by (intro mult_left_mono) (simp_all add: pos_mod_bound zle_diff1_eq)
  have "k * (q - 1) < ?M" using m k r by (simp add: algebra_simps)
  with hi have up: "k * (n mod q) < ?M" by simp
  have dq: "0 \<le> n div q" using n q by (simp add: pos_imp_zdiv_nonneg_iff)
  have "(n div q) * r \<le> n div q * q" using dq r by (intro mult_left_mono) simp_all
  also have "\<dots> \<le> n" using q n by (metis minus_div_mult_eq_mod pos_mod_sign diff_ge_0_iff_ge)
  finally have rr: "(n div q) * r < ?M" using n by simp
  have rr0: "0 \<le> (n div q) * r" using dq r by simp
  have "- ?M < v" "v < ?M" using lo up rr rr0 nm by (simp_all add: v_def)
  moreover have "k * n mod ?M = v mod ?M" unfolding v by (simp add: mod_diff_right_eq [symmetric])
  moreover have "v mod ?M = (v + ?M) mod ?M" by simp
  ultimately show ?thesis by (cases "v < 0") (simp_all only: if_True if_False add_0_right mod_pos_pos_trivial)
qed

lemma m32_mul_const_res:
  assumes m: "k * q + r = 0x7FFFFFFF" and r: "0 \<le> r" "r < q" and q: "0 < q" and k: "0 < k" "k < 0x7FFFFFFF"
  shows "m32_mul_const k q r a = (if arg_ok a then Some (res (nat k * unat a)) else None)"
proof (cases "arg_ok a")
  case True
  then have a: "unat a < P31" by (simp add: arg_ok_unat)
  have sa: "sint a = int (unat a)"
  proof -
    have "int (unat a) < int P31" using a by (simp only: of_nat_less_iff)
    then have "uint a < 2 ^ 63" by (simp add: P31_def)
    moreover have "- (2 ^ 63) \<le> uint a" by (rule order_trans [OF _ uint_nonnegative]) simp
    ultimately have "sint a = uint a" by (simp add: sint_uint signed_take_bit_int_eq_self)
    then show ?thesis by simp
  qed
  let ?v = "k * (int (unat a) - int (unat a) div q * q) - int (unat a) div q * r"
  have "0 \<le> int (unat a)" "int (unat a) < 0x7FFFFFFF" using a unfolding P31_def by linarith+
  from schrage [OF m r q k(1) this]
  have "?v + (if ?v < 0 then 0x7FFFFFFF else 0) = k * int (unat a) mod 0x7FFFFFFF" .
  also have "\<dots> = int (nat k * unat a mod P31)" using k by (simp add: P31_def zmod_int del: of_nat_unat)
  finally have v: "?v + (if ?v < 0 then 0x7FFFFFFF else 0) = int (nat k * unat a mod P31)" .
  have uk: "unat (word_of_int k :: u64) = nat k" using k by (simp add: unsigned_of_int take_bit_int_eq_self)
  then have ok: "arg_ok (word_of_int k)" using k by (simp add: arg_ok_unat P31_def)
  have "m32_mul a (word_of_int k) = Some (res (nat k * unat a))" using True ok uk by (simp add: m32_mul_res mult.commute)
  with True show ?thesis unfolding m32_mul_const_def sa Let_def v by (simp add: res_def)
next
  case False
  then show ?thesis by (simp add: m32_mul_const_def m32_mul_res Let_def)
qed

interpretation m32: mod31 m32_add m32_mul m32_mac m32_mac2 m32_mac3 m32_mac4 m32_mul_x m32_mul_y m32_mac_y
proof unfold_locales
  show x: "m32_mul_x a = (if arg_ok a then Some (res (107374182 * unat a)) else None)" for a
    by (simp add: m32_mul_x_def m32_mul_const_res)
  show y: "m32_mul_y a = (if arg_ok a then Some (res (104480 * unat a)) else None)" for a
    by (simp add: m32_mul_y_def m32_mul_const_res)
  have "arg_ok 104480" by (simp add: arg_ok_def)
  then have m: "m32_mac s a 104480 = (if arg_ok s \<and> arg_ok a then Some (res (104480 * unat a + unat s)) else None)" for s a
    by (simp add: m32_mac_res mult.commute)
  have "res (unat s + 104480 * unat a mod P31) = res (104480 * unat a + unat s)" for s a :: u64
    by (rule res_cong) (simp add: mod_simps add.commute)
  then show "m32_mac_y s a = (if arg_ok s \<and> arg_ok a then Some (res (104480 * unat a + unat s)) else None)" for s a
    by (simp add: m32_mac_y_def y m32_add_res m)
qed (rule m32_add_res m32_mul_res m32_mac_res m32_mac2_res m32_mac3_res m32_mac4_res)+

text \<open>
  C31: The two headers are interchangeable: every operation of \<open>mod_arith_32bit.h\<close>, with its shifts, conditional
  subtractions and Schrage multiplication, returns what the operation of \<open>mod_arith_64bit.h\<close> returns, fails the
  same assertions, and its own additional assertions never fail.
\<close>

theorem mod_arith_headers_agree:
  "m32_add = mod_add \<and> m32_mul = mod_mul \<and> m32_mac = mod_mac \<and> m32_mac2 = mod_mac2 \<and> m32_mac3 = mod_mac3 \<and>
   m32_mac4 = mod_mac4 \<and> m32_mul_x = mod_mul_x \<and> m32_mul_y = mod_mul_y \<and> m32_mac_y = mod_mac_y"
proof (intro conjI ext)
  fix s a b c d e f g h :: u64
  show "m32_add a b = mod_add a b" unfolding m32.add m64.add by (rule refl)
  show "m32_mul a b = mod_mul a b" unfolding m32.mul m64.mul by (rule refl)
  show "m32_mac s a b = mod_mac s a b" unfolding m32.mac m64.mac by (rule refl)
  show "m32_mac2 s a b c d = mod_mac2 s a b c d" unfolding m32.mac2 m64.mac2 by (rule refl)
  show "m32_mac3 s a b c d e f = mod_mac3 s a b c d e f" unfolding m32.mac3 m64.mac3 by (rule refl)
  show "m32_mac4 s a b c d e f g h = mod_mac4 s a b c d e f g h" unfolding m32.mac4 m64.mac4 by (rule refl)
  show "m32_mul_x a = mod_mul_x a" unfolding m32.mul_x m64.mul_x by (rule refl)
  show "m32_mul_y a = mod_mul_y a" unfolding m32.mul_y m64.mul_y by (rule refl)
  show "m32_mac_y s a = mod_mac_y s a" unfolding m32.mac_y m64.mac_y by (rule refl)
qed

end
