(* ===== verification/Mrg.thy ===== *)
theory Mrg
  imports ModArith "HOL-Library.Numeral_Type"
begin

text \<open>
  The splittable random number generator of \<open>sources/graph500/generator/splittable_mrg.c\<close>: five numbers modulo
  \<open>2 ^ 31 - 1\<close>, a linear step, and a skip by up to \<open>2 ^ 192\<close> steps through a table of powers of the step.
  The table \<open>mrg_transitions.c\<close> is the output of \<open>dump_mrg_powers\<close> and is modelled by that function. The
  skip is shown to be the iterated step; seeding (\<open>utils.c\<close>, \<open>prng.c\<close>) always gives a valid state.
\<close>

section \<open>State and transition matrices\<close>

record mrg_state =
  z1 :: u64
  z2 :: u64
  z3 :: u64
  z4 :: u64
  z5 :: u64

record mrg_transition_matrix =
  ms :: u64
  mt :: u64
  mu :: u64
  mv :: u64
  mw :: u64
  ma :: u64
  mb :: u64
  mc :: u64
  md :: u64

definition mrg_update_cache :: "u64 \<Rightarrow> u64 \<Rightarrow> u64 \<Rightarrow> u64 \<Rightarrow> u64 \<Rightarrow> mrg_transition_matrix option" where
  "mrg_update_cache s t u v w = do {
     xs \<leftarrow> mod_mul_x s; a \<leftarrow> mod_add xs t;
     xa \<leftarrow> mod_mul_x a; b \<leftarrow> mod_add xa u;
     xb \<leftarrow> mod_mul_x b; c \<leftarrow> mod_add xb v;
     xc \<leftarrow> mod_mul_x c; d \<leftarrow> mod_add xc w;
     Some \<lparr>ms = s, mt = t, mu = u, mv = v, mw = w, ma = a, mb = b, mc = c, md = d\<rparr> }"

definition mrg_make_identity :: "mrg_transition_matrix option" where
  "mrg_make_identity = mrg_update_cache 0 0 0 0 1"

definition mrg_make_A :: "mrg_transition_matrix option" where
  "mrg_make_A = mrg_update_cache 0 0 0 1 0"

definition mrg_multiply :: "mrg_transition_matrix \<Rightarrow> mrg_transition_matrix \<Rightarrow> mrg_transition_matrix option" where
  "mrg_multiply m n = do {
     rs \<leftarrow> mod_mul (ms m) (md n); rs \<leftarrow> mod_mac rs (mt m) (mc n); rs \<leftarrow> mod_mac rs (mu m) (mb n);
     rs \<leftarrow> mod_mac rs (mv m) (ma n); rs \<leftarrow> mod_mac rs (mw m) (ms n);
     rt \<leftarrow> mod_mul (ms m) (ms n); rt \<leftarrow> mod_mul_y rt; rt \<leftarrow> mod_mac rt (mt m) (mw n);
     rt \<leftarrow> mod_mac rt (mu m) (mv n); rt \<leftarrow> mod_mac rt (mv m) (mu n); rt \<leftarrow> mod_mac rt (mw m) (mt n);
     ru \<leftarrow> mod_mul (ms m) (ma n); ru \<leftarrow> mod_mac ru (mt m) (ms n); ru \<leftarrow> mod_mul_y ru;
     ru \<leftarrow> mod_mac ru (mu m) (mw n); ru \<leftarrow> mod_mac ru (mv m) (mv n); ru \<leftarrow> mod_mac ru (mw m) (mu n);
     rv \<leftarrow> mod_mul (ms m) (mb n); rv \<leftarrow> mod_mac rv (mt m) (ma n); rv \<leftarrow> mod_mac rv (mu m) (ms n);
     rv \<leftarrow> mod_mul_y rv; rv \<leftarrow> mod_mac rv (mv m) (mw n); rv \<leftarrow> mod_mac rv (mw m) (mv n);
     rw \<leftarrow> mod_mul (ms m) (mc n); rw \<leftarrow> mod_mac rw (mt m) (mb n); rw \<leftarrow> mod_mac rw (mu m) (ma n);
     rw \<leftarrow> mod_mac rw (mv m) (ms n); rw \<leftarrow> mod_mul_y rw; rw \<leftarrow> mod_mac rw (mw m) (mw n);
     mrg_update_cache rs rt ru rv rw }"

text \<open>The loop of \<open>mrg_power\<close>.\<close>

fun mrg_power_loop :: "mrg_transition_matrix \<Rightarrow> nat \<Rightarrow> mrg_transition_matrix \<Rightarrow> mrg_transition_matrix option" where
  "mrg_power_loop current_power_of_2 exponent result =
     (if exponent = 0 then Some result
      else do {
        result \<leftarrow> (if exponent mod 2 = 1 then mrg_multiply result current_power_of_2 else Some result);
        current_power_of_2 \<leftarrow> mrg_multiply current_power_of_2 current_power_of_2;
        mrg_power_loop current_power_of_2 (exponent div 2) result })"

declare mrg_power_loop.simps [simp del]

definition mrg_power :: "mrg_transition_matrix \<Rightarrow> nat \<Rightarrow> mrg_transition_matrix option" where
  "mrg_power m exponent = do { result \<leftarrow> mrg_make_identity; mrg_power_loop m exponent result }"

definition mrg_apply_transition :: "mrg_transition_matrix \<Rightarrow> mrg_state \<Rightarrow> mrg_state option" where
  "mrg_apply_transition mat st = do {
     x1 \<leftarrow> mod_mul (md mat) (z1 st);
     y1 \<leftarrow> mod_mac4 0 (ms mat) (z2 st) (ma mat) (z3 st) (mb mat) (z4 st) (mc mat) (z5 st);
     o1 \<leftarrow> mod_mac_y x1 y1;
     x2 \<leftarrow> mod_mac2 0 (mc mat) (z1 st) (mw mat) (z2 st);
     y2 \<leftarrow> mod_mac3 0 (ms mat) (z3 st) (ma mat) (z4 st) (mb mat) (z5 st);
     o2 \<leftarrow> mod_mac_y x2 y2;
     x3 \<leftarrow> mod_mac3 0 (mb mat) (z1 st) (mv mat) (z2 st) (mw mat) (z3 st);
     y3 \<leftarrow> mod_mac2 0 (ms mat) (z4 st) (ma mat) (z5 st);
     o3 \<leftarrow> mod_mac_y x3 y3;
     x4 \<leftarrow> mod_mac4 0 (ma mat) (z1 st) (mu mat) (z2 st) (mv mat) (z3 st) (mw mat) (z4 st);
     y4 \<leftarrow> mod_mul (ms mat) (z5 st);
     o4 \<leftarrow> mod_mac_y x4 y4;
     x5 \<leftarrow> mod_mac3 0 (ms mat) (z1 st) (mt mat) (z2 st) (mu mat) (z3 st);
     o5 \<leftarrow> mod_mac2 x5 (mv mat) (z4 st) (mw mat) (z5 st);
     Some \<lparr>z1 = o1, z2 = o2, z3 = o3, z4 = o4, z5 = o5\<rparr> }"

definition mrg_step :: "mrg_transition_matrix \<Rightarrow> mrg_state \<Rightarrow> mrg_state option" where
  "mrg_step mat st = mrg_apply_transition mat st"

definition mrg_orig_step :: "mrg_state \<Rightarrow> mrg_state option" where
  "mrg_orig_step st = do {
     x \<leftarrow> mod_mul_x (z1 st);
     new_elt \<leftarrow> mod_mac_y x (z5 st);
     Some \<lparr>z1 = new_elt, z2 = z1 st, z3 = z2 st, z4 = z3 st, z5 = z4 st\<rparr> }"

section \<open>The table of powers and the skip\<close>

fun transitions :: "nat \<Rightarrow> mrg_transition_matrix option" where
  "transitions 0 = mrg_make_A"
| "transitions (Suc i) = do { m \<leftarrow> transitions i; mrg_power m 256 }"

text \<open>\<open>mrg_skip_matrices[i][j]\<close> as \<open>dump_mrg_powers\<close> prints it.\<close>

definition mrg_skip_matrices :: "nat \<Rightarrow> nat \<Rightarrow> mrg_transition_matrix option" where
  "mrg_skip_matrices i j =
     (if 24 \<le> i \<or> 256 \<le> j then None
      else if j = 0 then mrg_make_identity
      else if j = 1 then transitions i
      else do { m \<leftarrow> transitions i; mrg_power m j })"

text \<open>\<open>for (byte_index = \<dots>; exponent; ++byte_index, exponent >>= 8)\<close>\<close>

function skip_bytes :: "nat \<Rightarrow> u64 \<Rightarrow> mrg_state \<Rightarrow> mrg_state option" where
  "skip_bytes byte_index exponent st =
     (if exponent = 0 then Some st
      else do {
        let val = exponent AND 0xFF;
        st \<leftarrow> (if val \<noteq> 0 then do { m \<leftarrow> mrg_skip_matrices byte_index (unat val); mrg_step m st } else Some st);
        skip_bytes (byte_index + 1) (drop_bit 8 exponent) st })"
  by pat_completeness auto
termination
proof (relation "measure (\<lambda>(_, e, _). unat e)", goal_cases)
  case (2 byte_index exponent st x xa)
  then have "0 < unat exponent" by (simp add: unat_gt_0)
  then show ?case by (simp add: drop_bit_eq_div unat_div_distrib)
qed simp

declare skip_bytes.simps [simp del]

definition mrg_skip :: "mrg_state \<Rightarrow> u64 \<Rightarrow> u64 \<Rightarrow> u64 \<Rightarrow> mrg_state option" where
  "mrg_skip st exponent_high exponent_middle exponent_low = do {
     st \<leftarrow> skip_bytes 0 exponent_low st;
     st \<leftarrow> skip_bytes 8 exponent_middle st;
     skip_bytes 16 exponent_high st }"

definition mrg_get_uint_orig :: "mrg_state \<Rightarrow> (u64 \<times> mrg_state) option" where
  "mrg_get_uint_orig st = do { st \<leftarrow> mrg_orig_step st; Some (z1 st, st) }"

section \<open>Seeding\<close>

definition mrg_seed :: "u64 list \<Rightarrow> mrg_state option" where
  "mrg_seed seed = do {
     s0 \<leftarrow> aget seed 0; s1 \<leftarrow> aget seed 1; s2 \<leftarrow> aget seed 2; s3 \<leftarrow> aget seed 3; s4 \<leftarrow> aget seed 4;
     Some \<lparr>z1 = s0, z2 = s1, z3 = s2, z4 = s3, z5 = s4\<rparr> }"

text \<open>\<open>make_mrg_seed\<close> of \<open>generator/utils.c\<close>; the parts are computed in 32 bits.\<close>

definition make_mrg_seed :: "u64 \<Rightarrow> u64 \<Rightarrow> u64 list" where
  "make_mrg_seed userseed1 userseed2 =
     [ucast (ucast (userseed1 AND 0x3FFFFFFF) + 1 :: u32),
      ucast (ucast (drop_bit 30 userseed1 AND 0x3FFFFFFF) + 1 :: u32),
      ucast (ucast (userseed2 AND 0x3FFFFFFF) + 1 :: u32),
      ucast (ucast (drop_bit 30 userseed2 AND 0x3FFFFFFF) + 1 :: u32),
      ucast (ucast (push_bit 4 (drop_bit 60 userseed2)) + ucast (drop_bit 60 userseed1) + 1 :: u32)]"

text \<open>\<open>make_mrg_seed\<close> and \<open>init_random\<close> of \<open>prng.c\<close>; the argument is the value of \<open>SEED\<close> in the environment.\<close>

definition prng_make_mrg_seed :: "u64 \<Rightarrow> u64 list" where
  "prng_make_mrg_seed userseed =
     [(userseed AND 0x3FFFFFFF) + 1, (drop_bit 30 userseed AND 0x3FFFFFFF) + 1,
      (userseed AND 0x3FFFFFFF) + 1, (drop_bit 30 userseed AND 0x3FFFFFFF) + 1,
      push_bit 4 (drop_bit 60 userseed) + drop_bit 60 userseed + 1]"

text \<open>\<open>strtol\<close> sets \<open>errno\<close> when the number does not fit in 64 bits; the result is then one of the limits.\<close>

definition strtol_errno :: "string \<Rightarrow> bool" where
  "strtol_errno s = (let (neg, ds, rest) = scan_number s; v = (if neg then - int (digits_val 0 ds) else int (digits_val 0 ds))
     in v < - (2 ^ 63) \<or> 2 ^ 63 - 1 < v)"

definition init_random :: "string option \<Rightarrow> (u64 \<times> u64 list \<times> mrg_state) option" where
  "init_random env = (
     let seed = (case env of None \<Rightarrow> - 1 | Some s \<Rightarrow> if strtol_errno s then - 1 else strtol10 s);
         seed = (if seed < 0 then 0xDECAFBAD else seed);
         userseed = word_of_int seed; prng_seed = prng_make_mrg_seed userseed
     in do { st \<leftarrow> mrg_seed prng_seed; Some (userseed, prng_seed, st) })"

section \<open>The field of residues\<close>

text \<open>The residues as a ring, so that the matrix identities are identities of polynomials.\<close>

type_synonym F = "2147483647"

definition fval :: "u64 \<Rightarrow> F" where "fval w = unsigned w"

lemma fval_nat: "fval w = of_nat (unat w)"
  by (simp add: fval_def)

definition FX :: F where "FX = 107374182"
definition FY :: F where "FY = 104480"

lemma of_nat_P31: "of_nat P31 = (0 :: F)"
  by (simp add: P31_def)

lemma of_nat_mod_P31: "of_nat (n mod P31) = (of_nat n :: F)"
proof -
  have "(of_nat n :: F) = of_nat (n div P31 * P31 + n mod P31)" by simp
  also have "\<dots> = of_nat (n mod P31)" unfolding of_nat_add of_nat_mult of_nat_P31 by simp
  finally show ?thesis by simp
qed

lemma fval_res [simp]: "fval (res n) = of_nat n"
  by (simp only: fval_nat unat_res of_nat_mod_P31)

lemma of_nat_F_inj: "of_nat x = (of_nat y :: F) \<Longrightarrow> x \<le> y \<Longrightarrow> y < P31 \<Longrightarrow> x = y"
proof -
  assume e: "of_nat x = (of_nat y :: F)" and le: "x \<le> y" "y < P31"
  have "of_nat (y - x) = (0 :: F)" using e le by (simp add: of_nat_diff)
  then have "P31 dvd y - x" by (simp add: of_nat_eq_0_iff_char_dvd P31_def)
  then have "y - x = 0" using le by (metis dvd_imp_le less_imp_diff_less not_less zero_less_iff_neq_zero)
  with le show ?thesis by simp
qed

lemma fval_inject: "arg_ok a \<Longrightarrow> arg_ok b \<Longrightarrow> fval a = fval b \<Longrightarrow> a = b"
  unfolding arg_ok_unat fval_nat word_unat_eq_iff
  using of_nat_F_inj [of "unat a" "unat b"] of_nat_F_inj [of "unat b" "unat a"] by (metis linorder_linear)

lemma fval_01 [simp]: "fval 0 = 0" "fval 1 = 1"
  by (simp_all add: fval_def)

lemma arg_ok_01 [simp]: "arg_ok 0" "arg_ok 1"
  by (simp_all add: arg_ok_def)

lemma fold_fval: "(unsigned a :: F) = fval a"
  by (simp add: fval_def)

lemmas m64_laws = m64.add m64.mul m64.mac m64.mac2 m64.mac3 m64.mac4 m64.mul_x m64.mul_y m64.mac_y

section \<open>One step\<close>

definition state_ok :: "mrg_state \<Rightarrow> bool" where
  "state_ok st \<longleftrightarrow> arg_ok (z1 st) \<and> arg_ok (z2 st) \<and> arg_ok (z3 st) \<and> arg_ok (z4 st) \<and> arg_ok (z5 st)"

definition next_state :: "mrg_state \<Rightarrow> mrg_state" where
  "next_state st = \<lparr>z1 = res (107374182 * unat (z1 st) + 104480 * unat (z5 st)), z2 = z1 st, z3 = z2 st, z4 = z3 st, z5 = z4 st\<rparr>"

lemma next_state_simps [simp]:
  "fval (z1 (next_state st)) = FX * fval (z1 st) + FY * fval (z5 st)" "z2 (next_state st) = z1 st" "z3 (next_state st) = z2 st"
  "z4 (next_state st) = z3 st" "z5 (next_state st) = z4 st"
  by (simp_all add: next_state_def FX_def FY_def fold_fval)

lemma next_state_ok [simp]: "state_ok st \<Longrightarrow> state_ok (next_state st)"
  by (simp add: state_ok_def next_state_def)

lemma iter_ok [simp]: "state_ok st \<Longrightarrow> state_ok ((next_state ^^ n) st)"
  by (induction n) simp_all

lemma mrg_orig_step_ok: "state_ok st \<Longrightarrow> mrg_orig_step st = Some (next_state st)"
  by (auto simp: mrg_orig_step_def next_state_def state_ok_def m64_laws mod_simps add.commute intro!: res_cong)

text \<open>States are equal if their residues are.\<close>

lemma state_eqI:
  assumes "state_ok s" "state_ok s'" "fval (z1 s) = fval (z1 s')" "fval (z2 s) = fval (z2 s')" "fval (z3 s) = fval (z3 s')"
    "fval (z4 s) = fval (z4 s')" "fval (z5 s) = fval (z5 s')"
  shows "s = (s' :: mrg_state)"
  using assms by (auto simp: state_ok_def intro!: mrg_state.equality fval_inject)

section \<open>Applying a matrix\<close>

definition mat_ok :: "mrg_transition_matrix \<Rightarrow> bool" where
  "mat_ok m \<longleftrightarrow> arg_ok (ms m) \<and> arg_ok (mt m) \<and> arg_ok (mu m) \<and> arg_ok (mv m) \<and> arg_ok (mw m) \<and>
     arg_ok (ma m) \<and> arg_ok (mb m) \<and> arg_ok (mc m) \<and> arg_ok (md m) \<and>
     fval (ma m) = FX * fval (ms m) + fval (mt m) \<and> fval (mb m) = FX * fval (ma m) + fval (mu m) \<and>
     fval (mc m) = FX * fval (mb m) + fval (mv m) \<and> fval (md m) = FX * fval (mc m) + fval (mw m)"

text \<open>The last row times a state.\<close>

definition bottom :: "mrg_transition_matrix \<Rightarrow> mrg_state \<Rightarrow> F" where
  "bottom m st = fval (ms m) * fval (z1 st) + fval (mt m) * fval (z2 st) + fval (mu m) * fval (z3 st) +
     fval (mv m) * fval (z4 st) + fval (mw m) * fval (z5 st)"

lemma apply_bottom:
  assumes m: "mat_ok m" and st: "state_ok st"
  shows "\<exists>r. mrg_apply_transition m st = Some r \<and> state_ok r \<and> fval (z5 r) = bottom m st \<and>
    fval (z4 r) = bottom m (next_state st) \<and> fval (z3 r) = bottom m (next_state (next_state st)) \<and>
    fval (z2 r) = bottom m (next_state (next_state (next_state st))) \<and>
    fval (z1 r) = bottom m (next_state (next_state (next_state (next_state st))))"
proof -
  have ok: "arg_ok (ms m)" "arg_ok (mt m)" "arg_ok (mu m)" "arg_ok (mv m)" "arg_ok (mw m)" "arg_ok (ma m)" "arg_ok (mb m)"
    "arg_ok (mc m)" "arg_ok (md m)" "arg_ok (z1 st)" "arg_ok (z2 st)" "arg_ok (z3 st)" "arg_ok (z4 st)" "arg_ok (z5 st)"
    using m st by (simp_all add: mat_ok_def state_ok_def)
  have c: "fval (ma m) = FX * fval (ms m) + fval (mt m)" "fval (mb m) = FX * fval (ma m) + fval (mu m)"
    "fval (mc m) = FX * fval (mb m) + fval (mv m)" "fval (md m) = FX * fval (mc m) + fval (mw m)"
    using m by (simp_all add: mat_ok_def)
  show ?thesis
    unfolding mrg_apply_transition_def m64_laws
    by (simp add: ok state_ok_def bottom_def fold_fval FY_def [symmetric] of_nat_mod_P31) (simp add: c algebra_simps)
qed

section \<open>Matrices that stand for a number of steps\<close>

definition steps :: "mrg_transition_matrix \<Rightarrow> nat \<Rightarrow> bool" where
  "steps m n \<longleftrightarrow> mat_ok m \<and> (\<forall>st. state_ok st \<longrightarrow> bottom m st = fval (z5 ((next_state ^^ n) st)))"

lemma steps_apply:
  assumes m: "steps m n" and st: "state_ok st"
  shows "mrg_apply_transition m st = Some ((next_state ^^ n) st)"
proof -
  let ?y = "(next_state ^^ n) st"
  from m have ok: "mat_ok m" by (simp add: steps_def)
  have b: "bottom m (next_state s) = fval (z4 ((next_state ^^ n) s))" if "state_ok s" for s
    using m that by (simp add: steps_def flip: funpow_swap1)
  obtain r where r: "mrg_apply_transition m st = Some r" "state_ok r" "fval (z5 r) = bottom m st"
    "fval (z4 r) = bottom m (next_state st)" "fval (z3 r) = bottom m (next_state (next_state st))"
    "fval (z2 r) = bottom m (next_state (next_state (next_state st)))"
    "fval (z1 r) = bottom m (next_state (next_state (next_state (next_state st))))"
    using apply_bottom [OF ok st] by blast
  have "r = ?y"
  proof (rule state_eqI [OF r(2)])
    show "fval (z5 r) = fval (z5 ?y)" using r(3) m st by (simp add: steps_def)
  qed (use r b st in \<open>simp_all flip: funpow_swap1\<close>)
  with r(1) show ?thesis by simp
qed

lemma update_cache_ok:
  assumes "arg_ok s" "arg_ok t" "arg_ok u" "arg_ok v" "arg_ok w"
  shows "\<exists>m. mrg_update_cache s t u v w = Some m \<and> mat_ok m \<and> ms m = s \<and> mt m = t \<and> mu m = u \<and> mv m = v \<and> mw m = w"
proof -
  define a where "a = res (unat (res (107374182 * unat s)) + unat t)"
  define b where "b = res (unat (res (107374182 * unat a)) + unat u)"
  define c where "c = res (unat (res (107374182 * unat b)) + unat v)"
  define d where "d = res (unat (res (107374182 * unat c)) + unat w)"
  have ok: "arg_ok a" "arg_ok b" "arg_ok c" "arg_ok d" by (simp_all add: a_def b_def c_def d_def)
  have "fval a = FX * fval s + fval t" "fval b = FX * fval a + fval u" "fval c = FX * fval b + fval v" "fval d = FX * fval c + fval w"
    unfolding a_def b_def c_def d_def by (simp_all add: fold_fval FX_def [symmetric] of_nat_mod_P31)
  moreover have "mrg_update_cache s t u v w = Some \<lparr>ms = s, mt = t, mu = u, mv = v, mw = w, ma = a, mb = b, mc = c, md = d\<rparr>"
    unfolding mrg_update_cache_def m64_laws
    by (simp add: assms ok flip: a_def b_def c_def d_def del: unat_res cong: bind_weak_cong)
  ultimately show ?thesis using assms ok by (simp add: mat_ok_def)
qed

lemma identity_steps: "\<exists>m. mrg_make_identity = Some m \<and> steps m 0"
  using update_cache_ok [of 0 0 0 0 1] by (auto simp: mrg_make_identity_def steps_def bottom_def)

lemma A_steps: "\<exists>m. mrg_make_A = Some m \<and> steps m 1"
  using update_cache_ok [of 0 0 0 1 0] by (auto simp: mrg_make_A_def steps_def bottom_def)

lemma multiply_bottom:
  assumes m: "mat_ok m" and n: "mat_ok n"
  shows "\<exists>r. mrg_multiply m n = Some r \<and> mat_ok r \<and> (\<forall>st. bottom r st =
    fval (ms m) * bottom n (next_state (next_state (next_state (next_state st)))) +
    fval (mt m) * bottom n (next_state (next_state (next_state st))) +
    fval (mu m) * bottom n (next_state (next_state st)) +
    fval (mv m) * bottom n (next_state st) + fval (mw m) * bottom n st)"
proof -
  have ok: "arg_ok (ms m)" "arg_ok (mt m)" "arg_ok (mu m)" "arg_ok (mv m)" "arg_ok (mw m)"
    "arg_ok (ms n)" "arg_ok (mt n)" "arg_ok (mu n)" "arg_ok (mv n)" "arg_ok (mw n)" "arg_ok (ma n)" "arg_ok (mb n)"
    "arg_ok (mc n)" "arg_ok (md n)"
    using m n by (simp_all add: mat_ok_def)
  have c: "fval (ma n) = FX * fval (ms n) + fval (mt n)" "fval (mb n) = FX * fval (ma n) + fval (mu n)"
    "fval (mc n) = FX * fval (mb n) + fval (mv n)" "fval (md n) = FX * fval (mc n) + fval (mw n)"
    using n by (simp_all add: mat_ok_def)
  obtain rs rt ru rv rw where
    e: "mrg_multiply m n = mrg_update_cache rs rt ru rv rw" and o: "arg_ok rs" "arg_ok rt" "arg_ok ru" "arg_ok rv" "arg_ok rw"
    and f: "fval rs = fval (ms m) * fval (md n) + fval (mt m) * fval (mc n) + fval (mu m) * fval (mb n) + fval (mv m) * fval (ma n) + fval (mw m) * fval (ms n)"
      "fval rt = FY * (fval (ms m) * fval (ms n)) + fval (mt m) * fval (mw n) + fval (mu m) * fval (mv n) + fval (mv m) * fval (mu n) + fval (mw m) * fval (mt n)"
      "fval ru = FY * (fval (ms m) * fval (ma n) + fval (mt m) * fval (ms n)) + fval (mu m) * fval (mw n) + fval (mv m) * fval (mv n) + fval (mw m) * fval (mu n)"
      "fval rv = FY * (fval (ms m) * fval (mb n) + fval (mt m) * fval (ma n) + fval (mu m) * fval (ms n)) + fval (mv m) * fval (mw n) + fval (mw m) * fval (mv n)"
      "fval rw = FY * (fval (ms m) * fval (mc n) + fval (mt m) * fval (mb n) + fval (mu m) * fval (ma n) + fval (mv m) * fval (ms n)) + fval (mw m) * fval (mw n)"
    unfolding mrg_multiply_def m64_laws
    by (simp add: ok fold_fval FY_def [symmetric] of_nat_mod_P31 algebra_simps)
  obtain r where r: "mrg_update_cache rs rt ru rv rw = Some r" "mat_ok r" "ms r = rs" "mt r = rt" "mu r = ru" "mv r = rv" "mw r = rw"
    using update_cache_ok [OF o] by blast
  have "bottom r st = fval (ms m) * bottom n (next_state (next_state (next_state (next_state st)))) +
    fval (mt m) * bottom n (next_state (next_state (next_state st))) + fval (mu m) * bottom n (next_state (next_state st)) +
    fval (mv m) * bottom n (next_state st) + fval (mw m) * bottom n st" for st
    unfolding bottom_def r f c by (simp add: algebra_simps)
  with e r show ?thesis by auto
qed

lemma multiply_steps:
  assumes m: "steps m i" and n: "steps n j"
  shows "\<exists>r. mrg_multiply m n = Some r \<and> steps r (i + j)"
proof -
  have mo: "mat_ok m" and no: "mat_ok n" using m n by (simp_all add: steps_def)
  obtain r where r: "mrg_multiply m n = Some r" "mat_ok r" "\<And>st. bottom r st =
    fval (ms m) * bottom n (next_state (next_state (next_state (next_state st)))) +
    fval (mt m) * bottom n (next_state (next_state (next_state st))) +
    fval (mu m) * bottom n (next_state (next_state st)) + fval (mv m) * bottom n (next_state st) + fval (mw m) * bottom n st"
    using multiply_bottom [OF mo no] by blast
  have "bottom r st = fval (z5 ((next_state ^^ (i + j)) st))" if st: "state_ok st" for st
  proof -
    let ?y = "(next_state ^^ j) st"
    have y: "(next_state ^^ j) (next_state s) = next_state ((next_state ^^ j) s)" for s by (simp add: funpow_swap1)
    have "bottom n s = fval (z5 ((next_state ^^ j) s))" if "state_ok s" for s using n that by (simp add: steps_def)
    then have "bottom r st = bottom m ?y" unfolding r(3) bottom_def [of m] using st by (simp add: y)
    also have "\<dots> = fval (z5 ((next_state ^^ i) ?y))" using m st by (simp add: steps_def)
    finally show ?thesis by (simp add: funpow_add)
  qed
  with r show ?thesis by (auto simp: steps_def)
qed

lemma power_loop_steps:
  "steps c k \<Longrightarrow> steps r i \<Longrightarrow> \<exists>m. mrg_power_loop c e r = Some m \<and> steps m (i + k * e)"
proof (induction e arbitrary: c k r i rule: less_induct)
  case (less e)
  show ?case
  proof (cases "e = 0")
    case True
    with less.prems show ?thesis by (simp add: mrg_power_loop.simps)
  next
    case False
    obtain r' where r': "(if e mod 2 = 1 then mrg_multiply r c else Some r) = Some r'" "steps r' (i + k * (e mod 2))"
      using multiply_steps [OF less.prems(2,1)] less.prems by (cases "e mod 2 = 1") auto
    obtain c' where c': "mrg_multiply c c = Some c'" "steps c' (k + k)" using multiply_steps [OF less.prems(1,1)] by blast
    have "e div 2 < e" using False by simp
    from less.IH [OF this c'(2) r'(2)] obtain m where
      m: "mrg_power_loop c' (e div 2) r' = Some m" "steps m (i + k * (e mod 2) + (k + k) * (e div 2))" by blast
    have "i + k * (e mod 2) + (k + k) * (e div 2) = i + k * e"
    proof -
      have "k * e = k * (2 * (e div 2) + e mod 2)" by simp
      also have "\<dots> = k * (e mod 2) + (k + k) * (e div 2)" by (simp only: add_mult_distrib add_mult_distrib2 mult_2 add.commute)
      finally show ?thesis by simp
    qed
    with m show ?thesis using False r'(1) c'(1) by (subst mrg_power_loop.simps) simp
  qed
qed

lemma power_steps: "steps m k \<Longrightarrow> \<exists>r. mrg_power m e = Some r \<and> steps r (k * e)"
proof -
  assume m: "steps m k"
  obtain r where r: "mrg_make_identity = Some r" "steps r 0" using identity_steps by blast
  from power_loop_steps [OF m r(2), of e] show ?thesis unfolding mrg_power_def r(1) by simp
qed

lemma transitions_steps: "\<exists>m. transitions i = Some m \<and> steps m (256 ^ i)"
proof (induction i)
  case 0
  then show ?case using A_steps by simp
next
  case (Suc i)
  then obtain m where "transitions i = Some m" "steps m (256 ^ i)" by blast
  with power_steps [of m "256 ^ i" 256] show ?case by (simp add: mult.commute)
qed

lemma skip_matrices_steps:
  assumes "i < 24" "j < 256"
  shows "\<exists>m. mrg_skip_matrices i j = Some m \<and> steps m (j * 256 ^ i)"
proof -
  obtain t where t: "transitions i = Some t" "steps t (256 ^ i)" using transitions_steps by blast
  consider "j = 0" | "j = 1" | "1 < j" by linarith
  then show ?thesis
  proof cases
    case 1
    then show ?thesis using identity_steps assms by (simp add: mrg_skip_matrices_def)
  next
    case 2
    then show ?thesis using t assms by (simp add: mrg_skip_matrices_def)
  next
    case 3
    then show ?thesis using power_steps [OF t(2), of j] t(1) assms by (simp add: mrg_skip_matrices_def mult.commute)
  qed
qed

section \<open>The skip\<close>

lemma skip_bytes_steps:
  "state_ok st \<Longrightarrow> i \<le> 24 \<Longrightarrow> unat e < 256 ^ (24 - i) \<Longrightarrow> skip_bytes i e st = Some ((next_state ^^ (unat e * 256 ^ i)) st)"
proof (induction i e st rule: skip_bytes.induct)
  case (1 i e st)
  show ?case
  proof (cases "e = 0")
    case True
    then show ?thesis by (simp add: skip_bytes.simps)
  next
    case False
    then have i: "i < 24" using "1.prems" by (cases "i = 24") (auto simp: unat_eq_0)
    let ?v = "e AND 0xFF"
    have v: "unat ?v = unat e mod 256" "unat ?v < 256"
    proof -
      have "?v = take_bit 8 e" by (simp add: take_bit_eq_mask mask_eq_exp_minus_1)
      then show "unat ?v = unat e mod 256" by (simp add: unsigned_take_bit_eq take_bit_eq_mod unat_mod_distrib)
      then show "unat ?v < 256" by simp
    qed
    have d: "unat (drop_bit 8 e) = unat e div 256" by (simp add: drop_bit_eq_div unat_div_distrib)
    let ?s = "(next_state ^^ (unat ?v * 256 ^ i)) st"
    have s: "(if ?v \<noteq> 0 then do { m \<leftarrow> mrg_skip_matrices i (unat ?v); mrg_step m st } else Some st) = Some ?s"
      using skip_matrices_steps [OF i v(2)] steps_apply "1.prems"(1) by (auto simp: mrg_step_def)
    have "unat e div 256 < 256 ^ (24 - (i + 1))"
      using "1.prems"(3) i by (simp add: div_less_iff_less_mult flip: power_Suc2 Suc_diff_Suc)
    then have "skip_bytes (i + 1) (drop_bit 8 e) ?s = Some ((next_state ^^ (unat e div 256 * 256 ^ (i + 1))) ?s)"
      using "1.IH" [OF False refl s] "1.prems" i d by simp
    moreover have "unat e div 256 * 256 ^ (i + 1) + unat ?v * 256 ^ i = unat e * 256 ^ i"
    proof -
      have "unat e div 256 * 256 ^ (i + 1) + unat e mod 256 * 256 ^ i = (unat e div 256 * 256 + unat e mod 256) * 256 ^ i"
        by (simp only: add_mult_distrib add_mult_distrib2 power_add power_one_right mult.commute mult.assoc mult.left_commute)
      then show ?thesis unfolding v(1) by (simp only: div_mult_mod_eq)
    qed
    moreover have "skip_bytes i e st = skip_bytes (i + 1) (drop_bit 8 e) ?s"
      using False by (subst skip_bytes.simps) (simp only: Let_def s if_False bind.bind_lunit)
    ultimately show ?thesis by (metis comp_apply funpow_add)
  qed
qed

lemma mrg_skip_steps:
  assumes "state_ok st"
  shows "mrg_skip st h m l = Some ((next_state ^^ (unat h * 2 ^ 128 + unat m * 2 ^ 64 + unat l)) st)"
proof -
  have u: "unat (e :: u64) < 256 ^ 8" for e using unsigned_less [of e, where 'a = nat] by simp
  have "mrg_skip st h m l = Some ((next_state ^^ (unat h * 256 ^ 16)) ((next_state ^^ (unat m * 256 ^ 8)) ((next_state ^^ unat l) st)))"
    using skip_bytes_steps [of st 0 l] skip_bytes_steps [of _ 8 m] skip_bytes_steps [of _ 16 h] u [of l] u [of m] u [of h] assms
    by (simp add: mrg_skip_def)
  also have "\<dots> = Some ((next_state ^^ (unat h * 2 ^ 128 + unat m * 2 ^ 64 + unat l)) st)"
    by (simp add: funpow_add add.assoc)
  finally show ?thesis .
qed

text \<open>
  C32: Skipping is stepping. From any valid state, \<open>mrg_skip\<close> with the three 64-bit words of an exponent returns the
  state that the one-step function reaches after that many steps, up to \<open>2 ^ 192 - 1\<close> of them: the table
  of powers, the matrix products with their cached entries and the byte loops compute the right power.
\<close>

theorem mrg_skip_is_iterated_step:
  assumes "state_ok st"
  shows "mrg_skip st h m l = ((\<lambda>r. r \<bind> mrg_orig_step) ^^ (unat h * 2 ^ 128 + unat m * 2 ^ 64 + unat l)) (Some st)"
proof -
  have it: "((\<lambda>r. r \<bind> mrg_orig_step) ^^ n) (Some st) = Some ((next_state ^^ n) st)" for n
    using assms by (induction n) (simp_all add: mrg_orig_step_ok)
  show ?thesis by (simp only: it mrg_skip_steps [OF assms])
qed

theorem mrg_skip_is_iterated_step_witness:
  "state_ok \<lparr>z1 = 1, z2 = 2, z3 = 3, z4 = 4, z5 = 5\<rparr> \<and>
   mrg_skip \<lparr>z1 = 1, z2 = 2, z3 = 3, z4 = 4, z5 = 5\<rparr> 0 0 2 =
     mrg_orig_step \<lparr>z1 = 1, z2 = 2, z3 = 3, z4 = 4, z5 = 5\<rparr> \<bind> mrg_orig_step"
proof -
  have ok: "state_ok \<lparr>z1 = 1, z2 = 2, z3 = 3, z4 = 4, z5 = 5\<rparr>" by (simp add: state_ok_def arg_ok_def)
  have "unat (0 :: u64) * 2 ^ 128 + unat (0 :: u64) * 2 ^ 64 + unat (2 :: u64) = Suc (Suc 0)" by simp
  from mrg_skip_is_iterated_step [OF ok, of 0 0 2, unfolded this] ok show ?thesis by simp
qed

section \<open>Seeds\<close>

lemma low30: "unat ((w :: u64) AND 0x3FFFFFFF) < 2 ^ 30"
proof -
  have "w AND 0x3FFFFFFF = take_bit 30 w" by (simp add: take_bit_eq_mask mask_eq_exp_minus_1)
  then show ?thesis using take_bit_nat_less_exp [of 30 "unat w"] by (simp add: unsigned_take_bit_eq)
qed

lemma top4: "unat (drop_bit 60 (w :: u64)) < 16"
  using unsigned_less [of w, where 'a = nat] by (simp add: drop_bit_eq_div unat_div_distrib)

text \<open>A seed value and its successor, kept in 32 bits or not.\<close>

lemma seed_word:
  assumes "unat (x :: u64) < 2 ^ 30"
  shows "ucast (ucast x + 1 :: u32) = x + 1" and "unat (x + 1) = Suc (unat x)"
proof -
  have "unat (ucast x :: u32) = unat x" using assms by (simp add: unsigned_ucast_eq take_bit_nat_eq_self)
  then have "unat (ucast x + 1 :: u32) = Suc (unat x)" using assms by (simp add: unat_word_ariths)
  moreover show u: "unat (x + 1) = Suc (unat x)" using assms by (simp add: unat_word_ariths)
  ultimately have "unat (ucast (ucast x + 1 :: u32) :: u64) = unat (x + 1)"
    using assms by (simp add: unsigned_ucast_eq take_bit_nat_eq_self)
  then show "ucast (ucast x + 1 :: u32) = x + 1" by (simp add: word_unat_eq_iff)
qed

lemma seed_sum:
  assumes "unat (a :: u64) < 16" "unat (b :: u64) < 16"
  shows "unat (ucast (ucast (push_bit 4 a) + ucast b + 1 :: u32) :: u64) = 16 * unat a + unat b + 1"
    and "unat (push_bit 4 a + b + 1) = 16 * unat a + unat b + 1"
proof -
  have p: "unat (push_bit 4 a) = 16 * unat a" using assms by (simp add: push_bit_eq_mult unat_word_ariths)
  have "unat (ucast (push_bit 4 a) :: u32) = 16 * unat a" "unat (ucast b :: u32) = unat b"
    using assms p by (simp_all add: unsigned_ucast_eq take_bit_nat_eq_self)
  then have "unat (ucast (push_bit 4 a) + ucast b + 1 :: u32) = 16 * unat a + unat b + 1"
    using assms by (simp add: unat_word_ariths)
  then show "unat (ucast (ucast (push_bit 4 a) + ucast b + 1 :: u32) :: u64) = 16 * unat a + unat b + 1"
    using assms by (simp add: unsigned_ucast_eq take_bit_nat_eq_self)
  show "unat (push_bit 4 a + b + 1) = 16 * unat a + unat b + 1" using assms p by (simp add: unat_word_ariths)
qed

definition seed_range :: "u64 list \<Rightarrow> bool" where
  "seed_range sd \<longleftrightarrow> length sd = 5 \<and> (\<forall>z\<in>set sd. 1 \<le> unat z \<and> unat z \<le> 2 ^ 30)"

lemma seed_range_state: "seed_range sd \<Longrightarrow> \<exists>st. mrg_seed sd = Some st \<and> state_ok st"
proof -
  assume r: "seed_range sd"
  have ok: "arg_ok (sd ! i)" if "i < 5" for i
  proof -
    have "unat (sd ! i) \<le> 2 ^ 30" using r that by (simp add: seed_range_def)
    then show ?thesis by (simp add: arg_ok_unat P31_def)
  qed
  show ?thesis using r ok [of 0] ok [of 1] ok [of 2] ok [of 3] ok [of 4] by (simp add: seed_range_def mrg_seed_def state_ok_def)
qed

lemma make_mrg_seed_range: "seed_range (make_mrg_seed u1 u2)"
proof -
  note s = seed_word [OF low30]
  note l = low30 [of u1] low30 [of u2] low30 [of "drop_bit 30 u1"] low30 [of "drop_bit 30 u2"]
  have "unat (ucast (ucast (push_bit 4 (drop_bit 60 u2)) + ucast (drop_bit 60 u1) + 1 :: u32) :: u64) \<le> 2 ^ 30"
    "1 \<le> unat (ucast (ucast (push_bit 4 (drop_bit 60 u2)) + ucast (drop_bit 60 u1) + 1 :: u32) :: u64)"
    using seed_sum(1) [OF top4 top4, of u2 u1] top4 [of u1] top4 [of u2] by simp_all
  then show ?thesis using l unfolding seed_range_def make_mrg_seed_def s(1) by (simp add: s(2))
qed

lemma prng_make_mrg_seed_range: "seed_range (prng_make_mrg_seed u)"
proof -
  note s = seed_word [OF low30]
  have "unat (push_bit 4 (drop_bit 60 u) + drop_bit 60 u + 1) \<le> 2 ^ 30" "1 \<le> unat (push_bit 4 (drop_bit 60 u) + drop_bit 60 u + 1)"
    using seed_sum(2) [OF top4 top4, of u u] top4 [of u] by simp_all
  then show ?thesis using low30 [of u] low30 [of "drop_bit 30 u"] unfolding seed_range_def prng_make_mrg_seed_def by (simp add: s(2))
qed


end
