(* ===== verification/BfsVerify.thy ===== *)
theory BfsVerify
  imports Prelude
begin

text \<open>
  The BFS validation of \<open>sources/graph500/verify.c\<close> and the packed edges of
  \<open>sources/graph500/generator/graph_generator.h\<close>. A failed \<open>assert\<close> and an access outside of an array are \<open>None\<close>,
  an error code is a value. Arrays of \<open>int64_t\<close> are lists of \<open>int\<close>: levels, hop counts and vertices stay below
  \<open>2 ^ 33\<close>. The main result is that an accepted tree is a breadth-first tree of the component of the root.
\<close>

section \<open>Edges\<close>

record packed_edge =
  v0 :: u32
  v1 :: u32

definition get_v0_from_edge :: "packed_edge \<Rightarrow> int" where
  "get_v0_from_edge p = uint (v0 p)"

definition get_v1_from_edge :: "packed_edge \<Rightarrow> int" where
  "get_v1_from_edge p = uint (v1 p)"

definition write_edge :: "int \<Rightarrow> int \<Rightarrow> packed_edge" where
  "write_edge a b = \<lparr>v0 = word_of_int a, v1 = word_of_int b\<rparr>"

text \<open>Arrays indexed by an \<open>int64_t\<close>.\<close>

definition geti :: "'a list \<Rightarrow> int \<Rightarrow> 'a option" where
  "geti xs i = (if 0 \<le> i then aget xs (nat i) else None)"

definition seti :: "'a list \<Rightarrow> int \<Rightarrow> 'a \<Rightarrow> 'a list option" where
  "seti xs i v = (if 0 \<le> i then aset xs (nat i) v else None)"

section \<open>Levels\<close>

function climb :: "int list \<Rightarrow> int list \<Rightarrow> int \<Rightarrow> int \<Rightarrow> int \<Rightarrow> (int \<times> int) option" where
  "climb tree level nv parent nhop =
     (if 0 \<le> parent then do {
        l \<leftarrow> geti level parent;
        if l < 0 \<and> nhop < nv then do {
          t \<leftarrow> geti tree parent;
          if parent = t then None else climb tree level nv t (nhop + 1) }
        else Some (parent, nhop) }
      else Some (parent, nhop))"
  by pat_completeness auto
termination by (relation "measure (\<lambda>(_, _, nv, _, nhop). nat (nv - nhop))") auto

function assign :: "int list \<Rightarrow> int list \<Rightarrow> int \<Rightarrow> int \<Rightarrow> (int list \<times> int \<times> int) option" where
  "assign tree level parent nhop = do {
     l \<leftarrow> geti level parent;
     if l < 0 then
       (if 0 < nhop then do {
          level \<leftarrow> seti level parent nhop;
          parent \<leftarrow> geti tree parent;
          assign tree level parent (nhop - 1) }
        else None)
     else Some (level, parent, nhop) }"
  by pat_completeness auto
termination by (relation "measure (\<lambda>(_, _, _, nhop). nat nhop)") auto

function recheck :: "int list \<Rightarrow> int list \<Rightarrow> int \<Rightarrow> int \<Rightarrow> unit option" where
  "recheck tree level parent lastlvl = do {
     l \<leftarrow> geti level parent;
     if 0 < l then
       (if lastlvl = 1 + l then do { parent \<leftarrow> geti tree parent; recheck tree level parent l } else None)
     else Some () }"
  by pat_completeness auto
termination by (relation "measure (\<lambda>(_, _, _, lastlvl). nat lastlvl)") auto

declare climb.simps [simp del] assign.simps [simp del] recheck.simps [simp del]

definition level_vertex :: "int list \<Rightarrow> int \<Rightarrow> int \<Rightarrow> int list \<Rightarrow> (int \<times> int list) option" where
  "level_vertex tree nv k level = do {
     (parent, nhop) \<leftarrow> climb tree level nv k 0;
     let terr = (if nv \<le> nhop then - 1 else 0);
     let terr = (if parent < 0 then - 2 else terr);
     if terr = 0 then do {
       l \<leftarrow> geti level parent;
       (level, parent, nhop) \<leftarrow> assign tree level k (nhop + l);
       l \<leftarrow> geti level parent;
       if nhop \<noteq> l then None else do {
       lk \<leftarrow> geti level k;
       recheck tree level k (lk + 1);
       Some (terr, level) } }
     else Some (terr, level) }"

definition level_step :: "int list \<Rightarrow> int \<Rightarrow> int \<Rightarrow> nat \<Rightarrow> int \<times> int list \<Rightarrow> (int \<times> int list) option" where
  "level_step tree nv root k = (\<lambda>(err, level). do {
     l \<leftarrow> aget level k;
     if 0 \<le> l \<or> err \<noteq> 0 then Some (err, level) else do {
       t \<leftarrow> aget tree k;
       if 0 \<le> t \<and> int k \<noteq> root then level_vertex tree nv (int k) level
       else Some (err, level) } })"

definition compute_levels :: "int list \<Rightarrow> int \<Rightarrow> int list \<Rightarrow> int \<Rightarrow> (int \<times> int list) option" where
  "compute_levels level nv tree root = do {
     level \<leftarrow> for_up 0 (nat nv) (\<lambda>k level. aset level k (if int k = root then 0 else - 1)) level;
     for_up 0 (nat nv) (level_step tree nv root) (0, level) }"

section \<open>The edges\<close>

record vstate =
  verr :: int
  vterr :: int
  traversed :: int
  seen :: "int list"

definition mark_seen :: "int list \<Rightarrow> int \<Rightarrow> int \<Rightarrow> int list \<Rightarrow> int list option" where
  "mark_seen tree i j sn = do {
     ti \<leftarrow> geti tree i;
     tj \<leftarrow> geti tree j;
     if i \<noteq> j then do {
       sn \<leftarrow> (if ti = j then seti sn i 1 else Some sn);
       (if tj = i then seti sn j 1 else Some sn) }
     else Some sn }"

text \<open>The two groups of tests on the end points, and \<open>if (terr) { err = terr; }\<close>.\<close>

definition range_terr :: "int \<Rightarrow> int \<Rightarrow> int \<Rightarrow> int \<Rightarrow> int" where
  "range_terr mx i j terr =
     (let terr = (if mx < i \<and> j \<le> mx then - 10 else terr) in
      if mx < j \<and> i \<le> mx then - 11 else terr)"

definition tree_terr :: "int \<Rightarrow> int \<Rightarrow> int \<Rightarrow> int" where
  "tree_terr ti tj terr =
     (let terr = (if 0 \<le> ti \<and> tj < 0 then - 12 else terr) in
      if 0 \<le> tj \<and> ti < 0 then - 13 else terr)"

definition set_err :: "int \<Rightarrow> vstate \<Rightarrow> vstate" where
  "set_err terr s = (if terr \<noteq> 0 then s\<lparr>verr := terr, vterr := terr\<rparr> else s\<lparr>vterr := terr\<rparr>)"

definition edge_step :: "int list \<Rightarrow> int list \<Rightarrow> int \<Rightarrow> packed_edge list \<Rightarrow> nat \<Rightarrow> vstate \<Rightarrow> vstate option" where
  "edge_step tree level mx IJ k s = do {
     e \<leftarrow> aget IJ k;
     let i = get_v0_from_edge e;
     let j = get_v1_from_edge e;
     let terr = verr s;
     if i < 0 \<or> j < 0 then Some (s\<lparr>vterr := terr\<rparr>) else do {
     let terr = range_terr mx i j terr;
     let s = set_err terr s;
     if terr \<noteq> 0 \<or> mx < i then Some s else do {
     ti \<leftarrow> geti tree i;
     tj \<leftarrow> geti tree j;
     let terr = tree_terr ti tj terr;
     let s = set_err terr s;
     if terr \<noteq> 0 \<or> ti < 0 then Some s else do {
     let s = s\<lparr>traversed := traversed s + 1\<rparr>;
     sn \<leftarrow> mark_seen tree i j (seen s);
     li \<leftarrow> geti level i;
     lj \<leftarrow> geti level j;
     let lvldiff = li - lj;
     let terr = (if 1 < lvldiff \<or> lvldiff < - 1 then - 14 else terr);
     Some (set_err terr (s\<lparr>seen := sn\<rparr>)) } } } }"

definition root_step :: "int list \<Rightarrow> int \<Rightarrow> nat \<Rightarrow> vstate \<Rightarrow> vstate option" where
  "root_step tree root k s = do {
     let terr = verr s;
     if terr = 0 \<and> int k \<noteq> root then do {
       t \<leftarrow> aget tree k;
       sn \<leftarrow> aget (seen s) k;
       let terr = (if 0 \<le> t \<and> sn = 0 then - 15 else terr);
       let terr = (if t = int k then - 16 else terr);
       Some (if terr \<noteq> 0 then s\<lparr>verr := terr\<rparr> else s) }
     else Some s }"

text \<open>The passes over the edges and over the vertices.\<close>

definition verify_passes :: "int list \<Rightarrow> int list \<Rightarrow> int \<Rightarrow> int \<Rightarrow> packed_edge list \<Rightarrow> nat \<Rightarrow> int list \<Rightarrow> int option" where
  "verify_passes tree level mx root IJ nedge seen_edge = do {
     sn \<leftarrow> for_up 0 (nat (mx + 1)) (\<lambda>k sn. aset sn k 0) seen_edge;
     s \<leftarrow> for_up 0 nedge (edge_step tree level mx IJ) \<lparr>verr = 0, vterr = 0, traversed = 0, seen = sn\<rparr>;
     s \<leftarrow> (if vterr s = 0 then for_up 0 (nat (mx + 1)) (root_step tree root) s else Some s);
     Some (if verr s \<noteq> 0 then verr s else traversed s) }"

definition verify_bfs_tree :: "int list \<Rightarrow> int \<Rightarrow> int \<Rightarrow> packed_edge list \<Rightarrow> nat \<Rightarrow> int option" where
  "verify_bfs_tree tree mx root IJ nedge =
     (if mx < root then Some (- 999)
      else do {
        tr \<leftarrow> geti tree root;
        if tr \<noteq> root then Some (- 999)
        else do {
          let nv = mx + 1;
          let seen_edge = replicate (nat nv) 0;
          (err, level) \<leftarrow> compute_levels (replicate (nat nv) 0) nv tree root;
          if err \<noteq> 0 then Some err else verify_passes tree level mx root IJ nedge seen_edge } })"

section \<open>Loops and arrays\<close>

lemma for_n_Some_inv:
  "for_n k lo f s = Some s' \<Longrightarrow> P lo s \<Longrightarrow>
   (\<And>i s s'. lo \<le> i \<Longrightarrow> i < lo + k \<Longrightarrow> P i s \<Longrightarrow> f i s = Some s' \<Longrightarrow> P (Suc i) s') \<Longrightarrow> P (lo + k) s'"
proof (induction k arbitrary: lo s)
  case (Suc k)
  from Suc.prems(1) obtain s1 where s1: "f lo s = Some s1" "for_n k (Suc lo) f s1 = Some s'" by (auto simp: bind_eq_Some_conv)
  have "P (Suc lo) s1" using Suc.prems(2,3) s1(1) by simp
  from Suc.IH [OF s1(2) this] Suc.prems(3) show ?case by simp
qed simp

text \<open>Partial correctness of a loop that did return.\<close>

lemma for_up_Some_inv:
  assumes "for_up 0 n f s = Some s'" "P 0 s" "\<And>i s s'. i < n \<Longrightarrow> P i s \<Longrightarrow> f i s = Some s' \<Longrightarrow> P (Suc i) s'"
  shows "P n s'"
  using for_n_Some_inv [of n 0 f s s' P] assms by (simp add: for_up_def)

lemma bind_SomeE: "m \<bind> f = Some y \<Longrightarrow> (\<And>x. m = Some x \<Longrightarrow> f x = Some y \<Longrightarrow> P) \<Longrightarrow> P"
  by (cases m) auto

lemma geti_Some: "geti xs i = Some v \<longleftrightarrow> 0 \<le> i \<and> nat i < length xs \<and> v = xs ! nat i"
  by (auto simp: geti_def aget_def)

lemma seti_Some: "seti xs i v = Some ys \<longleftrightarrow> 0 \<le> i \<and> nat i < length xs \<and> ys = xs[nat i := v]"
  by (auto simp: seti_def aset_def)

section \<open>Assigning levels\<close>

text \<open>The state of the level array: levelled vertices are the root and vertices one below their parent.\<close>

definition levels_ok :: "int list \<Rightarrow> nat \<Rightarrow> int \<Rightarrow> int list \<Rightarrow> bool" where
  "levels_ok tree nv root level \<longleftrightarrow> length level = nv \<and> 0 \<le> root \<and> nat root < nv \<and> level ! nat root = 0 \<and>
     (\<forall>k<nv. int k \<noteq> root \<longrightarrow> 0 \<le> level ! k \<longrightarrow>
        k < length tree \<and> 0 \<le> tree ! k \<and> nat (tree ! k) < nv \<and> 0 \<le> level ! nat (tree ! k) \<and>
        level ! k = level ! nat (tree ! k) + 1)"

text \<open>The vertices without a level on the way from \<open>q\<close> to the first vertex \<open>p\<close> with one.\<close>

fun climbs :: "int list \<Rightarrow> int list \<Rightarrow> int \<Rightarrow> nat list \<Rightarrow> int \<Rightarrow> bool" where
  "climbs tree level q [] p \<longleftrightarrow> p = q \<and> 0 \<le> q \<and> nat q < length level \<and> 0 \<le> level ! nat q"
| "climbs tree level q (x # xs) p \<longleftrightarrow> q = int x \<and> x < length level \<and> level ! x < 0 \<and> x < length tree \<and> climbs tree level (tree ! x) xs p"

lemma climb_climbs:
  "climb tree level nv q n = Some (p, n') \<Longrightarrow> 0 \<le> p \<Longrightarrow> n' < nv \<Longrightarrow> n \<le> n' \<and> (\<exists>xs. climbs tree level q xs p \<and> n' = n + int (length xs))"
proof (induction tree level nv q n arbitrary: p n' rule: climb.induct)
  case (1 tree level nv q n)
  show ?case
  proof (cases "0 \<le> q \<and> nat q < length level \<and> level ! nat q < 0 \<and> n < nv")
    case True
    with 1(2) obtain t where t: "geti tree q = Some t" "q \<noteq> t" "climb tree level nv t (n + 1) = Some (p, n')"
      by (subst (asm) climb.simps) (auto simp: geti_Some bind_eq_Some_conv split: if_splits)
    have "geti level q = Some (level ! nat q)" using True by (simp add: geti_Some)
    from 1(1) [OF _ this _ t(1) t(2) t(3) 1(3,4)] True obtain xs
      where "n + 1 \<le> n'" "climbs tree level t xs p" "n' = n + 1 + int (length xs)" by auto
    moreover have "climbs tree level q (nat q # xs) p" using True t(1) calculation(2) by (auto simp: geti_Some)
    ultimately show ?thesis by (intro conjI exI [of _ "nat q # xs"]) simp_all
  next
    case False
    with 1(2-4) have "p = q \<and> n' = n \<and> climbs tree level q [] p"
      by (subst (asm) climb.simps) (auto simp: geti_Some bind_eq_Some_conv split: if_splits)
    then show ?thesis by (intro conjI exI [of _ "[]"]) simp_all
  qed
qed

lemma climbs_unique: "climbs tree level q xs p \<Longrightarrow> climbs tree level q ys p' \<Longrightarrow> xs = ys \<and> p = p'"
proof (induction xs arbitrary: q ys)
  case Nil
  then show ?case by (cases ys) auto
next
  case (Cons x xs)
  then show ?case by (cases ys) auto
qed

lemma climbs_suffix: "climbs tree level q xs p \<Longrightarrow> x \<in> set xs \<Longrightarrow> \<exists>ys. climbs tree level (int x) (x # ys) p \<and> length ys < length xs"
proof (induction xs arbitrary: q)
  case (Cons a xs)
  show ?case
  proof (cases "x = a")
    case True
    with Cons.prems show ?thesis by (intro exI [of _ xs]) auto
  next
    case False
    with Cons.prems have "x \<in> set xs" "climbs tree level (tree ! a) xs p" by auto
    from Cons.IH [OF this(2,1)] show ?thesis by (auto intro: less_SucI)
  qed
qed simp

lemma climbs_end: "climbs tree level q xs p \<Longrightarrow> 0 \<le> p \<and> nat p < length level \<and> 0 \<le> level ! nat p"
  by (induction xs arbitrary: q) auto

lemma climbs_distinct: "climbs tree level q xs p \<Longrightarrow> distinct xs \<and> nat p \<notin> set xs \<and> (\<forall>x\<in>set xs. level ! x < 0)"
proof (induction xs arbitrary: q)
  case (Cons a xs)
  have "a \<notin> set xs"
  proof
    assume "a \<in> set xs"
    with Cons.prems obtain ys where "climbs tree level (int a) (a # ys) p" "length ys < length xs"
      using climbs_suffix [of tree level "tree ! a" xs p a] by auto
    with climbs_unique [OF this(1), of "a # xs" p] Cons.prems show False by auto
  qed
  moreover have "nat p \<noteq> a"
    using Cons.prems climbs_end [OF Cons.prems] by auto
  ultimately show ?case using Cons by auto
qed auto

text \<open>The values written on the way.\<close>

fun set_path :: "nat list \<Rightarrow> int \<Rightarrow> int list \<Rightarrow> int list" where
  "set_path [] n level = level"
| "set_path (x # xs) n level = set_path xs (n - 1) (level[x := n])"

lemma length_set_path [simp]: "length (set_path xs n level) = length level"
  by (induction xs n level rule: set_path.induct) auto

lemma set_path_other: "y \<notin> set xs \<Longrightarrow> set_path xs n level ! y = level ! y"
  by (induction xs n level rule: set_path.induct) auto

lemma set_path_nth:
  "distinct xs \<Longrightarrow> set xs \<subseteq> {..<length level} \<Longrightarrow> i < length xs \<Longrightarrow> set_path xs n level ! (xs ! i) = n - int i"
proof (induction xs n level arbitrary: i rule: set_path.induct)
  case (2 x xs n level)
  then show ?case by (cases i) (auto simp: set_path_other)
qed simp

lemma climbs_upd: "climbs tree level q xs p \<Longrightarrow> y \<notin> set xs \<Longrightarrow> y \<noteq> nat p \<Longrightarrow> climbs tree (level[y := v]) q xs p"
  by (induction xs arbitrary: q) (auto simp: nth_list_update)

lemma assign_path:
  "climbs tree level q xs p \<Longrightarrow> n = int (length xs) + level ! nat p \<Longrightarrow>
   assign tree level q n = Some (set_path xs n level, p, level ! nat p)"
proof (induction xs arbitrary: level q n)
  case Nil
  then show ?case by (subst assign.simps) (auto simp: geti_def)
next
  case (Cons x xs)
  note d = climbs_distinct [OF Cons.prems(1)]
  have c: "climbs tree (level[x := n]) (tree ! x) xs p" using Cons.prems(1) d by (auto intro: climbs_upd)
  have l: "level[x := n] ! nat p = level ! nat p" using d by auto
  have "0 < n" using Cons.prems climbs_end [OF Cons.prems(1)] by simp
  moreover have "assign tree (level[x := n]) (tree ! x) (n - 1) = Some (set_path xs (n - 1) (level[x := n]), p, level ! nat p)"
    using Cons.IH [OF c] l Cons.prems(2) by simp
  ultimately show ?case using Cons.prems(1) by (subst assign.simps) (simp add: geti_def seti_def)
qed

lemma climbs_bounds: "climbs tree level q xs p \<Longrightarrow> set xs \<subseteq> {..<length level} \<inter> {..<length tree}"
  by (induction xs arbitrary: q) auto

lemma climbs_next:
  "climbs tree level q xs p \<Longrightarrow> i < length xs \<Longrightarrow> tree ! (xs ! i) = (if Suc i < length xs then int (xs ! Suc i) else p)"
proof (induction xs arbitrary: q i)
  case (Cons x xs)
  show ?case
  proof (cases i)
    case 0
    then show ?thesis using Cons.prems by (cases xs) auto
  next
    case (Suc j)
    then show ?thesis using Cons.prems Cons.IH [of "tree ! x" j] by auto
  qed
qed simp

lemma set_path_levels_ok:
  assumes ok: "levels_ok tree nv root level" and c: "climbs tree level q xs p"
  shows "levels_ok tree nv root (set_path xs (int (length xs) + level ! nat p) level)"
proof -
  let ?n = "int (length xs) + level ! nat p"
  let ?l = "set_path xs ?n level"
  note d = climbs_distinct [OF c] and e = climbs_end [OF c] and b = climbs_bounds [OF c]
  note ok' = ok [unfolded levels_ok_def]
  have other: "?l ! y = level ! y" if "y \<notin> set xs" for y using that by (rule set_path_other)
  have on: "?l ! (xs ! i) = ?n - int i" if "i < length xs" for i using set_path_nth [of xs level i ?n] d b that by auto
  have r: "nat root \<notin> set xs" using d ok' by auto
  have "x < length tree \<and> 0 \<le> tree ! x \<and> nat (tree ! x) < nv \<and> 0 \<le> ?l ! nat (tree ! x) \<and> ?l ! x = ?l ! nat (tree ! x) + 1"
    if x: "x < nv" "int x \<noteq> root" "0 \<le> ?l ! x" for x
  proof (cases "x \<in> set xs")
    case True
    then obtain i where i: "i < length xs" "x = xs ! i" by (auto simp: in_set_conv_nth)
    have xt: "x < length tree" using True b by auto
    show ?thesis
    proof (cases "Suc i < length xs")
      case True
      then have "tree ! x = int (xs ! Suc i)" using climbs_next [OF c i(1)] i by simp
      moreover have "xs ! Suc i < nv" using b nth_mem [OF True] ok' by auto
      ultimately show ?thesis using on [OF True] on [OF i(1)] i True xt e by simp
    next
      case False
      then have "tree ! x = p" "int (length xs) = int i + 1" using climbs_next [OF c i(1)] i by simp_all
      then show ?thesis using other [of "nat p"] on [OF i(1)] i d e xt ok' by simp
    qed
  next
    case False
    then have l: "0 \<le> level ! x" using x(3) other [OF False] by simp
    with ok' x have t: "x < length tree" "0 \<le> tree ! x" "nat (tree ! x) < nv" "0 \<le> level ! nat (tree ! x)"
      "level ! x = level ! nat (tree ! x) + 1" by blast+
    then have "nat (tree ! x) \<notin> set xs" using d by force
    with t other [OF False] other [of "nat (tree ! x)"] show ?thesis by simp
  qed
  then show ?thesis using ok' r other unfolding levels_ok_def by simp
qed

text \<open>One vertex: on success its way to the root is levelled, and levels given before stay.\<close>

lemma level_vertex_ok:
  assumes ok: "levels_ok tree nv root level" and k: "k < nv" "level ! k < 0"
    and v: "level_vertex tree (int nv) (int k) level = Some (0, level')"
  shows "levels_ok tree nv root level' \<and> 0 \<le> level' ! k \<and> (\<forall>x<nv. 0 \<le> level ! x \<longrightarrow> level' ! x = level ! x)"
proof -
  from v obtain p n where cl: "climb tree level (int nv) (int k) 0 = Some (p, n)" "0 \<le> p" "n < int nv"
    by (auto simp: level_vertex_def bind_eq_Some_conv Let_def split: if_splits)
  from climb_climbs [OF this] obtain xs where c: "climbs tree level (int k) xs p" "n = int (length xs)" by auto
  from v cl c assign_path [OF c(1) refl] climbs_end [OF c(1)]
  have l': "level' = set_path xs (int (length xs) + level ! nat p) level"
    by (auto simp: level_vertex_def bind_eq_Some_conv Let_def geti_Some split: if_splits)
  have xs: "xs \<noteq> []" "k = hd xs" using c(1) k ok by (cases xs; auto simp: levels_ok_def)+
  have "levels_ok tree nv root level'" unfolding l' by (rule set_path_levels_ok [OF ok c(1)])
  moreover have "0 \<le> level' ! k"
    using set_path_nth [of xs level 0 "int (length xs) + level ! nat p"] climbs_distinct [OF c(1)] climbs_bounds [OF c(1)]
      climbs_end [OF c(1)] xs by (auto simp: l' hd_conv_nth)
  moreover have "level' ! x = level ! x" if "0 \<le> level ! x" for x
    unfolding l' by (rule set_path_other) (use climbs_distinct [OF c(1)] that in auto)
  ultimately show ?thesis by blast
qed

lemma init_levels:
  assumes "0 \<le> root" "nat root < nv"
  shows "\<exists>level. for_up 0 nv (\<lambda>k level. aset level k (if int k = root then 0 else - 1)) (replicate nv 0) = Some level \<and>
    levels_ok tree nv root level \<and> (\<forall>k<nv. int k \<noteq> root \<longrightarrow> level ! k = - 1)"
proof -
  let ?P = "\<lambda>j level. length level = nv \<and> (\<forall>k<j. level ! k = (if int k = root then 0 else - 1))"
  have "\<exists>level. for_up 0 nv (\<lambda>k level. aset level k (if int k = root then 0 else - 1 :: int)) (replicate nv 0) = Some level \<and> ?P nv level"
    by (rule for_up_rule [where P = ?P]) (auto simp: nth_list_update less_Suc_eq)
  then show ?thesis using assms by (force simp: levels_ok_def)
qed

lemma compute_levels_ok:
  assumes c: "compute_levels (replicate nv 0) (int nv) tree root = Some (0, level)" and r: "0 \<le> root" "nat root < nv"
  shows "levels_ok tree nv root level \<and> (\<forall>k<nv. 0 \<le> tree ! k \<longrightarrow> 0 \<le> level ! k)"
proof -
  let ?P = "\<lambda>j (err, level). err = (0 :: int) \<longrightarrow> levels_ok tree nv root level \<and> (\<forall>k<j. 0 \<le> tree ! k \<longrightarrow> 0 \<le> level ! k)"
  from c init_levels [OF r, of tree] obtain level0 where l0: "levels_ok tree nv root level0"
    "for_up 0 nv (level_step tree (int nv) root) (0, level0) = Some (0, level)"
    by (auto simp: compute_levels_def bind_eq_Some_conv)
  have "?P nv (0, level)"
    using l0(2)
  proof (rule for_up_Some_inv [where P = ?P])
    fix i s s' assume i: "i < nv" and P: "?P i s" and s': "level_step tree (int nv) root i s = Some s'"
    obtain err lv err' lv' where s: "s = (err, lv)" "s' = (err', lv')" by force
    show "?P (Suc i) s'"
    proof (cases "err' = 0")
      case True
      then have err: "err = 0" using s' by (auto simp: s level_step_def bind_eq_Some_conv split: if_splits)
      with P s have P': "levels_ok tree nv root lv" "\<forall>k<i. 0 \<le> tree ! k \<longrightarrow> 0 \<le> lv ! k" by auto
      then have len: "length lv = nv" by (simp add: levels_ok_def)
      show ?thesis
      proof (cases "lv ! i < 0 \<and> 0 \<le> tree ! i \<and> int i \<noteq> root \<and> i < length tree")
        case True
        then have "level_vertex tree (int nv) (int i) lv = Some (0, lv')"
          using s' i len err \<open>err' = 0\<close> by (auto simp: s level_step_def bind_eq_Some_conv aget_def split: if_splits)
        from level_vertex_ok [OF P'(1) i _ this] True P'(2) i show ?thesis by (auto simp: s less_Suc_eq)
      next
        case False
        with s' i len err have "lv' = lv" "lv ! i < 0 \<longrightarrow> \<not> 0 \<le> tree ! i \<or> int i = root"
          by (auto simp: s level_step_def bind_eq_Some_conv aget_def split: if_splits)
        moreover have "int i = root \<longrightarrow> lv ! i = 0" using P'(1) by (auto simp: levels_ok_def)
        ultimately show ?thesis using P' by (auto simp: s less_Suc_eq)
      qed
    qed (simp add: s)
  qed (use l0 in simp)
  then show ?thesis by simp
qed

lemma compute_levels_err:
  assumes c: "compute_levels level0 nv tree root = Some (err, level)"
  shows "err \<le> 0"
proof -
  let ?P = "\<lambda>_ (err, _). err \<le> (0 :: int)"
  from c obtain l0 where "for_up 0 (nat nv) (level_step tree nv root) (0, l0) = Some (err, level)"
    unfolding compute_levels_def by (elim bind_SomeE)
  then have "?P (nat nv) (err, level)"
  proof (rule for_up_Some_inv [where P = ?P])
    fix i s s' assume P: "?P i s" and st: "level_step tree nv root i s = Some s'"
    then show "?P (Suc i) s'"
      by (auto simp: level_step_def level_vertex_def Let_def elim!: bind_SomeE split: if_split_asm prod.splits)
  qed simp
  then show ?thesis by simp
qed

section \<open>What the passes over the edges and the vertices establish\<close>

definition src :: "packed_edge \<Rightarrow> nat" where "src e = unat (v0 e)"
definition tgt :: "packed_edge \<Rightarrow> nat" where "tgt e = unat (v1 e)"

lemma get_edge: "get_v0_from_edge e = int (src e)" "get_v1_from_edge e = int (tgt e)"
  by (simp_all add: get_v0_from_edge_def get_v1_from_edge_def src_def tgt_def)

definition joins :: "packed_edge \<Rightarrow> nat \<Rightarrow> nat \<Rightarrow> bool" where
  "joins e u v \<longleftrightarrow> (src e = u \<and> tgt e = v) \<or> (src e = v \<and> tgt e = u)"

definition edge_fine :: "int list \<Rightarrow> int list \<Rightarrow> nat \<Rightarrow> packed_edge \<Rightarrow> bool" where
  "edge_fine tree level nv e \<longleftrightarrow> (src e < nv \<longleftrightarrow> tgt e < nv) \<and>
     (src e < nv \<longrightarrow> (0 \<le> tree ! src e \<longleftrightarrow> 0 \<le> tree ! tgt e) \<and>
        (0 \<le> tree ! src e \<longrightarrow> \<bar>level ! src e - level ! tgt e\<bar> \<le> 1))"

definition inside :: "int list \<Rightarrow> nat \<Rightarrow> packed_edge \<Rightarrow> bool" where
  "inside tree nv e \<longleftrightarrow> src e < nv \<and> 0 \<le> tree ! src e"

definition edges_inv :: "int list \<Rightarrow> int list \<Rightarrow> nat \<Rightarrow> packed_edge list \<Rightarrow> nat \<Rightarrow> vstate \<Rightarrow> bool" where
  "edges_inv tree level nv IJ n s \<longleftrightarrow> verr s \<le> 0 \<and> vterr s = verr s \<and> (verr s = 0 \<longrightarrow>
     length (seen s) = nv \<and> n \<le> length IJ \<and> (\<forall>e\<in>set (take n IJ). edge_fine tree level nv e) \<and>
     traversed s = int (length (filter (inside tree nv) (take n IJ))) \<and>
     (\<forall>x<nv. seen s ! x \<noteq> 0 \<longrightarrow> (\<exists>e\<in>set (take n IJ). 0 \<le> tree ! x \<and> joins e x (nat (tree ! x)))))"

lemma set_err_simps [simp]:
  "verr (set_err terr s) = (if terr \<noteq> 0 then terr else verr s)" "vterr (set_err terr s) = terr"
  "traversed (set_err terr s) = traversed s" "seen (set_err terr s) = seen s"
  by (simp_all add: set_err_def)

lemma set_err_0: "set_err 0 s = s\<lparr>vterr := 0\<rparr>"
  by (simp add: set_err_def)

lemma range_terr_0: "range_terr mx i j terr = 0 \<longleftrightarrow> terr = 0 \<and> (mx < i \<longleftrightarrow> mx < j)"
  by (auto simp: range_terr_def Let_def)

lemma tree_terr_0: "tree_terr ti tj 0 = 0 \<longleftrightarrow> (0 \<le> ti \<longleftrightarrow> 0 \<le> tj)"
  by (auto simp: tree_terr_def Let_def)

lemma tree_terr_same: "0 \<le> ti \<Longrightarrow> 0 \<le> tj \<Longrightarrow> tree_terr ti tj 0 = 0" "ti < 0 \<Longrightarrow> tj < 0 \<Longrightarrow> tree_terr ti tj 0 = 0"
  by (simp_all add: tree_terr_def)

lemma terr_le: "terr \<le> 0 \<Longrightarrow> range_terr mx i j terr \<le> 0" "terr \<le> 0 \<Longrightarrow> tree_terr ti tj terr \<le> 0"
  by (simp_all add: range_terr_def tree_terr_def Let_def)

text \<open>What a step does when the edge passes all tests.\<close>

lemma edge_step_good:
  assumes n: "n < length IJ" and e: "e = IJ ! n" and s: "verr s = 0"
  shows "edge_step tree level (int nv - 1) IJ n s =
    (if (src e < nv) \<noteq> (tgt e < nv) then Some (set_err (range_terr (int nv - 1) (int (src e)) (int (tgt e)) 0) s)
     else if nv \<le> src e then Some (s\<lparr>vterr := 0\<rparr>)
     else do {
       ti \<leftarrow> geti tree (int (src e)); tj \<leftarrow> geti tree (int (tgt e));
       if (0 \<le> ti) \<noteq> (0 \<le> tj) then Some (set_err (tree_terr ti tj 0) (s\<lparr>vterr := 0\<rparr>))
       else if ti < 0 then Some (s\<lparr>vterr := 0\<rparr>)
       else do {
         sn \<leftarrow> mark_seen tree (int (src e)) (int (tgt e)) (seen s);
         li \<leftarrow> geti level (int (src e)); lj \<leftarrow> geti level (int (tgt e));
         Some (set_err (if 1 < li - lj \<or> li - lj < - 1 then - 14 else 0) (s\<lparr>vterr := 0, traversed := traversed s + 1, seen := sn\<rparr>)) } })"
proof -
  have g: "aget IJ n = Some e" using n e by simp
  let ?r = "range_terr (int nv - 1) (int (src e)) (int (tgt e)) 0"
  have r: "?r = 0 \<longleftrightarrow> (src e < nv \<longleftrightarrow> tgt e < nv)" by (auto simp: range_terr_0)
  show ?thesis
  proof (cases "(src e < nv) \<noteq> (tgt e < nv)")
    case True
    with r show ?thesis unfolding edge_step_def g by (simp add: get_edge s)
  next
    case False
    with r have r0: "?r = 0" by simp
    show ?thesis
    proof (cases "nv \<le> src e")
      case True
      with False show ?thesis unfolding edge_step_def g by (simp add: get_edge s r0 set_err_0)
    next
      case lt: False
      with False have m: "\<not> int nv - 1 < int (src e)" "src e < nv" "tgt e < nv" by auto
      show ?thesis
        unfolding edge_step_def g
        by (cases "geti tree (int (src e))"; cases "geti tree (int (tgt e))")
          (use False m in \<open>auto simp: get_edge s r0 set_err_0 tree_terr_0 tree_terr_same not_less Let_def cong: if_cong\<close>)
    qed
  qed
qed

lemma edge_step_bad:
  assumes "verr s < 0"
  shows "edge_step tree level mx IJ n s = do { e \<leftarrow> aget IJ n;
    Some (set_err (range_terr mx (int (src e)) (int (tgt e)) (verr s)) s) }"
  using assms by (cases "aget IJ n") (simp_all add: edge_step_def get_edge range_terr_0)

lemma edge_step_cases:
  assumes st: "edge_step tree level (int nv - 1) IJ n s = Some s'" and ok: "verr s = 0" "verr s' = 0"
  defines "e \<equiv> IJ ! n"
  shows "n < length IJ \<and> edge_fine tree level nv e \<and>
    (if inside tree nv e
     then \<exists>sn. mark_seen tree (int (src e)) (int (tgt e)) (seen s) = Some sn \<and>
       s' = s\<lparr>vterr := 0, traversed := traversed s + 1, seen := sn\<rparr>
     else s' = s\<lparr>vterr := 0\<rparr>)"
proof -
  have n: "n < length IJ" using st by (cases "n < length IJ") (simp_all add: edge_step_def)
  note g = st [unfolded edge_step_good [OF n refl ok(1)], folded e_def]
  have r: "src e < nv \<longleftrightarrow> tgt e < nv" using g ok by (auto simp: range_terr_0 split: if_splits)
  show ?thesis
  proof (cases "src e < nv")
    case False
    with g r n show ?thesis by (simp add: edge_fine_def inside_def)
  next
    case True
    with g r obtain ti tj where t: "geti tree (int (src e)) = Some ti" "geti tree (int (tgt e)) = Some tj"
      by (auto simp: bind_eq_Some_conv)
    with g r True have g': "(if (0 \<le> ti) \<noteq> (0 \<le> tj) then Some (set_err (tree_terr ti tj 0) (s\<lparr>vterr := 0\<rparr>))
       else if ti < 0 then Some (s\<lparr>vterr := 0\<rparr>)
       else do {
         sn \<leftarrow> mark_seen tree (int (src e)) (int (tgt e)) (seen s);
         li \<leftarrow> geti level (int (src e)); lj \<leftarrow> geti level (int (tgt e));
         Some (set_err (if 1 < li - lj \<or> li - lj < - 1 then - 14 else 0) (s\<lparr>vterr := 0, traversed := traversed s + 1, seen := sn\<rparr>)) }) = Some s'"
      by simp
    have tt: "ti = tree ! src e" "tj = tree ! tgt e" using t by (auto simp: geti_Some)
    have same: "0 \<le> ti \<longleftrightarrow> 0 \<le> tj" using g' ok by (auto simp: tree_terr_0 split: if_splits)
    show ?thesis
    proof (cases "ti < 0")
      case True
      with g' same n r tt \<open>src e < nv\<close> show ?thesis by (auto simp: edge_fine_def inside_def)
    next
      case False
      with g' same obtain sn li lj where x: "mark_seen tree (int (src e)) (int (tgt e)) (seen s) = Some sn"
        "geti level (int (src e)) = Some li" "geti level (int (tgt e)) = Some lj"
        "s' = set_err (if 1 < li - lj \<or> li - lj < - 1 then - 14 else 0) (s\<lparr>vterr := 0, traversed := traversed s + 1, seen := sn\<rparr>)"
        by (auto simp: bind_eq_Some_conv)
      have "\<bar>li - lj\<bar> \<le> 1" using x(4) ok by (auto split: if_splits)
      with x n r tt same False \<open>src e < nv\<close> show ?thesis
        by (auto simp: edge_fine_def inside_def geti_Some set_err_0)
    qed
  qed
qed

lemma edge_step_error:
  assumes st: "edge_step tree level (int nv - 1) IJ n s = Some s'" and s: "verr s \<le> 0" "vterr s = verr s"
  shows "verr s' \<le> 0 \<and> vterr s' = verr s' \<and> (verr s \<noteq> 0 \<longrightarrow> verr s' \<noteq> 0)"
proof (cases "verr s = 0")
  case True
  have n: "n < length IJ" using st by (cases "n < length IJ") (simp_all add: edge_step_def)
  from st [unfolded edge_step_good [OF n refl True]] True show ?thesis
    by (auto simp: bind_eq_Some_conv terr_le split: if_splits)
next
  case False
  with s(1) have neg: "verr s < 0" by simp
  from st [unfolded edge_step_bad [OF neg]] neg show ?thesis by (auto simp: bind_eq_Some_conv terr_le range_terr_0)
qed

lemma mark_seen_ok:
  assumes "mark_seen tree (int i) (int j) sn = Some sn'"
  shows "length sn' = length sn" and "sn' ! x \<noteq> 0 \<Longrightarrow> sn ! x = 0 \<Longrightarrow> 0 \<le> tree ! x \<and> (x = i \<and> nat (tree ! x) = j \<or> x = j \<and> nat (tree ! x) = i)"
proof -
  define s1 where "s1 = (if i \<noteq> j \<and> tree ! i = int j then sn[i := 1] else sn)"
  have sn': "sn' = (if i \<noteq> j \<and> tree ! j = int i then s1[j := 1] else s1)"
    using assms by (auto simp: mark_seen_def s1_def bind_eq_Some_conv geti_Some seti_Some split: if_splits)
  then show "length sn' = length sn" by (simp add: s1_def)
  assume x: "sn' ! x \<noteq> 0" "sn ! x = 0"
  show "0 \<le> tree ! x \<and> (x = i \<and> nat (tree ! x) = j \<or> x = j \<and> nat (tree ! x) = i)"
  proof (cases "s1 ! x = 0")
    case True
    with x sn' have "x = j" "tree ! j = int i" by (cases "x = j"; auto split: if_splits)+
    then show ?thesis by simp
  next
    case False
    with x have "x = i" "tree ! i = int j" unfolding s1_def by (cases "x = i"; auto split: if_splits)+
    then show ?thesis by simp
  qed
qed

lemma edge_step_inv:
  assumes inv: "edges_inv tree level nv IJ n s" and st: "edge_step tree level (int nv - 1) IJ n s = Some s'"
  shows "edges_inv tree level nv IJ (Suc n) s'"
proof (cases "verr s' = 0")
  case False
  with inv edge_step_error [OF st] show ?thesis by (simp add: edges_inv_def)
next
  case ok: True
  have I: "verr s = 0" "vterr s = 0" "length (seen s) = nv" "\<forall>e\<in>set (take n IJ). edge_fine tree level nv e"
    "traversed s = int (length (filter (inside tree nv) (take n IJ)))"
    "\<forall>x<nv. seen s ! x \<noteq> 0 \<longrightarrow> (\<exists>e\<in>set (take n IJ). 0 \<le> tree ! x \<and> joins e x (nat (tree ! x)))"
    using inv edge_step_error [OF st] ok by (auto simp: edges_inv_def)
  let ?e = "IJ ! n"
  note c = edge_step_cases [OF st I(1) ok]
  have tk: "take (Suc n) IJ = take n IJ @ [?e]" using c by (simp add: take_Suc_conv_app_nth)
  show ?thesis
  proof (cases "inside tree nv ?e")
    case False
    then have "s' = s\<lparr>vterr := 0\<rparr>" using c by simp
    with I c False show ?thesis unfolding edges_inv_def tk by auto
  next
    case True
    then obtain sn where sn: "mark_seen tree (int (src ?e)) (int (tgt ?e)) (seen s) = Some sn"
      "s' = s\<lparr>vterr := 0, traversed := traversed s + 1, seen := sn\<rparr>" using c by auto
    have "\<exists>e\<in>set (take (Suc n) IJ). 0 \<le> tree ! x \<and> joins e x (nat (tree ! x))" if "x < nv" "sn ! x \<noteq> 0" for x
    proof (cases "seen s ! x = 0")
      case False
      with I(6) that show ?thesis unfolding tk by auto
    next
      case True
      from mark_seen_ok(2) [OF sn(1) that(2) True] have "0 \<le> tree ! x \<and> joins ?e x (nat (tree ! x))" by (auto simp: joins_def)
      then show ?thesis unfolding tk by simp
    qed
    then show ?thesis using I c mark_seen_ok(1) [OF sn(1)] sn(2) True unfolding edges_inv_def by (simp add: tk)
  qed
qed

lemma root_loop:
  assumes l: "for_up 0 nv (root_step tree root) s = Some s'" "verr s \<le> 0"
  shows "traversed s' = traversed s \<and> verr s' \<le> 0 \<and> (verr s' = 0 \<longrightarrow> verr s = 0 \<and>
    (\<forall>k<nv. int k \<noteq> root \<longrightarrow> k < length tree \<and> (0 \<le> tree ! k \<longrightarrow> seen s ! k \<noteq> 0) \<and> tree ! k \<noteq> int k))"
proof -
  let ?P = "\<lambda>j s'. traversed s' = traversed s \<and> seen s' = seen s \<and> verr s' \<le> 0 \<and> (verr s' = 0 \<longrightarrow> verr s = 0 \<and>
    (\<forall>k<j. int k \<noteq> root \<longrightarrow> k < length tree \<and> (0 \<le> tree ! k \<longrightarrow> seen s ! k \<noteq> 0) \<and> tree ! k \<noteq> int k))"
  have "?P nv s'"
    using l(1)
  proof (rule for_up_Some_inv [where P = ?P])
    show "?P 0 s" using l(2) by simp
  next
    fix i s1 s2 assume P: "?P i s1" and st: "root_step tree root i s1 = Some s2"
    show "?P (Suc i) s2"
    proof (cases "verr s1 = 0 \<and> int i \<noteq> root")
      case False
      then have "s2 = s1" using st by (auto simp: root_step_def)
      with P False show ?thesis by (auto simp: less_Suc_eq)
    next
      case True
      with st obtain terr where "i < length tree" "s2 = (if terr \<noteq> 0 then s1\<lparr>verr := terr\<rparr> else s1)"
        "terr = (if tree ! i = int i then - 16 else if 0 \<le> tree ! i \<and> seen s1 ! i = 0 then - 15 else 0)"
        by (auto simp: root_step_def bind_eq_Some_conv aget_def split: if_splits)
      with P True show ?thesis by (auto simp: less_Suc_eq split: if_splits)
    qed
  qed
  then show ?thesis by blast
qed

section \<open>Accepted trees\<close>

definition adj :: "packed_edge list \<Rightarrow> nat \<Rightarrow> nat \<Rightarrow> bool" where
  "adj IJ u v \<longleftrightarrow> (\<exists>e\<in>set IJ. joins e u v)"

text \<open>\<open>within IJ r d v\<close>: there is a walk of \<open>d\<close> edges from \<open>r\<close> to \<open>v\<close>.\<close>

fun within :: "packed_edge list \<Rightarrow> nat \<Rightarrow> nat \<Rightarrow> nat \<Rightarrow> bool" where
  "within IJ r 0 v \<longleftrightarrow> v = r"
| "within IJ r (Suc d) v \<longleftrightarrow> (\<exists>u. within IJ r d u \<and> adj IJ u v)"

text \<open>\<open>dist\<close> as a relation: \<open>d\<close> is the length of a shortest walk.\<close>

definition dist :: "packed_edge list \<Rightarrow> nat \<Rightarrow> nat \<Rightarrow> nat \<Rightarrow> bool" where
  "dist IJ r v d \<longleftrightarrow> within IJ r d v \<and> (\<forall>d'<d. \<not> within IJ r d' v)"

definition reach :: "packed_edge list \<Rightarrow> nat \<Rightarrow> nat \<Rightarrow> bool" where
  "reach IJ r v \<longleftrightarrow> (\<exists>d. within IJ r d v)"

text \<open>The certificate that the passes check: a level function on the tree.\<close>

definition certified :: "int list \<Rightarrow> int list \<Rightarrow> nat \<Rightarrow> nat \<Rightarrow> packed_edge list \<Rightarrow> bool" where
  "certified tree level nv r IJ \<longleftrightarrow> r < nv \<and> tree ! r = int r \<and> levels_ok tree nv (int r) level \<and>
     (\<forall>k<nv. 0 \<le> tree ! k \<longrightarrow> 0 \<le> level ! k) \<and> (\<forall>e\<in>set IJ. edge_fine tree level nv e) \<and>
     (\<forall>k<nv. k \<noteq> r \<longrightarrow> 0 \<le> tree ! k \<longrightarrow> adj IJ k (nat (tree ! k)))"

lemma certified_adj:
  assumes c: "certified tree level nv r IJ" and a: "adj IJ u v" and u: "u < nv" "0 \<le> tree ! u"
  shows "v < nv \<and> 0 \<le> tree ! v \<and> level ! v \<le> level ! u + 1"
proof -
  from a obtain e where e: "e \<in> set IJ" "joins e u v" by (auto simp: adj_def)
  then have "edge_fine tree level nv e" using c by (simp add: certified_def)
  with e(2) u show ?thesis by (auto simp: joins_def edge_fine_def abs_le_iff)
qed

lemma certified_parent:
  assumes "certified tree level nv r IJ" "v < nv" "0 \<le> tree ! v" "v \<noteq> r"
  shows "nat (tree ! v) < nv" "0 \<le> level ! nat (tree ! v)" "level ! v = level ! nat (tree ! v) + 1" "adj IJ v (nat (tree ! v))"
  using assms by (auto simp: certified_def levels_ok_def)

lemma certified_within:
  assumes c: "certified tree level nv r IJ"
  shows "within IJ r d v \<Longrightarrow> v < nv \<and> 0 \<le> tree ! v \<and> level ! v \<le> int d"
proof (induction d arbitrary: v)
  case 0
  with c show ?case by (auto simp: certified_def levels_ok_def)
next
  case (Suc d)
  then obtain u where "within IJ r d u" "adj IJ u v" by auto
  moreover from this Suc.IH [of u] have u: "u < nv" "0 \<le> tree ! u" "level ! u \<le> int d" by simp_all
  ultimately show ?case using certified_adj [OF c _ u(1,2), of v] by simp
qed

lemma certified_path:
  assumes c: "certified tree level nv r IJ"
  shows "v < nv \<Longrightarrow> 0 \<le> tree ! v \<Longrightarrow> within IJ r (nat (level ! v)) v"
proof (induction "nat (level ! v)" arbitrary: v)
  case 0
  have "v = r"
  proof (rule ccontr)
    assume "v \<noteq> r"
    from certified_parent [OF c 0(2,3) this] 0(1) show False by simp
  qed
  then show ?case using 0 by simp
next
  case (Suc n)
  have "level ! r = 0" using c by (simp add: certified_def levels_ok_def)
  with Suc.hyps(2) have ne: "v \<noteq> r" by auto
  let ?p = "nat (tree ! v)"
  note p = certified_parent [OF c Suc.prems ne]
  have t: "0 \<le> tree ! ?p" using certified_adj [OF c p(4) Suc.prems] by simp
  have n: "n = nat (level ! ?p)" using Suc.hyps(2) p by simp
  from Suc.hyps(1) [OF n p(1) t] n have "within IJ r n ?p" by simp
  moreover have "adj IJ ?p v" using p(4) by (auto simp: adj_def joins_def)
  ultimately show ?case using Suc.hyps(2) by (metis within.simps(2))
qed

text \<open>The levels are the distances, and the tree covers exactly what the root reaches.\<close>

lemma certified_dist:
  assumes c: "certified tree level nv r IJ" and v: "v < nv" "0 \<le> tree ! v"
  shows "dist IJ r v (nat (level ! v))"
proof -
  have "\<not> within IJ r d v" if "d < nat (level ! v)" for d using certified_within [OF c, of d v] that by auto
  with certified_path [OF c v] show ?thesis by (simp add: dist_def)
qed

lemma certified_reach:
  assumes c: "certified tree level nv r IJ"
  shows "reach IJ r v \<longleftrightarrow> v < nv \<and> 0 \<le> tree ! v"
  using certified_within [OF c, of _ v] certified_path [OF c, of v] by (auto simp: reach_def)

text \<open>
  A breadth-first tree: the vertices the root reaches have a parent entry, and each but the root is joined by an edge to its
  parent, which is one step closer to the root.
\<close>

definition is_bfs_tree :: "packed_edge list \<Rightarrow> nat \<Rightarrow> nat \<Rightarrow> int list \<Rightarrow> bool" where
  "is_bfs_tree IJ nv r tree \<longleftrightarrow> (\<forall>v. reach IJ r v \<longleftrightarrow> v < nv \<and> 0 \<le> tree ! v) \<and>
     (\<forall>v. reach IJ r v \<longrightarrow> v \<noteq> r \<longrightarrow> adj IJ v (nat (tree ! v)) \<and> (\<exists>d. dist IJ r (nat (tree ! v)) d \<and> dist IJ r v (Suc d)))"

lemma certified_is_bfs_tree:
  assumes c: "certified tree level nv r IJ"
  shows "is_bfs_tree IJ nv r tree"
proof -
  note reach = certified_reach [OF c]
  have "adj IJ v (nat (tree ! v)) \<and> (\<exists>d. dist IJ r (nat (tree ! v)) d \<and> dist IJ r v (Suc d))"
    if v: "reach IJ r v" "v \<noteq> r" for v
  proof -
    have t: "v < nv" "0 \<le> tree ! v" using v(1) by (simp_all add: reach)
    have a: "adj IJ v (nat (tree ! v))" using c t v(2) by (simp add: certified_def)
    have p: "nat (tree ! v) < nv" "0 \<le> tree ! nat (tree ! v)" using certified_adj [OF c a t] by simp_all
    have "nat (level ! v) = Suc (nat (level ! nat (tree ! v)))" using certified_parent [OF c t v(2)] by simp
    with certified_dist [OF c p] certified_dist [OF c t] a show ?thesis by auto
  qed
  then show ?thesis using reach by (simp add: is_bfs_tree_def)
qed

lemma verify_passes_certified:
  assumes v: "verify_passes tree level (int nv - 1) root IJ (length IJ) (replicate nv 0) = Some m" and m: "0 \<le> m"
    and r: "0 \<le> root" "nat root < nv" "tree ! nat root = root"
    and l: "levels_ok tree nv root level \<and> (\<forall>k<nv. 0 \<le> tree ! k \<longrightarrow> 0 \<le> level ! k)"
  shows "certified tree level nv (nat root) IJ \<and> m = int (length (filter (inside tree nv) IJ))"
proof -
  let ?E = "edges_inv tree level nv IJ"
  have nn: "nat (int nv - 1 + 1) = nv" by simp
  from v obtain sn s1 s2 where
    sn: "for_up 0 nv (\<lambda>k sn. aset sn k 0) (replicate nv 0) = Some sn"
    and s1: "for_up 0 (length IJ) (edge_step tree level (int nv - 1) IJ) \<lparr>verr = 0, vterr = 0, traversed = 0, seen = sn\<rparr> = Some s1"
    and s2: "(if vterr s1 = 0 then for_up 0 nv (root_step tree root) s1 else Some s1) = Some s2"
    and m2: "Some (if verr s2 \<noteq> 0 then verr s2 else traversed s2) = Some m"
    unfolding verify_passes_def nn by (elim bind_SomeE) (rule that)
  have "length sn = nv \<and> (\<forall>k<nv. sn ! k = (0 :: int))"
    by (rule for_up_Some_inv [where P = "\<lambda>j sn. length sn = nv \<and> (\<forall>k<nv. sn ! k = (0 :: int))", OF sn])
      (auto simp: nth_list_update)
  then have e0: "?E 0 \<lparr>verr = 0, vterr = 0, traversed = 0, seen = sn\<rparr>" by (simp add: edges_inv_def)
  have e1: "?E (length IJ) s1"
    by (rule for_up_Some_inv [where P = ?E, OF s1 e0]) (rule edge_step_inv)
  then have e1': "verr s1 \<le> 0" "vterr s1 = verr s1" by (simp_all add: edges_inv_def)
  have v1: "verr s1 = 0"
  proof (rule ccontr)
    assume "verr s1 \<noteq> 0"
    with s2 e1' have "s2 = s1" by simp
    with \<open>verr s1 \<noteq> 0\<close> m2 m e1' show False by simp
  qed
  with s2 e1' have rl: "for_up 0 nv (root_step tree root) s1 = Some s2" by simp
  note R = root_loop [OF rl e1'(1)]
  have v2: "verr s2 = 0" using R m2 m by (cases "verr s2 = 0") simp_all
  have E: "\<forall>e\<in>set IJ. edge_fine tree level nv e" "traversed s1 = int (length (filter (inside tree nv) IJ))"
    "\<forall>x<nv. seen s1 ! x \<noteq> 0 \<longrightarrow> (\<exists>e\<in>set IJ. 0 \<le> tree ! x \<and> joins e x (nat (tree ! x)))"
    using e1 v1 by (auto simp: edges_inv_def)
  have "adj IJ k (nat (tree ! k))" if "k < nv" "k \<noteq> nat root" "0 \<le> tree ! k" for k
  proof -
    have "seen s1 ! k \<noteq> 0" using R v2 that r by auto
    with E(3) that show ?thesis by (auto simp: adj_def)
  qed
  then show ?thesis using E(1,2) R v2 m2 r l by (auto simp: certified_def)
qed

lemma verify_certified:
  assumes v: "verify_bfs_tree tree mx root IJ (length IJ) = Some m" and m: "0 \<le> m"
  shows "\<exists>level. 0 \<le> root \<and> root \<le> mx \<and> certified tree level (nat (mx + 1)) (nat root) IJ \<and>
    m = int (length (filter (inside tree (nat (mx + 1))) IJ))"
proof -
  have rm: "root \<le> mx" using v m by (cases "mx < root") (simp_all add: verify_bfs_tree_def)
  then obtain tr where ge: "geti tree root = Some tr" and tr: "tr = root"
    and v': "do { (err, level) \<leftarrow> compute_levels (replicate (nat (mx + 1)) 0) (mx + 1) tree root;
      if err \<noteq> 0 then Some err else verify_passes tree level mx root IJ (length IJ) (replicate (nat (mx + 1)) 0) } = Some m"
    using v m by (auto simp: verify_bfs_tree_def Let_def elim!: bind_SomeE split: if_split_asm)
  have r: "0 \<le> root" "tree ! nat root = root" using ge tr by (simp_all add: geti_Some)
  define nv where "nv = nat (mx + 1)"
  have mx: "mx = int nv - 1" "nat root < nv" using rm r(1) by (simp_all add: nv_def)
  have nn: "nat (mx + 1) = nv" "mx + 1 = int nv" using mx(1) by simp_all
  from v' obtain err level where cl: "compute_levels (replicate nv 0) (int nv) tree root = Some (err, level)"
    and p: "(if err \<noteq> 0 then Some err else verify_passes tree level (int nv - 1) root IJ (length IJ) (replicate nv 0)) = Some m"
    unfolding nn unfolding mx(1) nat_int by (elim bind_SomeE) (auto split del: if_split)
  have "err = 0" using compute_levels_err [OF cl] p m by (auto split: if_splits)
  with cl p compute_levels_ok [of nv tree root level] r(1) mx(2)
    verify_passes_certified [of tree level nv root IJ m] m r(2)
  show ?thesis using rm r(1) by (auto simp: mx(1))
qed

section \<open>Soundness\<close>

text \<open>
  C30: An accepted tree is a breadth-first tree. When \<open>verify_bfs_tree\<close> returns a count \<open>m\<close> that is not negative, for an
  edge list of its full length: exactly the vertices that the root reaches have a parent entry; every
  such vertex but the root is joined by an edge to its parent, which is one step closer to the root (the
  depth in the tree is the length of a shortest path); and \<open>m\<close> is the number of edges, self-loops and
  repetitions included, inside the component of the root.
\<close>

theorem verified_tree_is_bfs_tree:
  assumes "verify_bfs_tree tree mx root IJ (length IJ) = Some m" "0 \<le> m"
  shows "0 \<le> root \<and> root \<le> mx \<and>
    (\<forall>v. reach IJ (nat root) v \<longleftrightarrow> int v \<le> mx \<and> 0 \<le> tree ! v) \<and>
    (\<forall>v. reach IJ (nat root) v \<longrightarrow> v \<noteq> nat root \<longrightarrow> adj IJ v (nat (tree ! v)) \<and>
       (\<exists>d. dist IJ (nat root) (nat (tree ! v)) d \<and> dist IJ (nat root) v (Suc d))) \<and>
    m = int (length (filter (\<lambda>e. reach IJ (nat root) (src e)) IJ))"
proof -
  let ?r = "nat root" and ?nv = "nat (mx + 1)"
  from verify_certified [OF assms] obtain level where r: "0 \<le> root" "root \<le> mx" and c: "certified tree level ?nv ?r IJ"
    and m: "m = int (length (filter (inside tree ?nv) IJ))" by blast
  have nv: "v < ?nv \<longleftrightarrow> int v \<le> mx" for v by auto
  note reach = certified_reach [OF c]
  have "inside tree ?nv = (\<lambda>e. reach IJ ?r (src e))" by (simp add: fun_eq_iff inside_def reach)
  then show ?thesis using r m certified_is_bfs_tree [OF c] nv by (auto simp: is_bfs_tree_def)
qed

definition sample_edges :: "packed_edge list" where
  "sample_edges = [\<lparr>v0 = 0, v1 = 1\<rparr>, \<lparr>v0 = 1, v1 = 2\<rparr>, \<lparr>v0 = 2, v1 = 0\<rparr>, \<lparr>v0 = 3, v1 = 2\<rparr>]"

theorem verified_tree_is_bfs_tree_witness:
  "verify_bfs_tree [0, 0, 0, 2] 3 0 sample_edges (length sample_edges) = Some 4 \<and> reach sample_edges 0 3"
proof -
  have v: "verify_bfs_tree [0, 0, 0, 2] 3 0 sample_edges (length sample_edges) = Some 4" by code_simp
  from verified_tree_is_bfs_tree [OF v] v show ?thesis by simp
qed

end
