(* ===== verification/Scramble.thy ===== *)
theory Scramble
  imports Prelude
begin

text \<open>
  The scrambling of vertex numbers in \<open>sources/graph500/generator/graph_generator.c\<close>: \<open>bitreverse\<close>, in its 64-bit and its
  32-bit version, and \<open>scramble\<close>. A failed \<open>assert\<close> and an undefined shift are \<open>None\<close>. The two versions of the
  bit reversal agree, and the scrambling is a permutation of the vertices.
\<close>

section \<open>Scrambling\<close>

text \<open>\<open>__builtin_bswap64\<close>: the bytes in reverse order.\<close>

definition bswap64 :: "u64 \<Rightarrow> u64" where
  "bswap64 x = push_bit 56 (take_bit 8 x) OR push_bit 48 (take_bit 8 (drop_bit 8 x))
     OR push_bit 40 (take_bit 8 (drop_bit 16 x)) OR push_bit 32 (take_bit 8 (drop_bit 24 x))
     OR push_bit 24 (take_bit 8 (drop_bit 32 x)) OR push_bit 16 (take_bit 8 (drop_bit 40 x))
     OR push_bit 8 (take_bit 8 (drop_bit 48 x)) OR take_bit 8 (drop_bit 56 x)"

definition swap_bits :: "nat \<Rightarrow> 'a::len word \<Rightarrow> 'a word \<Rightarrow> 'a word" where
  "swap_bits s m x = (drop_bit s x AND m) OR push_bit s (x AND m)"

definition bitreverse :: "u64 \<Rightarrow> u64" where
  "bitreverse x = (let x = bswap64 x; x = swap_bits 4 0x0F0F0F0F0F0F0F0F x;
      x = swap_bits 2 0x3333333333333333 x; x = swap_bits 1 0x5555555555555555 x in x)"

definition bswap32 :: "u32 \<Rightarrow> u32" where
  "bswap32 x = push_bit 24 (take_bit 8 x) OR push_bit 16 (take_bit 8 (drop_bit 8 x))
     OR push_bit 8 (take_bit 8 (drop_bit 16 x)) OR take_bit 8 (drop_bit 24 x)"

text \<open>The 32-bit code reverses the two halves and exchanges them.\<close>

definition bitreverse_half :: "u32 \<Rightarrow> u32" where
  "bitreverse_half h = (let h = bswap32 h; h = swap_bits 4 0x0F0F0F0F h; h = swap_bits 2 0x33333333 h;
      h = swap_bits 1 0x55555555 h in h)"

definition bitreverse32 :: "u64 \<Rightarrow> u64" where
  "bitreverse32 x = (let h = ucast (drop_bit 32 x); l = ucast (x AND 0xFFFFFFFF);
      h = bitreverse_half h; l = bitreverse_half l in push_bit 32 (ucast l) OR ucast h)"

text \<open>A shift by the width or more is undefined.\<close>

definition shr :: "u64 \<Rightarrow> nat \<Rightarrow> u64 option" where
  "shr x n = (if n < 64 then Some (drop_bit n x) else None)"

definition check_top :: "u64 \<Rightarrow> nat \<Rightarrow> unit option" where
  "check_top v lgN = do { t \<leftarrow> shr v lgN; if t = 0 then Some () else None }"

definition scramble :: "u64 \<Rightarrow> nat \<Rightarrow> u64 \<Rightarrow> u64 \<Rightarrow> u64 option" where
  "scramble vtx lgN val0 val1 = do {
     let v = vtx;
     let v = v + (val0 + val1);
     let v = v * (val0 OR 0x4519840211493211);
     v \<leftarrow> shr (bitreverse v) (64 - lgN);
     check_top v lgN;
     let v = v * (val1 OR 0x3050852102C843A5);
     v \<leftarrow> shr (bitreverse v) (64 - lgN);
     check_top v lgN;
     Some v }"

section \<open>Bit reversal\<close>

definition swap_pos :: "nat \<Rightarrow> nat \<Rightarrow> nat" where
  "swap_pos s n = (if even (n div s) then n + s else n - s)"

lemma bit_swap_bits:
  fixes x :: "'a::len word"
  assumes m: "\<forall>n<l. bit m n = even (n div s)" and l: "l = LENGTH('a)" and s: "0 < s" and n: "n < LENGTH('a)"
  shows "bit (swap_bits s m x) n = bit x (swap_pos s n)"
proof (cases "even (n div s)")
  case True
  have "\<not> (s \<le> n \<and> bit m (n - s))"
  proof
    assume a: "s \<le> n \<and> bit m (n - s)"
    then have "even ((n - s) div s)" using m n l by simp
    moreover have "n div s = Suc ((n - s) div s)" using a s by (simp add: le_div_geq)
    ultimately show False using True by simp
  qed
  then show ?thesis using True m n l by (auto simp: swap_bits_def swap_pos_def bit_simps add.commute)
next
  case False
  then have sn: "s \<le> n" by (metis div_less even_zero not_le)
  then have "n div s = Suc ((n - s) div s)" using s by (simp add: le_div_geq)
  then have "bit m (n - s)" using m n l False by simp
  then show ?thesis using False m n l sn by (auto simp: swap_bits_def swap_pos_def bit_simps)
qed


lemma bit_byte:
  fixes x :: "'a::len word"
  assumes "8 dvd a" and n: "n < LENGTH('a)"
  shows "bit (push_bit a (take_bit 8 (drop_bit b x))) n \<longleftrightarrow> n div 8 = a div 8 \<and> bit x (b + n mod 8)"
proof -
  from assms obtain k where a: "a = 8 * k" by auto
  have "n = 8 * (n div 8) + n mod 8" "n mod 8 < 8" by simp_all
  then obtain q r where qr: "n = 8 * q + r" "r < 8" "q = n div 8" "r = n mod 8" by blast
  have b: "bit (push_bit a (take_bit 8 (drop_bit b x))) n \<longleftrightarrow> (8 * k \<le> n \<and> n - 8 * k < 8) \<and> bit x (b + (n - 8 * k))"
    using n unfolding a by (auto simp: bit_push_bit_iff bit_take_bit_iff bit_drop_bit_eq)
  have i: "8 * k \<le> n \<and> n - 8 * k < 8 \<longleftrightarrow> q = k" using qr(1,2) by linarith
  show ?thesis unfolding b i using qr(1,2) by (auto simp: a)
qed

lemma less8_cases: "(k::nat) < 8 \<Longrightarrow> k = 0 \<or> k = 1 \<or> k = 2 \<or> k = 3 \<or> k = 4 \<or> k = 5 \<or> k = 6 \<or> k = 7"
  by auto

lemma bit_bswap64:
  assumes n: "n < 64"
  shows "bit (bswap64 x) n = bit x (8 * (7 - n div 8) + n mod 8)"
proof -
  have b: "bit (bswap64 x) n \<longleftrightarrow>
      n div 8 = 7 \<and> bit x (n mod 8) \<or> n div 8 = 6 \<and> bit x (8 + n mod 8) \<or> n div 8 = 5 \<and> bit x (16 + n mod 8) \<or>
      n div 8 = 4 \<and> bit x (24 + n mod 8) \<or> n div 8 = 3 \<and> bit x (32 + n mod 8) \<or> n div 8 = 2 \<and> bit x (40 + n mod 8) \<or>
      n div 8 = 1 \<and> bit x (48 + n mod 8) \<or> n div 8 = 0 \<and> bit x (56 + n mod 8)"
    using n bit_byte [of 56 n 0 x] bit_byte [of 0 n 56 x]
    by (simp add: bswap64_def bit_or_iff bit_byte)
  have "n div 8 < 8" using n by simp
  from less8_cases [OF this] show ?thesis unfolding b by (elim disjE) simp_all
qed

lemma bit_bswap32:
  assumes n: "n < 32"
  shows "bit (bswap32 x) n = bit x (8 * (3 - n div 8) + n mod 8)"
proof -
  have b: "bit (bswap32 x) n \<longleftrightarrow>
      n div 8 = 3 \<and> bit x (n mod 8) \<or> n div 8 = 2 \<and> bit x (8 + n mod 8) \<or>
      n div 8 = 1 \<and> bit x (16 + n mod 8) \<or> n div 8 = 0 \<and> bit x (24 + n mod 8)"
    using n bit_byte [of 24 n 0 x] bit_byte [of 0 n 24 x]
    by (simp add: bswap32_def bit_or_iff bit_byte)
  have "n div 8 < 4" using n by simp
  then have "n div 8 = 0 \<or> n div 8 = 1 \<or> n div 8 = 2 \<or> n div 8 = 3" by linarith
  then show ?thesis unfolding b by (elim disjE) simp_all
qed

lemma bit_bitreverse: "n < 64 \<Longrightarrow> bit (bitreverse x) n = bit x (63 - n)"
proof -
  assume n: "n < 64"
  have m: "\<forall>n<64. bit (0x0F0F0F0F0F0F0F0F :: u64) n = even (n div 4)"
    "\<forall>n<64. bit (0x3333333333333333 :: u64) n = even (n div 2)"
    "\<forall>n<64. bit (0x5555555555555555 :: u64) n = even (n div 1)"
    by code_simp+
  have p: "\<forall>n<64. swap_pos 1 n < 64 \<and> swap_pos 2 (swap_pos 1 n) < 64 \<and> swap_pos 4 (swap_pos 2 (swap_pos 1 n)) < 64 \<and>
     (let k = swap_pos 4 (swap_pos 2 (swap_pos 1 n)) in 8 * (7 - k div 8) + k mod 8 = 63 - n)"
    by code_simp
  then show ?thesis using n
    by (simp add: bitreverse_def bit_swap_bits [OF m(1)] bit_swap_bits [OF m(2)] bit_swap_bits [OF m(3)] bit_bswap64 Let_def del: One_nat_def)
qed

lemma bit_bitreverse_half: "n < 32 \<Longrightarrow> bit (bitreverse_half x) n = bit x (31 - n)"
proof -
  assume n: "n < 32"
  have m: "\<forall>n<32. bit (0x0F0F0F0F :: u32) n = even (n div 4)"
    "\<forall>n<32. bit (0x33333333 :: u32) n = even (n div 2)"
    "\<forall>n<32. bit (0x55555555 :: u32) n = even (n div 1)"
    by code_simp+
  have p: "\<forall>n<32. swap_pos 1 n < 32 \<and> swap_pos 2 (swap_pos 1 n) < 32 \<and> swap_pos 4 (swap_pos 2 (swap_pos 1 n)) < 32 \<and>
     (let k = swap_pos 4 (swap_pos 2 (swap_pos 1 n)) in 8 * (3 - k div 8) + k mod 8 = 31 - n)"
    by code_simp
  then show ?thesis using n
    by (simp add: bitreverse_half_def bit_swap_bits [OF m(1)] bit_swap_bits [OF m(2)] bit_swap_bits [OF m(3)] bit_bswap32 Let_def del: One_nat_def)
qed

lemma bitreverse32_eq: "bitreverse32 x = bitreverse x"
proof (rule bit_word_eqI)
  fix n :: nat
  assume n: "n < LENGTH(64)"
  have m: "(0xFFFFFFFF :: u64) = mask 32" by (simp add: mask_eq_exp_minus_1)
  show "bit (bitreverse32 x) n = bit (bitreverse x) n"
  proof (cases "n < 32")
    case True
    then have "32 + (31 - n) = 63 - n" "31 - n < 32" by simp_all
    then show ?thesis using True n
      by (simp add: bitreverse32_def Let_def bit_or_iff bit_push_bit_iff bit_ucast_iff bit_drop_bit_eq bit_bitreverse bit_bitreverse_half)
  next
    case False
    then have "31 - (n - 32) = 63 - n" "63 - n < 32" "n - 32 < 64" using n by auto
    moreover have "\<not> bit (ucast (bitreverse_half (ucast (drop_bit 32 x))) :: u64) n"
      using False bit_imp_le_length [of "bitreverse_half (ucast (drop_bit 32 x))" n] by (auto simp: bit_ucast_iff)
    ultimately show ?thesis using False n
      by (simp add: bitreverse32_def Let_def m bit_or_iff bit_and_iff bit_mask_iff bit_push_bit_iff bit_ucast_iff bit_bitreverse bit_bitreverse_half)
  qed
qed

text \<open>
  C35: the 64-bit and the 32-bit code of \<open>bitreverse\<close> compute the same function, and it is the reversal of the 64 bits of the word.
\<close>

theorem bitreverse_reverses: "bitreverse x = word_reverse x \<and> bitreverse32 x = word_reverse x"
proof -
  have "bitreverse x = word_reverse x"
    by (rule bit_word_eqI) (simp add: bit_bitreverse bit_word_reverse_iff)
  then show ?thesis by (simp add: bitreverse32_eq)
qed

section \<open>The permutation\<close>

text \<open>The reversed top \<open>k\<close> bits: what one half of \<open>scramble\<close> makes of its argument.\<close>

lemma unat_reverse_bound: "0 < k \<Longrightarrow> k \<le> 64 \<Longrightarrow> unat (drop_bit (64 - k) (bitreverse v)) < 2 ^ k"
proof -
  assume k: "0 < k" "k \<le> 64"
  have "unat (bitreverse v) < 2 ^ (64 - k) * 2 ^ k"
    using unsigned_less [of "bitreverse v"] k by (simp flip: power_add)
  then show ?thesis by (simp add: unat_drop_bit_eq less_mult_imp_div_less mult.commute drop_bit_eq_div [where 'a = nat])
qed

lemma reverse_inj:
  assumes e: "drop_bit (64 - k) (bitreverse v) = drop_bit (64 - k) (bitreverse w)" and k: "k \<le> 64"
  shows "take_bit k v = take_bit k w"
proof (rule bit_word_eqI)
  fix n :: nat
  assume "n < LENGTH(64)"
  have "bit v n = bit w n" if "n < k"
  proof -
    have "bit (drop_bit (64 - k) (bitreverse v)) (k - 1 - n) = bit (drop_bit (64 - k) (bitreverse w)) (k - 1 - n)"
      by (simp add: e)
    moreover have "64 - k + (k - 1 - n) = 63 - n" "63 - n < 64" "63 - (63 - n) = n" using that k by simp_all
    ultimately show ?thesis by (simp add: bit_drop_bit_eq bit_bitreverse)
  qed
  then show "bit (take_bit k v) n = bit (take_bit k w) n" by (auto simp: bit_take_bit_iff)
qed

lemma take_bit_eq_iff_unat: "take_bit k v = take_bit k w \<longleftrightarrow> uint v mod 2 ^ k = uint w mod 2 ^ k" for v w :: u64
  by (simp add: word_uint_eq_iff unsigned_take_bit_eq take_bit_eq_mod [where 'a = int])

lemma take_bit_odd_mult:
  fixes c v w :: u64
  assumes k: "k \<le> 64" and c: "odd c" and e: "take_bit k (v * c) = take_bit k (w * c)"
  shows "take_bit k v = take_bit k w"
proof -
  have d: "(2::int) ^ k dvd 2 ^ 64" using k by (rule le_imp_power_dvd)
  have "odd (uint c)" using c by (simp flip: bit_0 add: bit_uint_iff)
  then have "coprime (2 ^ k) (uint c)" by simp
  moreover have "(uint v * uint c) mod 2 ^ k = (uint w * uint c) mod 2 ^ k"
    using e d unfolding take_bit_eq_iff_unat uint_word_ariths by (simp add: mod_mod_cancel)
  then have "2 ^ k dvd (uint v - uint w) * uint c" by (simp add: mod_eq_dvd_iff left_diff_distrib)
  ultimately have "2 ^ k dvd uint v - uint w" by (simp add: coprime_dvd_mult_left_iff)
  then show ?thesis unfolding take_bit_eq_iff_unat by (simp add: mod_eq_dvd_iff)
qed

lemma take_bit_add_cancel:
  fixes a v w :: u64
  assumes k: "k \<le> 64" and e: "take_bit k (v + a) = take_bit k (w + a)"
  shows "take_bit k v = take_bit k w"
proof -
  have d: "(2::int) ^ k dvd 2 ^ 64" using k by (rule le_imp_power_dvd)
  have "(uint v + uint a) mod 2 ^ k = (uint w + uint a) mod 2 ^ k"
    using e d unfolding take_bit_eq_iff_unat uint_word_ariths by (simp add: mod_mod_cancel)
  then show ?thesis unfolding take_bit_eq_iff_unat by (simp add: mod_eq_dvd_iff)
qed

lemma shr_reverse:
  assumes "0 < k" "k < 64"
  shows "shr (bitreverse v) (64 - k) = Some (drop_bit (64 - k) (bitreverse v))"
    and "check_top (drop_bit (64 - k) (bitreverse v)) k = Some ()"
proof -
  have "drop_bit k (drop_bit (64 - k) (bitreverse v)) = 0"
    using assms by (intro bit_word_eqI) (auto simp: bit_drop_bit_eq dest: bit_imp_le_length)
  then show "shr (bitreverse v) (64 - k) = Some (drop_bit (64 - k) (bitreverse v))"
    and "check_top (drop_bit (64 - k) (bitreverse v)) k = Some ()"
    using assms by (simp_all add: shr_def check_top_def)
qed

text \<open>Both halves of \<open>scramble\<close> are this function of the word, before the multiplier.\<close>

definition topbits :: "nat \<Rightarrow> u64 \<Rightarrow> u64" where
  "topbits k v = drop_bit (64 - k) (bitreverse v)"

lemma topbits_less: "0 < k \<Longrightarrow> k < 64 \<Longrightarrow> unat (topbits k v) < 2 ^ k"
  using unat_reverse_bound [of k v] by (simp add: topbits_def)

lemma scramble_eq:
  assumes "0 < k" "k < 64"
  shows "scramble v k a b = Some (topbits k (topbits k ((v + (a + b)) * (a OR 0x4519840211493211)) * (b OR 0x3050852102C843A5)))"
  using assms by (simp add: scramble_def shr_reverse topbits_def)

lemma odd_or: "odd c \<Longrightarrow> odd (b OR c)" for b c :: u64
  by (simp add: even_or_iff)

lemma topbits_mult_inj:
  assumes k: "k < 64" and c: "odd c" and e: "topbits k (v * c) = topbits k (w * c)"
  shows "take_bit k v = take_bit k w"
proof -
  have k: "k \<le> 64" using k by simp
  show ?thesis by (rule take_bit_odd_mult [OF k c reverse_inj [OF e [unfolded topbits_def] k]])
qed

lemma take_bit_id: "unat v < 2 ^ k \<Longrightarrow> k \<le> 64 \<Longrightarrow> take_bit k v = v" for v :: u64
  by (simp add: word_unat_eq_iff unsigned_take_bit_eq take_bit_nat_eq_self)

text \<open>
  C34: for every \<open>lgN\<close> between 1 and 63 and any two scrambling values, \<open>scramble\<close> fails no assertion and executes no undefined shift, and
  it is a permutation of the vertex numbers below \<open>2 ^ lgN\<close>: the generator renames vertices without merging any two of them.
\<close>

theorem scramble_permutes:
  assumes "0 < lgN" "lgN < 64"
  shows "\<exists>f. (\<forall>v. scramble v lgN val0 val1 = Some (f v)) \<and> bij_betw f {v. unat v < 2 ^ lgN} {v. unat v < 2 ^ lgN}"
proof -
  define f where "f v = topbits lgN (topbits lgN ((v + (val0 + val1)) * (val0 OR 0x4519840211493211)) * (val1 OR 0x3050852102C843A5))" for v
  have top: "unat (topbits lgN w) < 2 ^ lgN" for w
    using assms by (rule topbits_less)
  have "inj_on f {v. unat v < 2 ^ lgN}"
  proof (rule inj_onI)
    fix v w assume vw: "v \<in> {v. unat v < 2 ^ lgN}" "w \<in> {v. unat v < 2 ^ lgN}" and e: "f v = f w"
    have o: "odd (val0 OR 0x4519840211493211)" "odd (val1 OR 0x3050852102C843A5)" by (rule odd_or; simp)+
    have l: "lgN \<le> 64" using assms by simp
    have "take_bit lgN (topbits lgN ((v + (val0 + val1)) * (val0 OR 0x4519840211493211))) =
      take_bit lgN (topbits lgN ((w + (val0 + val1)) * (val0 OR 0x4519840211493211)))"
      using e unfolding f_def by (rule topbits_mult_inj [OF assms(2) o(2)])
    then have "take_bit lgN (v + (val0 + val1)) = take_bit lgN (w + (val0 + val1))"
      unfolding take_bit_id [OF top l] by (rule topbits_mult_inj [OF assms(2) o(1)])
    then have "take_bit lgN v = take_bit lgN w" by (rule take_bit_add_cancel [OF l])
    then show "v = w" using vw l by (simp only: mem_Collect_eq take_bit_id)
  qed
  moreover have "f ` {v. unat v < 2 ^ lgN} \<subseteq> {v. unat v < 2 ^ lgN}" using top by (auto simp: f_def)
  ultimately have "bij_betw f {v. unat v < 2 ^ lgN} {v. unat v < 2 ^ lgN}"
    by (simp add: bij_betw_def endo_inj_surj)
  then show ?thesis by (intro exI [of _ f] conjI allI) (simp_all only: scramble_eq [OF assms] f_def)
qed

theorem scramble_permutes_witness:
  "scramble 5 3 7 9 \<noteq> None \<and>
   (\<exists>f. (\<forall>v. scramble v 3 7 9 = Some (f v)) \<and> bij_betw f {v. unat v < 2 ^ 3} {v. unat v < 2 ^ 3})"
  using scramble_permutes [of 3 7 9] by auto

end
