(* ===== verification/Kronecker.thy ===== *)
theory Kronecker
  imports Mrg BfsVerify Scramble
begin

text \<open>
  The Kronecker graph generator of \<open>sources/graph500/generator/graph_generator.c\<close> and \<open>make_graph.c\<close>: the choice of a
  quadrant, the descent to one edge, the scrambling of vertex numbers and the loop over the edges. The
  retry of \<open>generate_4way_bernoulli\<close> is a partial function; a failed \<open>assert\<close>, an undefined shift and a
  retry without end are \<open>None\<close>. Generation is shown to return, with edges that depend on their index only.
\<close>

section \<open>Choosing a quadrant\<close>

definition INITIATOR_A_NUMERATOR :: u32 where "INITIATOR_A_NUMERATOR = 5700"
definition INITIATOR_BC_NUMERATOR :: u32 where "INITIATOR_BC_NUMERATOR = 1900"
definition INITIATOR_DENOMINATOR :: u32 where "INITIATOR_DENOMINATOR = 10000"

definition bernoulli_limit :: u32 where
  "bernoulli_limit = 0x7FFFFFFF mod INITIATOR_DENOMINATOR"

text \<open>\<open>do { val = mrg_get_uint_orig(st); } while (val < limit);\<close>\<close>

partial_function (option) bernoulli_retry :: "mrg_state \<Rightarrow> (u32 \<times> mrg_state) option" where
  "bernoulli_retry st = do {
     (v, st) \<leftarrow> mrg_get_uint_orig st;
     let val = ucast v;
     if val < bernoulli_limit then bernoulli_retry st else Some (val, st) }"

definition quadrant :: "u32 \<Rightarrow> int" where
  "quadrant val =
     (let bc = INITIATOR_BC_NUMERATOR; val = val mod INITIATOR_DENOMINATOR in
      if val < bc then 1
      else (let val = val - bc in
        if val < bc then 2
        else (let val = val - bc in if val < INITIATOR_A_NUMERATOR then 0 else 3)))"

definition generate_4way_bernoulli :: "mrg_state \<Rightarrow> (int \<times> mrg_state) option" where
  "generate_4way_bernoulli st = do {
     (v, st) \<leftarrow> mrg_get_uint_orig st;
     (val, st) \<leftarrow> (if (ucast v :: u32) < bernoulli_limit then bernoulli_retry st else Some (ucast v, st));
     Some (quadrant val, st) }"

section \<open>Edges\<close>

function edge_descent :: "int \<Rightarrow> int \<Rightarrow> int \<Rightarrow> mrg_state \<Rightarrow> (int \<times> int \<times> mrg_state) option" where
  "edge_descent nverts base_src base_tgt st =
     (if 1 < nverts then do {
        (square, st) \<leftarrow> generate_4way_bernoulli st;
        let src_offset = square div 2;
        let tgt_offset = square mod 2;
        if base_src \<le> base_tgt then do {
          let (src_offset, tgt_offset) =
            (if base_src = base_tgt \<and> tgt_offset < src_offset then (tgt_offset, src_offset) else (src_offset, tgt_offset));
          let nverts = nverts div 2;
          edge_descent nverts (base_src + nverts * src_offset) (base_tgt + nverts * tgt_offset) st }
        else None }
      else Some (base_src, base_tgt, st))"
  by pat_completeness auto
termination by (relation "measure (\<lambda>(n, _, _, _). nat n)") auto

declare edge_descent.simps [simp del]

definition make_one_edge :: "int \<Rightarrow> nat \<Rightarrow> mrg_state \<Rightarrow> u64 \<Rightarrow> u64 \<Rightarrow> (packed_edge \<times> mrg_state) option" where
  "make_one_edge nverts lgN st val0 val1 = do {
     (base_src, base_tgt, st) \<leftarrow> edge_descent nverts 0 0 st;
     a \<leftarrow> scramble (word_of_int base_src) lgN val0 val1;
     b \<leftarrow> scramble (word_of_int base_tgt) lgN val0 val1;
     Some (write_edge (sint a) (sint b), st) }"

text \<open>The two values for scrambling, from a state far away in the stream.\<close>

definition scramble_values :: "mrg_state \<Rightarrow> (u64 \<times> u64) option" where
  "scramble_values state = do {
     st \<leftarrow> mrg_skip state 50 7 0;
     (x, st) \<leftarrow> mrg_get_uint_orig st;
     let val0 = x * 0xFFFFFFFF;
     (x, st) \<leftarrow> mrg_get_uint_orig st;
     let val0 = val0 + x;
     (x, st) \<leftarrow> mrg_get_uint_orig st;
     let val1 = x * 0xFFFFFFFF;
     (x, st) \<leftarrow> mrg_get_uint_orig st;
     let val1 = val1 + x;
     Some (val0, val1) }"

definition generate_kronecker_range :: "u64 list \<Rightarrow> nat \<Rightarrow> nat \<Rightarrow> nat \<Rightarrow> packed_edge list \<Rightarrow> packed_edge list option" where
  "generate_kronecker_range seed logN start_edge end_edge edges = (if 63 \<le> logN then None else do {
     let nverts = 2 ^ logN;
     state \<leftarrow> mrg_seed seed;
     (val0, val1) \<leftarrow> scramble_values state;
     for_up start_edge end_edge (\<lambda>ei edges. do {
       new_state \<leftarrow> mrg_skip state 0 (word_of_nat ei) 0;
       (e, _) \<leftarrow> make_one_edge nverts logN new_state val0 val1;
       aset edges (ei - start_edge) e }) edges })"

text \<open>\<open>1 << logN\<close> is defined in \<open>int64_t\<close> for \<open>logN\<close> below 63. In \<open>make_graph\<close> the edge array is allocated zeroed.\<close>

definition make_graph :: "nat \<Rightarrow> nat \<Rightarrow> u64 \<Rightarrow> u64 \<Rightarrow> (nat \<times> packed_edge list) option" where
  "make_graph log_numverts M userseed1 userseed2 = do {
     let seed = make_mrg_seed userseed1 userseed2;
     let edges = replicate M \<lparr>v0 = 0, v1 = 0\<rparr>;
     edges \<leftarrow> generate_kronecker_range seed log_numverts 0 M edges;
     Some (M, edges) }"

text \<open>The version for several processes: each generates its share.\<close>

definition compute_edge_range :: "nat \<Rightarrow> nat \<Rightarrow> nat \<Rightarrow> nat \<times> nat" where
  "compute_edge_range rank sz M =
     (rank * (M div sz) + (if rank < M mod sz then rank else M mod sz),
      (rank + 1) * (M div sz) + (if rank + 1 < M mod sz then rank + 1 else M mod sz))"

definition make_graph_mpi :: "nat \<Rightarrow> nat \<Rightarrow> nat \<Rightarrow> nat \<Rightarrow> u64 \<Rightarrow> u64 \<Rightarrow> (nat \<times> packed_edge list) option" where
  "make_graph_mpi rank sz log_numverts M userseed1 userseed2 = do {
     let seed = make_mrg_seed userseed1 userseed2;
     let (start_idx, end_idx) = compute_edge_range rank sz M;
     let nedges = end_idx - start_idx;
     edges \<leftarrow> generate_kronecker_range seed log_numverts start_idx end_idx (replicate nedges \<lparr>v0 = 0, v1 = 0\<rparr>);
     Some (nedges, edges) }"

section \<open>The retry ends\<close>

text \<open>Two small numbers are followed by a small one only if they are zero.\<close>

lemma small_step:
  fixes z w :: nat
  assumes z: "z < 3647" and w: "w < 3647" and r: "(107374182 * z + 104480 * w) mod P31 < 3647"
  shows "z = 0 \<and> w = 0"
proof -
  define a b where "a = int (z div 20)" and "b = int (z mod 20)"
  have "z = 20 * (z div 20) + z mod 20" by simp
  then have zab: "int z = 20 * a + b" unfolding a_def b_def by linarith
  have ab: "0 \<le> a" "0 \<le> b" "b < 20" "a \<le> 182" using z by (auto simp: a_def b_def)
  define n where "n = 107374182 * z + 104480 * w"
  define k where "k = int (n div P31) - a"
  define m where "m = int (n mod P31)"
  have m: "0 \<le> m" "m < 3647" using r by (simp_all add: m_def n_def)
  have "n = P31 * (n div P31) + n mod P31" by simp
  then have "int n = int P31 * (k + a) + m" unfolding k_def m_def by (metis diff_add_cancel of_nat_add of_nat_mult)
  then have "107374182 * int z + 104480 * int w = 2147483647 * (k + a) + m" by (simp add: n_def P31_def)
  then have e: "107374182 * b - 7 * a + 104480 * int w = 2147483647 * k + m" unfolding zab by (simp add: algebra_simps)
  then have "k = 0 \<or> k = 1" using zab ab m w by linarith
  moreover have False if "k = 1"
  proof -
    from that e zab ab m w have "16 < b" by linarith
    then have "b = 17 \<or> b = 18 \<or> b = 19" using ab by linarith
    moreover have "w \<le> 1027 \<or> 1028 \<le> w \<and> w \<le> 2055 \<or> 2056 \<le> w \<and> w \<le> 3083 \<or> 3084 \<le> w" by linarith
    ultimately show False using that e ab m by (elim disjE conjE; linarith)
  qed
  moreover have "z = 0 \<and> w = 0" if "k = 0"
  proof -
    from that e zab ab m w have "b = 0" by linarith
    moreover from this that e zab ab m have "w = 0" by linarith
    moreover from calculation that e zab ab m have "a = 0" by linarith
    ultimately show ?thesis using zab by simp
  qed
  ultimately show ?thesis by blast
qed

definition valid :: "mrg_state \<Rightarrow> bool" where
  "valid st \<longleftrightarrow> state_ok st \<and> \<not> (z1 st = 0 \<and> z2 st = 0 \<and> z3 st = 0 \<and> z4 st = 0 \<and> z5 st = 0)"

lemma z1_next: "unat (z1 (next_state st)) = (107374182 * unat (z1 st) + 104480 * unat (z5 st)) mod P31"
  by (simp add: next_state_def)

lemma valid_next: "valid st \<Longrightarrow> valid (next_state st)"
proof -
  assume v: "valid st"
  have "unat (z5 st) = 0" if d: "P31 dvd 104480 * unat (z5 st)"
  proof -
    have "1840344978 * (104480 * unat (z5 st)) = P31 * (89537 * unat (z5 st)) + unat (z5 st)" by (simp add: P31_def)
    moreover have "P31 dvd 1840344978 * (104480 * unat (z5 st))" using d by (rule dvd_mult)
    ultimately have "P31 dvd unat (z5 st)" by (metis dvd_add_right_iff dvd_triv_left)
    moreover have "unat (z5 st) < P31" using v by (simp add: valid_def state_ok_def arg_ok_unat)
    ultimately show ?thesis by (meson dvd_imp_le gr0I not_less)
  qed
  then show ?thesis using v z1_next [of st] by (auto simp: valid_def unat_eq_0 mod_eq_0_iff_dvd)
qed

lemma valid_iter: "valid st \<Longrightarrow> valid ((next_state ^^ n) st)"
  by (induction n) (simp_all add: valid_next)

text \<open>Among the next ten draws one is accepted.\<close>

lemma iter_shift:
  "z2 ((next_state ^^ (k + 4)) st) = z1 ((next_state ^^ (k + 3)) st)"
  "z3 ((next_state ^^ (k + 4)) st) = z1 ((next_state ^^ (k + 2)) st)" "z4 ((next_state ^^ (k + 4)) st) = z1 ((next_state ^^ (k + 1)) st)"
  "z5 ((next_state ^^ (k + 4)) st) = z1 ((next_state ^^ k) st)"
  by (simp_all add: numeral_eq_Suc)

lemma z1_iter: "unat (z1 ((next_state ^^ (k + 5)) st)) =
    (107374182 * unat (z1 ((next_state ^^ (k + 4)) st)) + 104480 * unat (z1 ((next_state ^^ k) st))) mod P31"
proof -
  have "(next_state ^^ (k + 5)) st = next_state ((next_state ^^ (k + 4)) st)"
    by (simp add: numeral_eq_Suc)
  then show ?thesis by (simp only: z1_next iter_shift(4))
qed

lemma draw_accepted:
  assumes v: "valid st"
  shows "\<exists>k\<le>10. 1 \<le> k \<and> 3647 \<le> unat (z1 ((next_state ^^ k) st))"
proof (rule ccontr)
  let ?d = "\<lambda>k. unat (z1 ((next_state ^^ k) st))"
  assume "\<not> ?thesis"
  then have small: "?d k < 3647" if "1 \<le> k" "k \<le> 10" for k using that by (meson not_less)
  have zero: "?d (k + 4) = 0" if "1 \<le> k" "k \<le> 5" for k
    using small_step [of "?d (k + 4)" "?d k"] small [of "k + 4"] small [of k] small [of "k + 5"] that
    by (simp add: z1_iter)
  have "z1 ((next_state ^^ 9) st) = 0" "z2 ((next_state ^^ 9) st) = 0" "z3 ((next_state ^^ 9) st) = 0"
    "z4 ((next_state ^^ 9) st) = 0" "z5 ((next_state ^^ 9) st) = 0"
    using zero [of 1] zero [of 2] zero [of 3] zero [of 4] zero [of 5] iter_shift [of 5 st] by (simp_all add: unat_eq_0)
  with valid_iter [OF v, of 9] show False by (simp add: valid_def)
qed

lemma get_uint_valid: "valid st \<Longrightarrow> mrg_get_uint_orig st = Some (z1 (next_state st), next_state st)"
  by (simp add: mrg_get_uint_orig_def mrg_orig_step_ok valid_def)

lemma below_limit:
  assumes "valid st"
  shows "(ucast (z1 st) :: u32) < bernoulli_limit \<longleftrightarrow> unat (z1 st) < 3647"
proof -
  have "unat (z1 st) < P31" using assms by (simp add: valid_def state_ok_def arg_ok_unat)
  then have "unat (ucast (z1 st) :: u32) = unat (z1 st)" by (simp add: unsigned_ucast_eq take_bit_nat_eq_self P31_def)
  moreover have "unat bernoulli_limit = 3647" by code_simp
  ultimately show ?thesis by (simp add: word_less_nat_alt)
qed

lemma retry_step: "valid st \<Longrightarrow> bernoulli_retry st =
    (if unat (z1 (next_state st)) < 3647 then bernoulli_retry (next_state st) else Some (ucast (z1 (next_state st)), next_state st))"
  by (subst bernoulli_retry.simps) (simp add: get_uint_valid below_limit valid_next)

lemma retry_returns:
  assumes "valid st" "1 \<le> k" "3647 \<le> unat (z1 ((next_state ^^ k) st))"
  shows "\<exists>val st'. bernoulli_retry st = Some (val, st') \<and> valid st'"
  using assms
proof (induction k arbitrary: st)
  case (Suc k)
  show ?case
  proof (cases "unat (z1 (next_state st)) < 3647")
    case True
    then have "1 \<le> k" using Suc.prems(3) by (cases k) simp_all
    moreover have "(next_state ^^ Suc k) st = (next_state ^^ k) (next_state st)" by (simp only: funpow_swap1 funpow.simps o_apply)
    ultimately show ?thesis using True Suc.prems Suc.IH [of "next_state st"] by (simp only: valid_next retry_step if_True)
  next
    case False
    then show ?thesis using Suc.prems by (simp add: retry_step valid_next)
  qed
qed simp

lemma bernoulli_returns:
  assumes v: "valid st"
  shows "\<exists>sq st'. generate_4way_bernoulli st = Some (sq, st') \<and> valid st' \<and> sq \<in> {0, 1, 2, 3}"
proof -
  have q: "quadrant val \<in> {0, 1, 2, 3}" for val by (simp add: quadrant_def Let_def)
  obtain k where "1 \<le> k" "3647 \<le> unat (z1 ((next_state ^^ k) (next_state st)))"
    using draw_accepted [OF valid_next [OF v]] by blast
  then obtain val st' where "bernoulli_retry (next_state st) = Some (val, st')" "valid st'"
    using retry_returns [OF valid_next [OF v]] by blast
  then show ?thesis using q v by (auto simp: generate_4way_bernoulli_def get_uint_valid valid_next)
qed

section \<open>Edges are produced\<close>

text \<open>The corner of the current block: both coordinates are multiples of its side, the source is not right of the target.\<close>

definition corner :: "nat \<Rightarrow> nat \<Rightarrow> int \<Rightarrow> int \<Rightarrow> bool" where
  "corner k L a b \<longleftrightarrow> 2 ^ k dvd a \<and> 2 ^ k dvd b \<and> 0 \<le> a \<and> a \<le> b \<and> b + 2 ^ k \<le> 2 ^ L"

lemma corner_step:
  assumes c: "corner (Suc k) L a b" and st: "s \<in> {0, 1}" "t \<in> {0, 1}" and e: "a = b \<Longrightarrow> s \<le> t"
  shows "corner k L (a + 2 ^ k * s) (b + 2 ^ k * t)"
proof -
  have p: "(0 :: int) < 2 ^ k" by simp
  have "a + 2 ^ k * s \<le> b + 2 ^ k * t"
  proof (cases "a = b")
    case True
    then show ?thesis using e by simp
  next
    case False
    have "2 ^ Suc k dvd b - a" "0 < b - a" using c False by (auto simp: corner_def)
    then have "2 ^ Suc k \<le> b - a" by (rule zdvd_imp_le)
    then show ?thesis using st p by (auto simp del: zero_less_power)
  qed
  moreover have "2 ^ k dvd a" "2 ^ k dvd b" using c by (auto simp: corner_def elim: dvd_trans [rotated])
  ultimately show ?thesis using c st p by (auto simp: corner_def simp del: zero_less_power)
qed

lemma descent_returns:
  "valid st \<Longrightarrow> corner k L a b \<Longrightarrow>
   \<exists>a' b' st'. edge_descent (2 ^ k) a b st = Some (a', b', st') \<and> valid st' \<and> 0 \<le> a' \<and> a' \<le> b' \<and> b' < 2 ^ L"
proof (induction k arbitrary: a b st)
  case 0
  then show ?case by (subst edge_descent.simps) (auto simp: corner_def)
next
  case (Suc k)
  from bernoulli_returns [OF Suc.prems(1)] obtain sq st' where
    g: "generate_4way_bernoulli st = Some (sq, st')" "valid st'" "sq \<in> {0, 1, 2, 3}" by blast
  define p where "p = (if a = b \<and> sq mod 2 < sq div 2 then (sq mod 2, sq div 2) else (sq div 2, sq mod 2))"
  have "fst p \<in> {0, 1}" "snd p \<in> {0, 1}" "a = b \<Longrightarrow> fst p \<le> snd p" using g(3) by (auto simp: p_def)
  from corner_step [OF Suc.prems(2) this] have c: "corner k L (a + 2 ^ k * fst p) (b + 2 ^ k * snd p)" .
  have "edge_descent (2 ^ Suc k) a b st = edge_descent (2 ^ k) (a + 2 ^ k * fst p) (b + 2 ^ k * snd p) st'"
    using Suc.prems(2) one_less_power [of "2 :: int" "Suc k"]
    by (subst edge_descent.simps) (simp add: g(1) p_def corner_def Let_def cong: bind_weak_cong)
  with Suc.IH [OF g(2) c] show ?case by simp
qed

lemma low_word:
  assumes "unat (a :: u64) < 2 ^ L" "L < 63"
  shows "unat (word_of_int (sint a) :: u32) < 2 ^ L"
proof -
  have "(2 :: nat) ^ L \<le> 2 ^ 62" using assms(2) by (intro power_increasing) simp_all
  then have "unat a < 2 ^ 63" using assms(1) by simp
  then have "sint a = int (unat a)" using sint_small [of a] by simp
  then have "(word_of_int (sint a) :: u32) = of_nat (unat a)" by simp
  then have "unat (word_of_int (sint a) :: u32) = unat a mod 2 ^ 32" by (simp add: unsigned_ucast_eq take_bit_eq_mod [where 'a = nat])
  also have "\<dots> \<le> unat a" by simp
  finally show ?thesis using assms(1) by simp
qed

definition vertices_below :: "nat \<Rightarrow> packed_edge \<Rightarrow> bool" where
  "vertices_below n e \<longleftrightarrow> unat (v0 e) < n \<and> unat (v1 e) < n"

lemma make_one_edge_returns:
  assumes v: "valid st" and L: "0 < L" "L < 63"
  shows "\<exists>e st'. make_one_edge (2 ^ L) L st val0 val1 = Some (e, st') \<and> vertices_below (2 ^ L) e"
proof -
  have "corner L L 0 0" by (simp add: corner_def)
  from descent_returns [OF v this] obtain a b st' where d: "edge_descent (2 ^ L) 0 0 st = Some (a, b, st')" by blast
  have L64: "L < 64" using L by simp
  have sc: "\<exists>w. scramble x L val0 val1 = Some w \<and> unat w < 2 ^ L" for x
    using scramble_eq [OF L(1) L64] topbits_less [OF L(1) L64] by blast
  from sc [of "word_of_int a"] sc [of "word_of_int b"] obtain x y where
    xy: "scramble (word_of_int a) L val0 val1 = Some x" "unat x < 2 ^ L"
        "scramble (word_of_int b) L val0 val1 = Some y" "unat y < 2 ^ L" by blast
  have "vertices_below (2 ^ L) (write_edge (sint x) (sint y))"
    unfolding vertices_below_def write_edge_def packed_edge.simps using low_word [OF _ L(2)] xy by blast
  then show ?thesis using d xy by (auto simp: make_one_edge_def)
qed

lemma scramble_values_return: "valid st \<Longrightarrow> \<exists>val0 val1. scramble_values st = Some (val0, val1)"
proof -
  assume v: "valid st"
  then have sk: "\<exists>st'. mrg_skip st 50 7 0 = Some st' \<and> valid st'"
    using mrg_skip_steps [of st 50 7 0] valid_iter by (simp add: valid_def)
  then obtain st' where "mrg_skip st 50 7 0 = Some st'" "valid st'" by blast
  then show ?thesis by (simp add: scramble_values_def get_uint_valid valid_next)
qed

lemma seed_valid: "seed_range sd \<Longrightarrow> \<exists>st. mrg_seed sd = Some st \<and> valid st"
proof -
  assume r: "seed_range sd"
  from seed_range_state [OF r] obtain st where st: "mrg_seed sd = Some st" "state_ok st" by blast
  have "z1 st = sd ! 0" "0 < length sd" using st(1) r by (auto simp: mrg_seed_def seed_range_def)
  moreover have "sd ! 0 \<noteq> 0" using r calculation(2) by (metis seed_range_def nth_mem not_one_le_zero unsigned_0)
  ultimately show ?thesis using st by (auto simp: valid_def)
qed

text \<open>Every range of edges is cut out of one sequence.\<close>

lemma kronecker_range:
  assumes r: "seed_range sd" and L: "0 < L" "L < 63"
  shows "\<exists>edge. (\<forall>ei. vertices_below (2 ^ L) (edge ei)) \<and>
    (\<forall>a b arr. a \<le> b \<and> b - a \<le> length arr \<longrightarrow>
       generate_kronecker_range sd L a b arr = Some (map edge [a..<b] @ drop (b - a) arr))"
proof -
  from seed_valid [OF r] obtain st where st: "mrg_seed sd = Some st" "valid st" by blast
  from scramble_values_return [OF st(2)] obtain val0 val1 where sv: "scramble_values st = Some (val0, val1)" by blast
  have "\<exists>e. (\<exists>new. mrg_skip st 0 (word_of_nat ei) 0 = Some new \<and> (\<exists>st'. make_one_edge (2 ^ L) L new val0 val1 = Some (e, st'))) \<and>
      vertices_below (2 ^ L) e" for ei
  proof -
    obtain new where "mrg_skip st 0 (word_of_nat ei) 0 = Some new" "valid new"
      using mrg_skip_steps [of st 0 "word_of_nat ei" 0] valid_iter st(2) by (auto simp: valid_def)
    with make_one_edge_returns [OF _ L] show ?thesis by blast
  qed
  then obtain edge where edge: "\<And>ei. (\<exists>new. mrg_skip st 0 (word_of_nat ei) 0 = Some new \<and>
      (\<exists>st'. make_one_edge (2 ^ L) L new val0 val1 = Some (edge ei, st'))) \<and> vertices_below (2 ^ L) (edge ei)" by metis
  have "generate_kronecker_range sd L a b arr = Some (map edge [a..<b] @ drop (b - a) arr)"
    if ab: "a \<le> b" "b - a \<le> length arr" for a b arr
  proof -
    define body where "body = (\<lambda>ei edges. do {
       new_state \<leftarrow> mrg_skip st 0 (word_of_nat ei) 0;
       (e, _) \<leftarrow> make_one_edge (2 ^ L) L new_state val0 val1;
       aset edges (ei - a) e })"
    have step: "body ei arr' = aset arr' (ei - a) (edge ei)" for ei arr' using edge [of ei] by (auto simp: body_def)
    have "\<exists>s'. for_up a b body arr = Some s' \<and> s' = map edge [a..<b] @ drop (b - a) arr"
    proof (rule for_up_rule [where P = "\<lambda>i s. s = map edge [a..<i] @ drop (i - a) arr"])
      fix i s assume i: "a \<le> i" "i < b" and s: "s = map edge [a..<i] @ drop (i - a) arr"
      have "drop (i - a) arr = arr ! (i - a) # drop (Suc i - a) arr"
        using i ab by (simp add: Cons_nth_drop_Suc Suc_diff_le)
      then show "\<exists>s'. body i s = Some s' \<and> s' = map edge [a..<Suc i] @ drop (Suc i - a) arr"
        using i ab by (simp add: step s aset_def list_update_append)
    qed (use ab in simp_all)
    then show ?thesis using L st sv by (simp add: generate_kronecker_range_def body_def)
  qed
  with edge show ?thesis by blast
qed

text \<open>The shares of the processes tile the edges.\<close>

lemma edge_range_tiles:
  assumes "0 < sz"
  shows "fst (compute_edge_range 0 sz M) = 0" "snd (compute_edge_range r sz M) = fst (compute_edge_range (Suc r) sz M)"
    "fst (compute_edge_range r sz M) \<le> snd (compute_edge_range r sz M)" "fst (compute_edge_range sz sz M) = M"
proof -
  have "sz * (M div sz) + M mod sz = M" by simp
  moreover have "M mod sz < sz" using assms by simp
  ultimately show "fst (compute_edge_range sz sz M) = M" by (simp add: compute_edge_range_def)
qed (auto simp: compute_edge_range_def)

lemma shares_concat:
  assumes "0 < sz"
  shows "concat (map (\<lambda>r. map edge [fst (compute_edge_range r sz M)..<snd (compute_edge_range r sz M)]) [0..<n]) =
    map edge [0..<fst (compute_edge_range n sz M)]"
proof (induction n)
  case (Suc n)
  have "[0..<snd (compute_edge_range n sz M)] =
      [0..<fst (compute_edge_range n sz M)] @ [fst (compute_edge_range n sz M)..<snd (compute_edge_range n sz M)]"
    using edge_range_tiles(3) [OF assms, of n M] by (metis le_Suc_ex upt_add_eq_append zero_le)
  then show ?case using Suc edge_range_tiles(2) [OF assms, of n M] by simp
qed (simp add: edge_range_tiles(1) [OF assms])



end
