(* ===== verification/MrgDouble.thy ===== *)
theory MrgDouble
  imports Doubles Kronecker
begin

text \<open>
  The random numbers of type \<open>double\<close> of \<open>sources/graph500/generator/splittable_mrg.c\<close> and \<open>make_graph.c\<close>: the range of a draw, and
  the stream that can be entered at any position.
\<close>

section \<open>Draws\<close>

text \<open>
  The two decimal constants of \<open>mrg_get_double_orig\<close>. C does not fix which of the two calls in its sum comes first; \<open>left_first\<close>
  stands for the choice of the compiler.
\<close>

definition lit1 :: double where "lit1 = rnd (465661287524579692 / 10 ^ 27)"
definition lit2 :: double where "lit2 = rnd (2168404346990492787 / 10 ^ 37)"

definition mrg_get_double_orig :: "bool \<Rightarrow> mrg_state \<Rightarrow> (double \<times> mrg_state) option" where
  "mrg_get_double_orig left_first st = do {
     (x, st) \<leftarrow> mrg_get_uint_orig st;
     (y, st) \<leftarrow> mrg_get_uint_orig st;
     let (u, v) = (if left_first then (x, y) else (y, x));
     a \<leftarrow> dmul (of_int64 (uint u)) lit1;
     b \<leftarrow> dmul (of_int64 (uint v)) lit2;
     r \<leftarrow> dadd a b;
     Some (r, st) }"

text \<open>A block of the stream of random doubles, from \<open>make_graph.c\<close>; \<open>position\<close> is an \<open>int64_t\<close>.\<close>

definition random_step :: "bool \<Rightarrow> nat \<Rightarrow> double list \<times> mrg_state \<Rightarrow> (double list \<times> mrg_state) option" where
  "random_step lf i = (\<lambda>(result, st). do {
     (r, st) \<leftarrow> mrg_get_double_orig lf st;
     result \<leftarrow> aset result i r;
     Some (result, st) })"

definition make_random_numbers :: "bool \<Rightarrow> nat \<Rightarrow> u64 \<Rightarrow> u64 \<Rightarrow> int \<Rightarrow> double list \<Rightarrow> double list option" where
  "make_random_numbers lf nvalues userseed1 userseed2 position result = do {
     let seed = make_mrg_seed userseed1 userseed2;
     st \<leftarrow> mrg_seed seed;
     st \<leftarrow> mrg_skip st 2 0 (2 * word_of_int position);
     (result, st) \<leftarrow> for_up 0 nvalues (random_step lf) (result, st);
     Some result }"

section \<open>A random double\<close>

text \<open>A draw lies between 0 and 1.\<close>

lemma lit1_value: "lit1 = (1 + 1 / 2 ^ 31) / 2 ^ 31" by code_simp
lemma lit2_value: "lit2 = 1073741825 / 2 ^ 92" by code_simp

lemma double_sum:
  fixes u v :: int
  assumes u: "0 \<le> u" "u \<le> 2147483646" and v: "0 \<le> v" "v \<le> 2147483646"
  shows "\<exists>r. (do { a \<leftarrow> dmul (of_int64 u) lit1; b \<leftarrow> dmul (of_int64 v) lit2; dadd a b }) = Some r \<and> 0 \<le> r \<and> (r = 1 \<or> r \<le> 1 - 1 / 2 ^ 53)"
proof -
  have uv: "of_int64 u = of_int u" "of_int64 v = of_int v" using u v by (auto simp: of_int64_def intro!: rnd_int)
  have "(of_int u :: rat) \<le> of_int 2147483646" "(of_int v :: rat) \<le> of_int 2147483646" using u v by (simp_all only: of_int_le_iff)
  then have ur: "0 \<le> (of_int u :: rat)" "(of_int u :: rat) \<le> 2147483646" and vr: "0 \<le> (of_int v :: rat)" "(of_int v :: rat) \<le> 2147483646"
    using u v by simp_all
  define x y where "x = of_int u * lit1" and "y = of_int v * lit2"
  have x: "0 \<le> x" "x \<le> 2147483646 * lit1" using ur unfolding x_def by (simp_all add: lit1_value mult_right_mono)
  have y: "0 \<le> y" "y \<le> 2147483646 * lit2" using vr unfolding y_def by (simp_all add: lit2_value mult_right_mono)
  have xb: "x < 1 - 1 / 2 ^ 32" and yb: "y < 1 / 2 ^ 31" using x y by (simp_all add: lit1_value lit2_value)
  have "\<bar>x\<bar> \<le> 4" "\<bar>y\<bar> \<le> 4" using x y xb yb by (simp_all add: abs_le_iff)
  then have m: "dmul (of_int64 u) lit1 = Some (rnd x)" "dmul (of_int64 v) lit2 = Some (rnd y)"
    unfolding dmul_def uv x_def [symmetric] y_def [symmetric] by (simp_all add: finite_4)
  have "rnd x - x \<le> 2 powi (0 - 54)" by (rule abs_le_D1 [OF rnd_error]) (use x xb in simp_all)
  moreover have "rnd y - y \<le> 2 powi (- 31 - 54)" by (rule abs_le_D1 [OF rnd_error]) (use y yb in \<open>simp_all add: power_int_minus field_simps\<close>)
  ultimately have e: "rnd x \<le> x + 1 / 2 ^ 54" "rnd y \<le> y + 1 / 2 ^ 85" by (simp_all add: power_int_minus field_simps)
  define s where "s = rnd x + rnd y"
  have s: "0 \<le> s" "s < 1 + 1 / 2 ^ 53" using e x y rnd_nonneg [of x] rnd_nonneg [of y] unfolding s_def by (simp_all add: lit1_value lit2_value)
  have "\<bar>s\<bar> \<le> 4" using s by simp
  then have d: "dadd (rnd x) (rnd y) = Some (rnd s)" unfolding dadd_def s_def by (simp add: finite_4)
  have "rnd s \<le> 1" "s < 2" using rnd_le_one [OF s] s by simp_all
  then have "rnd s = 1 \<or> rnd s \<le> 1 - 1 / 2 ^ 53" using rnd_below_one [OF s(1)] by (cases "rnd s = 1") simp_all
  with s rnd_nonneg [of s] show ?thesis by (simp add: m d)
qed

lemma uint_arg_ok: "arg_ok a \<Longrightarrow> uint a \<le> 2147483646"
  by (simp add: arg_ok_def word_le_def)

lemma mrg_get_double_range:
  assumes "state_ok st"
  shows "\<exists>r. mrg_get_double_orig lf st = Some (r, next_state (next_state st)) \<and> 0 \<le> r \<and> (r = 1 \<or> r \<le> 1 - 1 / 2 ^ 53)"
proof -
  let ?s = "next_state st"
  have ok: "state_ok ?s" "state_ok (next_state ?s)" using assms by simp_all
  then have b: "uint (z1 ?s) \<le> 2147483646" "uint (z1 (next_state ?s)) \<le> 2147483646" by (simp_all add: state_ok_def uint_arg_ok)
  have g: "mrg_get_uint_orig st = Some (z1 ?s, ?s)" "mrg_get_uint_orig ?s = Some (z1 (next_state ?s), next_state ?s)"
    using assms ok by (simp_all add: mrg_get_uint_orig_def mrg_orig_step_ok)
  obtain u v where uv: "(if lf then (z1 ?s, z1 (next_state ?s)) else (z1 (next_state ?s), z1 ?s)) = (u, v)" by fastforce
  then have "uint u \<le> 2147483646" "uint v \<le> 2147483646" using b by (auto split: if_splits)
  from double_sum [OF _ this(1) _ this(2)] obtain r where
    "(do { a \<leftarrow> dmul (of_int64 (uint u)) lit1; b \<leftarrow> dmul (of_int64 (uint v)) lit2; dadd a b }) = Some r" "0 \<le> r" "r = 1 \<or> r \<le> 1 - 1 / 2 ^ 53" by auto
  then show ?thesis by (auto simp: mrg_get_double_orig_def g uv elim!: bind_SomeE)
qed

definition draw :: "bool \<Rightarrow> mrg_state \<Rightarrow> double" where
  "draw lf st = fst (the (mrg_get_double_orig lf st))"

lemma mrg_get_double_draw:
  assumes "state_ok st"
  shows "mrg_get_double_orig lf st = Some (draw lf st, next_state (next_state st))" "0 \<le> draw lf st"
    "draw lf st = 1 \<or> draw lf st \<le> 1 - 1 / 2 ^ 53" "draw lf st \<le> 1"
  using mrg_get_double_range [OF assms, of lf] by (auto simp: draw_def)

text \<open>The end 1 is attained.\<close>

definition top_state :: mrg_state where
  "top_state = \<lparr>z1 = 1, z2 = 0, z3 = 0, z4 = 1595753209, z5 = 1166007776\<rparr>"

lemma top_products: "rnd (2147483646 * lit1) = 2147483647 / 2147483648" "rnd (2147483646 * lit2) = 1 / 2147483648"
  unfolding lit1_value lit2_value by code_simp+

lemma top_sum: "(do { a \<leftarrow> dmul (of_int64 2147483646) lit1; b \<leftarrow> dmul (of_int64 2147483646) lit2; dadd a b }) = Some 1"
proof -
  have "of_int64 2147483646 = 2147483646" "rnd 1 = 1" using rnd_int [of 2147483646] rnd_int [of 1] by (simp_all add: of_int64_def)
  moreover have "finite_double (2147483646 * lit1) = Some (2147483647 / 2147483648)" "finite_double (2147483646 * lit2) = Some (1 / 2147483648)"
    unfolding top_products [symmetric] by (rule finite_4; simp add: lit1_value lit2_value)+
  ultimately show ?thesis by (simp add: dmul_def dadd_def finite_4)
qed

lemma draw_one: "state_ok top_state" "draw lf top_state = 1"
proof -
  have ok: "state_ok top_state" "state_ok (next_state top_state)" using next_state_ok [of top_state] by (auto simp: state_ok_def arg_ok_def top_state_def)
  have z: "z1 (next_state top_state) = 2147483646" "z1 (next_state (next_state top_state)) = 2147483646"
    by (simp_all add: next_state_def top_state_def res_def P31_def)
  have g: "mrg_get_uint_orig top_state = Some (2147483646, next_state top_state)"
    "mrg_get_uint_orig (next_state top_state) = Some (2147483646, next_state (next_state top_state))"
    using ok by (simp_all add: mrg_get_uint_orig_def mrg_orig_step_ok z)
  then show "draw lf top_state = 1" "state_ok top_state" using ok top_sum by (auto simp: draw_def mrg_get_double_orig_def elim!: bind_SomeE)
qed

section \<open>The stream of doubles\<close>

text \<open>The stream can be entered at any position: every block is cut out of one sequence.\<close>

lemma random_loop:
  assumes "state_ok st"
  shows "\<exists>st'. for_up 0 n (random_step lf) (replicate n x, st) = Some (map (\<lambda>i. draw lf ((next_state ^^ (2 * i)) st)) [0..<n], st')"
proof -
  let ?d = "\<lambda>i. draw lf ((next_state ^^ (2 * i)) st)"
  let ?P = "\<lambda>k s. s = (map ?d [0..<k] @ replicate (n - k) x, (next_state ^^ (2 * k)) st)"
  have "\<exists>s. for_up 0 n (random_step lf) (replicate n x, st) = Some s \<and> ?P n s"
  proof (rule for_up_rule [where P = ?P])
    fix k s assume k: "k < n" and s: "?P k s"
    have r: "replicate (n - k) x = x # replicate (n - Suc k) x" using k by (simp flip: replicate_Suc add: Suc_diff_Suc)
    have "state_ok ((next_state ^^ (2 * k)) st)" using assms by simp
    from mrg_get_double_draw(1) [OF this, of lf] show "\<exists>s'. random_step lf k s = Some s' \<and> ?P (Suc k) s'"
      by (simp add: random_step_def s aset_def list_update_append r)
  qed simp_all
  then show ?thesis by simp
qed

lemma make_random_numbers_stream:
  "\<exists>stream. \<forall>n p. 2 * p < 2 ^ 64 \<longrightarrow> make_random_numbers lf n u1 u2 (int p) (replicate n x) = Some (map stream [p..<p + n])"
proof -
  from seed_range_state [OF make_mrg_seed_range [of u1 u2]] obtain st where st: "mrg_seed (make_mrg_seed u1 u2) = Some st" "state_ok st" by blast
  define K :: nat where "K = unat (2 :: u64) * 2 ^ 128 + unat (0 :: u64) * 2 ^ 64"
  define st0 where "st0 = (next_state ^^ K) st"
  have s: "\<exists>st1. mrg_skip st 2 0 (2 * word_of_int (int p)) = Some st1 \<and> state_ok st1 \<and> (\<forall>i. (next_state ^^ i) st1 = (next_state ^^ (2 * p + i)) st0)"
    if "2 * p < 2 ^ 64" for p
  proof -
    have "unat (2 * word_of_int (int p) :: u64) = 2 * p" using that by (simp add: unat_word_ariths unat_of_nat)
    then have "mrg_skip st 2 0 (2 * word_of_int (int p)) = Some ((next_state ^^ (2 * p)) st0)"
      unfolding mrg_skip_steps [OF st(2), of 2 0 "2 * word_of_int (int p)", folded K_def] st0_def
      by (simp only: add.commute [of K] funpow_add comp_apply)
    then show ?thesis using st(2) by (simp add: st0_def funpow_add add.commute)
  qed
  show ?thesis
  proof (intro exI allI impI)
    fix n p :: nat assume p: "2 * p < 2 ^ 64"
    from s [OF p] obtain st1 where st1: "mrg_skip st 2 0 (2 * word_of_int (int p)) = Some st1" "state_ok st1"
      "\<And>i. (next_state ^^ i) st1 = (next_state ^^ (2 * p + i)) st0" by blast
    have "map (\<lambda>i. draw lf ((next_state ^^ (2 * i)) st1)) [0..<n] = map (\<lambda>i. draw lf ((next_state ^^ (2 * i)) st0)) [p..<p + n]"
      by (simp add: st1(3) list_eq_iff_nth_eq)
    with random_loop [OF st1(2), of n lf x] st(1) st1(1)
    show "make_random_numbers lf n u1 u2 (int p) (replicate n x) = Some (map (\<lambda>i. draw lf ((next_state ^^ (2 * i)) st0)) [p..<p + n])"
      by (auto simp: make_random_numbers_def)
  qed
qed

end
