(* ===== verification/Rmat.thy ===== *)
theory Rmat
  imports MrgDouble
begin

text \<open>
  The R-MAT generator of \<open>sources/graph500/rmat.c\<close>, in the sequential build: every edge is found by a descent through the quadrants of
  the adjacency matrix with probabilities that are perturbed at each level, then the vertices are relabelled and the edges
  shuffled by random permutations. An access outside of an array, an undefined shift, a signed overflow and an
  operation on doubles without a finite result are \<open>None\<close>.
\<close>

section \<open>One edge\<close>

definition rmat_quadrant :: "double \<Rightarrow> double \<Rightarrow> double \<Rightarrow> double \<Rightarrow> int \<Rightarrow> int \<Rightarrow> int \<Rightarrow> (int \<times> int) option" where
  "rmat_quadrant r A B C b i j =
     (if A < r then do {
        AB \<leftarrow> dadd A B;
        if r \<le> AB then Some (i, or j b)
        else do {
          ABC \<leftarrow> dadd AB C;
          if r \<le> ABC then Some (or i b, j)
          else Some (or i b, or j b) } }
      else Some (i, j))"

definition c095 :: double where "c095 = rnd (95 / 100)"

definition rmat_noise :: "double \<Rightarrow> double \<Rightarrow> double option" where
  "rmat_noise X r = do { t \<leftarrow> ddiv r 10; t \<leftarrow> dadd c095 t; dmul X t }"

definition rmat_last :: "double \<Rightarrow> double \<Rightarrow> double \<Rightarrow> double option" where
  "rmat_last A B C = do { s \<leftarrow> dadd A B; s \<leftarrow> dadd s C; dsub 1 s }"

definition rmat_probs :: "double list \<Rightarrow> nat \<Rightarrow> double \<times> double \<times> double \<times> double \<Rightarrow> (double \<times> double \<times> double \<times> double) option" where
  "rmat_probs rn rni = (\<lambda>(A, B, C, D). do {
     r \<leftarrow> aget rn rni;
     A \<leftarrow> rmat_noise A r;
     r \<leftarrow> aget rn (rni + 1);
     B \<leftarrow> rmat_noise B r;
     r \<leftarrow> aget rn (rni + 2);
     C \<leftarrow> rmat_noise C r;
     r \<leftarrow> aget rn (rni + 3);
     D \<leftarrow> rmat_noise D r;
     s \<leftarrow> dadd A B;
     s \<leftarrow> dadd s C;
     s \<leftarrow> dadd s D;
     norm \<leftarrow> ddiv 1 s;
     A \<leftarrow> dmul A norm;
     B \<leftarrow> dmul B norm;
     C \<leftarrow> dmul C norm;
     D \<leftarrow> rmat_last A B C;
     Some (A, B, C, D) })"

partial_function (option) rmat_loop :: "double list \<Rightarrow> nat \<Rightarrow> int \<Rightarrow> int \<Rightarrow> int \<Rightarrow> double \<times> double \<times> double \<times> double \<Rightarrow> (int \<times> int) option" where
  "rmat_loop rn rni b i j p = (case p of (A, B, C, D) \<Rightarrow> do {
     r \<leftarrow> aget rn rni;
     (i, j) \<leftarrow> rmat_quadrant r A B C b i j;
     if b = 1 then Some (i, j)
     else do {
       p \<leftarrow> rmat_probs rn (rni + 1) p;
       rmat_loop rn (rni + 5) (drop_bit 1 b) i j p } })"

definition rmat_edge :: "nat \<Rightarrow> double \<times> double \<times> double \<times> double \<Rightarrow> double list \<Rightarrow> packed_edge option" where
  "rmat_edge SCALE p rn = (if SCALE = 0 \<or> 63 < SCALE then None else do {
     (i, j) \<leftarrow> rmat_loop rn 0 (2 ^ (SCALE - 1)) 0 0 p;
     Some (write_edge i j) })"

section \<open>Random permutations\<close>

text \<open>One body for the two instances of \<open>MAKE_RANDPERMUTE\<close>.\<close>

definition permute_step :: "bool \<Rightarrow> nat \<Rightarrow> nat \<Rightarrow> 'a list \<times> mrg_state \<Rightarrow> ('a list \<times> mrg_state) option" where
  "permute_step lf nelem k = (\<lambda>(A, st). do {
     (r, st) \<leftarrow> mrg_get_double_orig lf st;
     p \<leftarrow> dmul r (of_int64 (int nelem - int k));
     let place = int k + \<lfloor>p\<rfloor>;
     if int k \<noteq> place then do {
       t \<leftarrow> geti A place;
       x \<leftarrow> aget A k;
       A \<leftarrow> seti A place x;
       A \<leftarrow> aset A k t;
       Some (A, st) }
     else Some (A, st) })"

definition randpermute :: "bool \<Rightarrow> nat \<Rightarrow> 'a list \<times> mrg_state \<Rightarrow> ('a list \<times> mrg_state) option" where
  "randpermute lf nelem = for_up 0 nelem (permute_step lf nelem)"

definition relabel_edge :: "int list \<Rightarrow> nat \<Rightarrow> packed_edge list \<Rightarrow> packed_edge list option" where
  "relabel_edge newlabel k IJ = do {
     e \<leftarrow> aget IJ k;
     a \<leftarrow> geti newlabel (get_v0_from_edge e);
     b \<leftarrow> geti newlabel (get_v1_from_edge e);
     aset IJ k (write_edge a b) }"

definition permute_vertex_labels :: "bool \<Rightarrow> packed_edge list \<Rightarrow> nat \<Rightarrow> nat \<Rightarrow> mrg_state \<Rightarrow> int list \<Rightarrow> (packed_edge list \<times> mrg_state \<times> int list) option" where
  "permute_vertex_labels lf IJ nedge max_nvtx st newlabel = do {
     newlabel \<leftarrow> for_up 0 max_nvtx (\<lambda>k newlabel. aset newlabel k (int k)) newlabel;
     (newlabel, st) \<leftarrow> randpermute lf max_nvtx (newlabel, st);
     IJ \<leftarrow> for_up 0 nedge (relabel_edge newlabel) IJ;
     Some (IJ, st, newlabel) }"

definition permute_edgelist :: "bool \<Rightarrow> packed_edge list \<Rightarrow> nat \<Rightarrow> mrg_state \<Rightarrow> (packed_edge list \<times> mrg_state) option" where
  "permute_edgelist lf IJ nedge st = randpermute lf nedge (IJ, st)"

section \<open>The edge list\<close>

definition NRAND :: "nat \<Rightarrow> nat \<Rightarrow> nat" where "NRAND SCALE ne = 5 * SCALE * ne"

text \<open>The body of the loop over the edges, and the loop; \<open>random_step\<close> stores one random number in an array.\<close>

definition rmat_step :: "bool \<Rightarrow> nat \<Rightarrow> double \<times> double \<times> double \<times> double \<Rightarrow> nat \<Rightarrow> packed_edge list \<times> double list \<times> mrg_state \<Rightarrow>
    (packed_edge list \<times> double list \<times> mrg_state) option" where
  "rmat_step lf SCALE p k = (\<lambda>(IJ, Rlocal, new_st). do {
     new_st \<leftarrow> mrg_skip new_st 1 (word_of_nat (NRAND SCALE 1)) 0;
     (Rlocal, new_st) \<leftarrow> for_up 0 (NRAND SCALE 1) (random_step lf) (Rlocal, new_st);
     e \<leftarrow> rmat_edge SCALE p Rlocal;
     IJ \<leftarrow> aset IJ k e;
     Some (IJ, Rlocal, new_st) })"

definition rmat_edges :: "bool \<Rightarrow> packed_edge list \<Rightarrow> nat \<Rightarrow> nat \<Rightarrow> double \<times> double \<times> double \<times> double \<Rightarrow> mrg_state \<Rightarrow> packed_edge list option" where
  "rmat_edges lf IJ nedge SCALE p prng_state = do {
     let Rlocal = replicate (NRAND SCALE 1) 0;
     (IJ, _) \<leftarrow> for_up 0 nedge (rmat_step lf SCALE p) (IJ, Rlocal, prng_state);
     Some IJ }"

definition rmat_edgelist :: "bool \<Rightarrow> packed_edge list \<Rightarrow> nat \<Rightarrow> nat \<Rightarrow> double \<Rightarrow> double \<Rightarrow> double \<Rightarrow> mrg_state \<Rightarrow> (packed_edge list \<times> mrg_state) option" where
  "rmat_edgelist lf IJ nedge SCALE A B C prng_state = (if 63 \<le> SCALE \<or> 2 ^ 63 \<le> NRAND SCALE nedge then None else do {
     D \<leftarrow> rmat_last A B C;
     let iwork = replicate (2 ^ SCALE) 0;
     IJ \<leftarrow> rmat_edges lf IJ nedge SCALE (A, B, C, D) prng_state;
     prng_state \<leftarrow> mrg_skip prng_state 1 (word_of_nat (NRAND SCALE nedge)) 0;
     (IJ, new_st, iwork) \<leftarrow> permute_vertex_labels lf IJ nedge (2 ^ SCALE) prng_state iwork;
     prng_state \<leftarrow> mrg_skip prng_state 1 (word_of_nat (2 ^ SCALE)) 0;
     (IJ, new_st) \<leftarrow> permute_edgelist lf IJ nedge prng_state;
     prng_state \<leftarrow> mrg_skip prng_state 1 (word_of_nat nedge) 0;
     Some (IJ, prng_state) })"

section \<open>The probabilities stay in range\<close>

definition eps :: rat where "eps = 1 / 2 ^ 53"

definition probs_ok :: "rat \<Rightarrow> double \<times> double \<times> double \<times> double \<Rightarrow> bool" where
  "probs_ok \<delta> = (\<lambda>(A, B, C, D). 0 \<le> A \<and> 0 \<le> B \<and> 0 \<le> C \<and> A + B + C \<le> 1 + \<delta> \<and> 1 - 4 * eps \<le> A + B + C + D \<and> A + B + C + D \<le> 1 + 4 * eps)"

lemma c095_bounds: "949 / 1000 \<le> c095" "c095 \<le> 9501 / 10000"
  unfolding c095_def by code_simp+

lemma near:
  assumes "\<bar>x\<bar> < 2"
  shows "x - eps \<le> rnd x" "rnd x \<le> x + eps"
  using rnd_near [OF assms] by (simp_all add: eps_def)

lemma finite_2: "\<bar>x\<bar> < 2 \<Longrightarrow> finite_double x = Some (rnd x)"
  by (rule finite_4) simp

lemma eps_bounds: "0 < eps" "eps \<le> 1 / 1000000000000000"
  by (simp_all add: eps_def)

lemma noise_ok:
  assumes r: "0 \<le> r" "r \<le> 1" and X: "\<bar>X\<bar> \<le> 3 / 2"
  shows "\<exists>f Y. rmat_noise X r = Some Y \<and> 948 / 1000 \<le> f \<and> f \<le> 1051 / 1000 \<and> X * f - eps \<le> Y \<and> Y \<le> X * f + eps \<and> (0 \<le> X \<longrightarrow> 0 \<le> Y)"
proof -
  define t where "t = rnd (r / 10)"
  have d: "ddiv r 10 = Some t" using r by (simp add: ddiv_def finite_2 t_def)
  have t: "0 \<le> t" "t \<le> r / 10 + eps" using r rnd_nonneg [of "r / 10"] near [of "r / 10"] by (simp_all add: t_def)
  define f where "f = rnd (c095 + t)"
  have b: "\<bar>c095 + t\<bar> < 2" using c095_bounds t r eps_bounds by (simp add: abs_less_iff)
  have a: "dadd c095 t = Some f" using b by (simp add: dadd_def finite_2 f_def)
  have f: "948 / 1000 \<le> f" "f \<le> 1051 / 1000" using near [OF b] c095_bounds t r eps_bounds unfolding f_def by linarith+
  have "\<bar>X * f\<bar> = \<bar>X\<bar> * f" using f by (simp add: abs_mult)
  also have "\<dots> \<le> 3 / 2 * (1051 / 1000)" using X f by (intro mult_mono) auto
  finally have m: "\<bar>X * f\<bar> < 2" by simp
  then have "dmul X f = Some (rnd (X * f))" by (simp add: dmul_def finite_2)
  moreover have "0 \<le> X \<Longrightarrow> 0 \<le> rnd (X * f)" using f by (intro rnd_nonneg) simp
  ultimately show ?thesis using near [OF m] f d a by (auto simp: rmat_noise_def)
qed

lemma last_ok:
  assumes "0 \<le> A" "0 \<le> B" "0 \<le> C" "A + B + C \<le> 11 / 10"
  shows "\<exists>D. rmat_last A B C = Some D \<and> 1 - 4 * eps \<le> A + B + C + D \<and> A + B + C + D \<le> 1 + 4 * eps"
proof -
  define s where "s = rnd (A + B)"
  have "\<bar>A + B\<bar> < 2" using assms by (simp add: abs_less_iff)
  note s = near [OF this, folded s_def] finite_2 [OF this, folded s_def]
  have "0 \<le> s" unfolding s_def using assms by (intro rnd_nonneg) simp
  then have b: "\<bar>s + C\<bar> < 2" using assms s eps_bounds by (simp add: abs_less_iff)
  define u where "u = rnd (s + C)"
  note u = near [OF b, folded u_def] finite_2 [OF b, folded u_def]
  have "\<bar>1 - u\<bar> < 2" using s u assms \<open>0 \<le> s\<close> eps_bounds unfolding abs_less_iff by linarith
  note v = near [OF this] finite_2 [OF this]
  have "rmat_last A B C = Some (rnd (1 - u))" by (simp add: rmat_last_def dadd_def dsub_def s(3) u(3) v(3))
  moreover have "1 - 4 * eps \<le> A + B + C + rnd (1 - u) \<and> A + B + C + rnd (1 - u) \<le> 1 + 4 * eps"
    using s u v eps_bounds by linarith
  ultimately show ?thesis by blast
qed

text \<open>The four products and their sum.\<close>

lemma noisy_sum:
  assumes p: "0 \<le> A" "0 \<le> B" "0 \<le> C" "A + B + C \<le> 1 + \<delta>" "1 - 4 * eps \<le> A + B + C + D" "A + B + C + D \<le> 1 + 4 * eps"
    and d: "0 \<le> \<delta>" "\<delta> \<le> 1 / 1000"
    and f: "948 / 1000 \<le> f" "f \<le> 1051 / 1000" "948 / 1000 \<le> g" "g \<le> 1051 / 1000" "948 / 1000 \<le> h" "h \<le> 1051 / 1000" "948 / 1000 \<le> k" "k \<le> 1051 / 1000"
  shows "946 / 1000 \<le> A * f + B * g + C * h + D * k" "A * f + B * g + C * h + D * k \<le> 1054 / 1000" "- (1051 / 1000 * \<delta>) - 5 * eps \<le> D * k"
proof -
  have lo: "A * (948 / 1000) \<le> A * f" "B * (948 / 1000) \<le> B * g" "C * (948 / 1000) \<le> C * h"
    and hi: "A * f \<le> A * (1051 / 1000)" "B * g \<le> B * (1051 / 1000)" "C * h \<le> C * (1051 / 1000)"
    by (intro mult_left_mono p f)+
  have D: "- (\<delta> + 4 * eps) \<le> D" using p by linarith
  have k: "D * (948 / 1000) \<le> D * k" "D * k \<le> D * (1051 / 1000)" if "0 \<le> D"
    by (rule mult_left_mono [OF f(7) that]) (rule mult_left_mono [OF f(8) that])
  have k': "D * (1051 / 1000) \<le> D * k" "D * k \<le> 0" if "D < 0" using that f by (auto intro: mult_left_mono_neg simp: mult_nonpos_nonneg)
  note e = eps_bounds
  show "946 / 1000 \<le> A * f + B * g + C * h + D * k"
    by (cases "0 \<le> D") (use lo k(1) k'(1) p D d e in linarith)+
  show "A * f + B * g + C * h + D * k \<le> 1054 / 1000"
    by (cases "0 \<le> D") (use hi k(2) k'(2) p D d e in linarith)+
  show "- (1051 / 1000 * \<delta>) - 5 * eps \<le> D * k"
    by (cases "0 \<le> D") (use k(1) k'(1) D d e in linarith)+
qed

text \<open>A product with the norm.\<close>

lemma scaled_ok:
  assumes "0 \<le> X" "X \<le> 11 / 10" "9 / 10 \<le> n" "n \<le> 11 / 10"
  shows "dmul X n = Some (rnd (X * n))" "0 \<le> rnd (X * n)" "rnd (X * n) \<le> X * n + eps"
proof -
  have "X * n \<le> 11 / 10 * (11 / 10)" using assms by (intro mult_mono) auto
  moreover have p: "0 \<le> X * n" using assms by simp
  ultimately have "\<bar>X * n\<bar> < 2" by (simp add: abs_less_iff)
  from near [OF this] finite_2 [OF this] rnd_nonneg [OF p]
  show "dmul X n = Some (rnd (X * n))" "0 \<le> rnd (X * n)" "rnd (X * n) \<le> X * n + eps"
    by (simp_all add: dmul_def)
qed

lemma inverse_ok:
  assumes "91 / 100 < s - 3 * eps" "s \<le> 106 / 100"
  shows "\<exists>n. ddiv 1 s = Some n \<and> 9 / 10 \<le> n \<and> n \<le> 11 / 10 \<and> s * n \<le> 1 + 2 * eps"
proof -
  have s: "91 / 100 < s" using assms eps_bounds by linarith
  have q: "1 / s \<le> 1099 / 1000" "94 / 100 \<le> 1 / s"
    using s assms by (simp_all add: field_simps)
  have b: "\<bar>1 / s\<bar> < 2" using q by (simp add: abs_less_iff)
  have "s * rnd (1 / s) \<le> s * (1 / s + eps)" using near [OF b] s by (intro mult_left_mono) auto
  also have "\<dots> = 1 + s * eps" using s by (simp add: distrib_left)
  also have "s * eps \<le> 2 * eps" using assms eps_bounds by (intro mult_right_mono) auto
  finally show ?thesis using near [OF b] finite_2 [OF b] q eps_bounds s by (simp add: ddiv_def)
qed

text \<open>The sum of the four products.\<close>

lemma sum4_ok:
  assumes "0 \<le> A" "0 \<le> B" "0 \<le> C" "A + B + C + D \<le> 107 / 100" "- (1 / 10) \<le> D"
  shows "\<exists>u v s. dadd A B = Some u \<and> dadd u C = Some v \<and> dadd v D = Some s \<and> A + B + C + D - 3 * eps \<le> s \<and> s \<le> A + B + C + D + 3 * eps"
proof -
  note e = eps_bounds
  have b1: "\<bar>A + B\<bar> < 2" using assms unfolding abs_less_iff by linarith
  note s1 = near [OF b1] finite_2 [OF b1]
  have b2: "\<bar>rnd (A + B) + C\<bar> < 2" using assms s1 e unfolding abs_less_iff by linarith
  note s2 = near [OF b2] finite_2 [OF b2]
  have b3: "\<bar>rnd (rnd (A + B) + C) + D\<bar> < 2" using assms s1 s2 e unfolding abs_less_iff by linarith
  note s3 = near [OF b3] finite_2 [OF b3]
  show ?thesis using s1 s2 s3 unfolding dadd_def by auto
qed

lemma probs_step:
  assumes p: "probs_ok \<delta> (A, B, C, D)" and d: "1000 * eps \<le> \<delta>" "\<delta> \<le> 1 / 1000"
    and r: "rni + 3 < length rn" "\<forall>r\<in>set rn. 0 \<le> r \<and> r \<le> 1"
  shows "\<exists>p'. rmat_probs rn rni (A, B, C, D) = Some p' \<and> probs_ok (6 / 5 * \<delta>) p'"
proof -
  have A: "0 \<le> A" "0 \<le> B" "0 \<le> C" "A + B + C \<le> 1 + \<delta>" "1 - 4 * eps \<le> A + B + C + D" "A + B + C + D \<le> 1 + 4 * eps"
    using p by (simp_all add: probs_ok_def)
  have d0: "0 \<le> \<delta>" using d eps_bounds by linarith
  have rn: "0 \<le> rn ! i \<and> rn ! i \<le> 1" if "i \<le> rni + 3" for i using r that by simp
  have abs: "\<bar>A\<bar> \<le> 3 / 2" "\<bar>B\<bar> \<le> 3 / 2" "\<bar>C\<bar> \<le> 3 / 2" "\<bar>D\<bar> \<le> 3 / 2"
    using A d d0 eps_bounds unfolding abs_le_iff by linarith+
  obtain f A' where f: "rmat_noise A (rn ! rni) = Some A'" "948 / 1000 \<le> f" "f \<le> 1051 / 1000" "A * f - eps \<le> A'" "A' \<le> A * f + eps" "0 \<le> A'"
    using noise_ok [OF _ _ abs(1), of "rn ! rni"] rn [of rni] A by auto
  obtain g B' where g: "rmat_noise B (rn ! (rni + 1)) = Some B'" "948 / 1000 \<le> g" "g \<le> 1051 / 1000" "B * g - eps \<le> B'" "B' \<le> B * g + eps" "0 \<le> B'"
    using noise_ok [OF _ _ abs(2), of "rn ! (rni + 1)"] rn [of "rni + 1"] A by auto
  obtain h C' where h: "rmat_noise C (rn ! (rni + 2)) = Some C'" "948 / 1000 \<le> h" "h \<le> 1051 / 1000" "C * h - eps \<le> C'" "C' \<le> C * h + eps" "0 \<le> C'"
    using noise_ok [OF _ _ abs(3), of "rn ! (rni + 2)"] rn [of "rni + 2"] A by auto
  obtain k D' where k: "rmat_noise D (rn ! (rni + 3)) = Some D'" "948 / 1000 \<le> k" "k \<le> 1051 / 1000" "D * k - eps \<le> D'" "D' \<le> D * k + eps"
    using noise_ok [OF _ _ abs(4), of "rn ! (rni + 3)"] rn [of "rni + 3"] by auto
  note S = noisy_sum [OF A d0 d(2) f(2,3) g(2,3) h(2,3) k(2,3)]
  note e = eps_bounds
  have D': "- (1051 / 1000 * \<delta>) - 6 * eps \<le> D'" using S(3) k(4) e by linarith
  have "A' + B' + C' + D' \<le> 107 / 100" "- (1 / 10) \<le> D'" using S f g h k D' d e by linarith+
  from sum4_ok [OF f(6) g(6) h(6) this] obtain u v s where s0: "dadd A' B' = Some u" "dadd u C' = Some v" "dadd v D' = Some s"
    "A' + B' + C' + D' - 3 * eps \<le> s" "s \<le> A' + B' + C' + D' + 3 * eps" by blast
  have s: "A' + B' + C' + D' - 3 * eps \<le> s" "91 / 100 < s - 3 * eps" "s \<le> 106 / 100"
    using S s0(4,5) f g h k e by linarith+
  from inverse_ok [OF s(2,3)] obtain n where n: "ddiv 1 s = Some n" "9 / 10 \<le> n" "n \<le> 11 / 10" "s * n \<le> 1 + 2 * eps" by blast
  have up: "A' \<le> 11 / 10" "B' \<le> 11 / 10" "C' \<le> 11 / 10" "A' + B' + C' \<le> s + (1051 / 1000 * \<delta> + 9 * eps)"
    using s f g h D' d e by linarith+
  note sA = scaled_ok [OF f(6) up(1) n(2,3)] and sB = scaled_ok [OF g(6) up(2) n(2,3)] and sC = scaled_ok [OF h(6) up(3) n(2,3)]
  let ?A = "rnd (A' * n)" and ?B = "rnd (B' * n)" and ?C = "rnd (C' * n)"
  have "(A' + B' + C') * n \<le> (s + (1051 / 1000 * \<delta> + 9 * eps)) * n" using up(4) n by (intro mult_right_mono) auto
  also have "\<dots> = s * n + (1051 / 1000 * \<delta> + 9 * eps) * n" by (simp add: distrib_right)
  also have "(1051 / 1000 * \<delta> + 9 * eps) * n \<le> (1051 / 1000 * \<delta> + 9 * eps) * (11 / 10)" using n d0 e by (intro mult_left_mono) auto
  also have "(1051 / 1000 * \<delta> + 9 * eps) * (11 / 10) = 11561 / 10000 * \<delta> + 99 / 10 * eps" by (simp add: field_simps)
  finally have "A' * n + B' * n + C' * n \<le> 1 + 2 * eps + (11561 / 10000 * \<delta> + 99 / 10 * eps)" using n by (simp add: distrib_right)
  then have le: "?A + ?B + ?C \<le> 1 + 6 / 5 * \<delta>" using sA(3) sB(3) sC(3) d e by linarith
  have "?A + ?B + ?C \<le> 11 / 10" using le d by linarith
  from last_ok [OF sA(2) sB(2) sC(2) this] obtain D2 where D2: "rmat_last ?A ?B ?C = Some D2"
    "1 - 4 * eps \<le> ?A + ?B + ?C + D2" "?A + ?B + ?C + D2 \<le> 1 + 4 * eps" by blast
  have "rmat_probs rn rni (A, B, C, D) = Some (?A, ?B, ?C, D2)"
    using r(1) f(1) g(1) h(1) k(1) s0(1-3) n(1) sA(1) sB(1) sC(1) D2(1) by (simp add: rmat_probs_def)
  then show ?thesis using sA(2) sB(2) sC(2) le D2 by (simp add: probs_ok_def)
qed

section \<open>The descent ends inside the matrix\<close>

lemma quadrant_ok:
  assumes "probs_ok \<delta> (A, B, C, D)" "\<delta> \<le> 1 / 1000" and ij: "0 \<le> i" "i < 2 ^ N" "0 \<le> j" "j < 2 ^ N" and b: "0 \<le> b" "b < 2 ^ N"
  shows "\<exists>i' j'. rmat_quadrant r A B C b i j = Some (i', j') \<and> 0 \<le> i' \<and> i' < 2 ^ N \<and> 0 \<le> j' \<and> j' < 2 ^ N"
proof -
  note e = eps_bounds
  have b1: "\<bar>A + B\<bar> < 2" using assms(1,2) unfolding probs_ok_def abs_less_iff by simp
  note s1 = near [OF b1] finite_2 [OF b1]
  have b2: "\<bar>rnd (A + B) + C\<bar> < 2" using assms(1,2) s1 e unfolding probs_ok_def prod.case abs_less_iff by linarith
  note s2 = finite_2 [OF b2]
  have "0 \<le> or i b" "or i b < 2 ^ N" "0 \<le> or j b" "or j b < 2 ^ N" using ij b OR_upper [of i N b] OR_upper [of j N b] by simp_all
  then show ?thesis using ij s1 s2 by (auto simp: rmat_quadrant_def dadd_def)
qed

lemma rmat_loop_ok:
  assumes "probs_ok \<delta> p" "1000 * eps \<le> \<delta>" "\<delta> * (6 / 5) ^ n \<le> 1 / 1000" "rni + 5 * n < length rn" "\<forall>r\<in>set rn. 0 \<le> r \<and> r \<le> 1"
    and "0 \<le> i" "i < 2 ^ N" "0 \<le> j" "j < 2 ^ N" "n < N"
  shows "\<exists>i' j'. rmat_loop rn rni (2 ^ n) i j p = Some (i', j') \<and> 0 \<le> i' \<and> i' < 2 ^ N \<and> 0 \<le> j' \<and> j' < 2 ^ N"
  using assms
proof (induction n arbitrary: \<delta> p rni i j)
  case 0
  obtain A B C D where p: "p = (A, B, C, D)" by (cases p)
  have "\<delta> \<le> 1 / 1000" using 0 by simp
  from quadrant_ok [OF 0(1) [unfolded p] this 0(6-9), of 1 "rn ! rni"] 0 show ?case by (auto simp: rmat_loop.simps [of rn rni] p)
next
  case (Suc n)
  obtain A B C D where p: "p = (A, B, C, D)" by (cases p)
  have d: "0 \<le> \<delta>" using Suc.prems(2) eps_bounds by linarith
  have "\<delta> * 1 \<le> \<delta> * (6 / 5) ^ Suc n" using d by (intro mult_left_mono one_le_power) simp_all
  then have d1: "\<delta> \<le> 1 / 1000" using Suc.prems(3) by linarith
  have "(2 :: int) ^ Suc n < 2 ^ N" using Suc.prems(10) by (intro power_strict_increasing) simp_all
  from quadrant_ok [OF Suc.prems(1) [unfolded p] d1 Suc.prems(6-9) _ this, of "rn ! rni"]
  obtain i' j' where q: "rmat_quadrant (rn ! rni) A B C (2 ^ Suc n) i j = Some (i', j')" "0 \<le> i'" "i' < 2 ^ N" "0 \<le> j'" "j' < 2 ^ N" by auto
  from probs_step [OF Suc.prems(1) [unfolded p] Suc.prems(2) d1 _ Suc.prems(5), of "rni + 1"] Suc.prems(4)
  obtain p' where p': "rmat_probs rn (rni + 1) p = Some p'" "probs_ok (6 / 5 * \<delta>) p'" by (auto simp: p)
  have "\<exists>i'' j''. rmat_loop rn (rni + 5) (2 ^ n) i' j' p' = Some (i'', j'') \<and> 0 \<le> i'' \<and> i'' < 2 ^ N \<and> 0 \<le> j'' \<and> j'' < 2 ^ N"
    using Suc.prems d q by (intro Suc.IH [OF p'(2)]) (simp_all add: mult.assoc)
  then show ?case using q p'(1) Suc.prems(4) by (simp add: rmat_loop.simps [of rn rni] p drop_bit_Suc)
qed

lemma word_of_int_below: "0 \<le> i \<Longrightarrow> i < 2 ^ N \<Longrightarrow> unat (word_of_int i :: u32) < 2 ^ N"
proof -
  assume i: "0 \<le> i" "i < 2 ^ N"
  have "int (unat (word_of_int i :: u32)) = i mod 2 ^ 32" by (simp add: uint_word_of_int_eq take_bit_eq_mod)
  also have "\<dots> \<le> i" using i by (simp add: zmod_le_nonneg_dividend)
  finally have "int (unat (word_of_int i :: u32)) < int (2 ^ N)" using i by simp
  then show ?thesis by (simp only: of_nat_less_iff)
qed

lemma rmat_edge_ok:
  assumes S: "0 < S" "S < 63" and p: "probs_ok (1000 * eps) p" and rn: "length rn = NRAND S 1" "\<forall>r\<in>set rn. 0 \<le> r \<and> r \<le> 1"
  shows "\<exists>e. rmat_edge S p rn = Some e \<and> vertices_below (2 ^ S) e"
proof -
  have "(6 / 5 :: rat) ^ (S - 1) \<le> (6 / 5) ^ 62" using S by (intro power_increasing) simp_all
  then have "1000 * eps * (6 / 5) ^ (S - 1) \<le> 1000 * eps * (6 / 5) ^ 62" using eps_bounds by (intro mult_left_mono) simp_all
  also have "\<dots> \<le> 1 / 1000" by (simp add: eps_def power_divide)
  finally have d: "1000 * eps * (6 / 5) ^ (S - 1) \<le> 1 / 1000" .
  have "\<exists>i j. rmat_loop rn 0 (2 ^ (S - 1)) 0 0 p = Some (i, j) \<and> 0 \<le> i \<and> i < 2 ^ S \<and> 0 \<le> j \<and> j < 2 ^ S"
    using S rn d by (intro rmat_loop_ok [OF p]) (simp_all add: NRAND_def)
  then obtain i j where ij: "rmat_loop rn 0 (2 ^ (S - 1)) 0 0 p = Some (i, j)" "0 \<le> i" "i < 2 ^ S" "0 \<le> j" "j < 2 ^ S" by blast
  then have "vertices_below (2 ^ S) (write_edge i j)" by (simp add: vertices_below_def write_edge_def word_of_int_below)
  then show ?thesis using ij(1) S by (simp add: rmat_edge_def)
qed

definition unit_list :: "nat \<Rightarrow> double list \<Rightarrow> bool" where
  "unit_list n xs \<longleftrightarrow> length xs = n \<and> (\<forall>r\<in>set xs. 0 \<le> r \<and> r \<le> 1)"

lemma random_fill_ok:
  assumes "unit_list n R" "state_ok st"
  shows "\<exists>R' st'. for_up 0 n (random_step lf) (R, st) = Some (R', st') \<and> unit_list n R' \<and> state_ok st'"
proof -
  have "\<exists>s. for_up 0 n (random_step lf) (R, st) = Some s \<and> (unit_list n (fst s) \<and> state_ok (snd s))"
  proof (rule for_up_rule [where P = "\<lambda>_ s. unit_list n (fst s) \<and> state_ok (snd s)"])
    fix k s assume k: "k < n" and s: "unit_list n (fst s) \<and> state_ok (snd s)"
    obtain R st where [simp]: "s = (R, st)" by (cases s)
    have "set (R[k := draw lf st]) \<subseteq> insert (draw lf st) (set R)" by (rule set_update_subset_insert)
    then show "\<exists>s'. random_step lf k s = Some s' \<and> (unit_list n (fst s') \<and> state_ok (snd s'))"
      using k s mrg_get_double_draw [of st lf] by (auto simp: random_step_def unit_list_def)
  qed (use assms in simp_all)
  then show ?thesis by auto
qed

lemma rmat_edges_ok:
  assumes S: "0 < S" "S < 63" and p: "probs_ok (1000 * eps) p" and st: "state_ok st" and l: "length IJ = n"
  shows "\<exists>es. rmat_edges lf IJ n S p st = Some es \<and> length es = n \<and> list_all (vertices_below (2 ^ S)) es"
proof -
  let ?P = "\<lambda>k (es, R, st). length es = n \<and> list_all (vertices_below (2 ^ S)) (take k es) \<and> unit_list (NRAND S 1) R \<and> state_ok st"
  have "\<exists>s. for_up 0 n (rmat_step lf S p) (IJ, replicate (NRAND S 1) 0, st) = Some s \<and> ?P n s"
  proof (rule for_up_rule [where P = ?P])
    fix k s assume k: "k < n" and s: "?P k s"
    obtain es R st where [simp]: "s = (es, R, st)" by (cases s)
    have "state_ok st" "unit_list (NRAND S 1) R" using s by simp_all
    then obtain st' where sk: "mrg_skip st 1 (word_of_nat (NRAND S 1)) 0 = Some st'" "state_ok st'"
      using mrg_skip_steps [of st 1 "word_of_nat (NRAND S 1)" 0] by simp
    from random_fill_ok [OF \<open>unit_list _ R\<close> sk(2), of lf] obtain R' st'' where
      f: "for_up 0 (NRAND S 1) (random_step lf) (R, st') = Some (R', st'')" "unit_list (NRAND S 1) R'" "state_ok st''" by blast
    from rmat_edge_ok [OF S p, of R'] f(2) obtain e where "rmat_edge S p R' = Some e" "vertices_below (2 ^ S) e" by (auto simp: unit_list_def)
    then show "\<exists>s'. rmat_step lf S p k s = Some s' \<and> ?P (Suc k) s'"
      using k s sk f by (simp add: rmat_step_def take_Suc_conv_app_nth)
  qed (use l st in \<open>auto simp: unit_list_def\<close>)
  then show ?thesis by (auto simp: rmat_edges_def)
qed

section \<open>Permutations\<close>

lemma permute_step_ok:
  assumes st: "state_ok st" and k: "k < n" "n < 2 ^ 53" "length A = n"
  shows "if draw lf st = 1 then permute_step lf n k (A, st) = None
    else \<exists>A'. permute_step lf n k (A, st) = Some (A', next_state (next_state st)) \<and> mset A' = mset A"
proof -
  note d = mrg_get_double_draw [OF st, of lf]
  define m where "m = int n - int k"
  have m: "0 < m" "m < 2 ^ 53" using k by (simp_all add: m_def)
  have i: "of_int64 m = of_int m" unfolding of_int64_def using m by (intro rnd_int) simp
  have "\<bar>draw lf st * of_int m\<bar> \<le> of_int m" using d(2,4) m by (simp add: abs_mult)
  then have p: "dmul (draw lf st) (of_int64 m) = Some (rnd (draw lf st * of_int m))" unfolding dmul_def i using m(2) by (rule finite_double_small)
  let ?place = "int k + \<lfloor>rnd (draw lf st * of_int m)\<rfloor>"
  have step: "permute_step lf n k (A, st) = (if int k \<noteq> ?place then do {
       t \<leftarrow> geti A ?place; x \<leftarrow> aget A k; A \<leftarrow> seti A ?place x; A \<leftarrow> aset A k t; Some (A, next_state (next_state st)) }
     else Some (A, next_state (next_state st)))"
    by (simp add: permute_step_def d(1) p Let_def flip: m_def)
  show ?thesis
  proof (cases "draw lf st = 1")
    case True
    have r: "rnd (of_int m) = of_int m" using m by (intro rnd_int) simp
    have "int k + m = int n" by (simp add: m_def)
    then have "permute_step lf n k (A, st) = None" unfolding step True mult_1 r floor_of_int using m k by (simp add: geti_def)
    then show ?thesis using True by simp
  next
    case False
    then have "draw lf st \<le> 1 - 1 / 2 ^ 53" using d(3) by blast
    note r = rnd_scaled [OF d(2) this m(1)]
    define q where "q = nat \<lfloor>rnd (draw lf st * of_int m)\<rfloor>"
    have "0 \<le> \<lfloor>rnd (draw lf st * of_int m)\<rfloor>" "\<lfloor>rnd (draw lf st * of_int m)\<rfloor> < m" using r by (simp_all add: floor_less_iff)
    then have q: "\<lfloor>rnd (draw lf st * of_int m)\<rfloor> = int q" "k + q < length A" using k by (simp_all add: q_def m_def)
    have "mset (A[k + q := A ! k, k := A ! (k + q)]) = mset A" using q(2) by (simp add: mset_swap)
    then show ?thesis unfolding step q(1) using False q(2) k by (auto simp: geti_def seti_def nat_int_add)
  qed
qed

text \<open>The draws of a permutation of \<open>n\<close> elements, none of which may be 1.\<close>

definition draws :: "bool \<Rightarrow> nat \<Rightarrow> mrg_state \<Rightarrow> double list" where
  "draws lf n st = map (\<lambda>k. draw lf ((next_state ^^ (2 * k)) st)) [0..<n]"

lemma permute_loop:
  assumes "state_ok st" "k0 + m = n" "n < 2 ^ 53" "length A = n"
  shows "if 1 \<in> set (draws lf m st) then for_n m k0 (permute_step lf n) (A, st) = None
    else \<exists>A'. for_n m k0 (permute_step lf n) (A, st) = Some (A', (next_state ^^ (2 * m)) st) \<and> mset A' = mset A"
  using assms
proof (induction m arbitrary: k0 A st)
  case 0
  show ?case by (simp add: draws_def)
next
  case (Suc m)
  let ?s = "next_state (next_state st)"
  have it: "(next_state ^^ (2 * Suc j)) st = (next_state ^^ (2 * j)) ?s" for j by (simp add: funpow_swap1)
  have dr: "draws lf (Suc m) st = draw lf st # draws lf m ?s"
    by (simp only: draws_def upt_conv_Cons [OF zero_less_Suc] list.map map_Suc_upt [symmetric] map_map o_def it) simp
  have step: "if draw lf st = 1 then permute_step lf n k0 (A, st) = None
      else \<exists>A'. permute_step lf n k0 (A, st) = Some (A', ?s) \<and> mset A' = mset A"
    using Suc.prems by (intro permute_step_ok) simp_all
  show ?case
  proof (cases "draw lf st = 1")
    case True
    then show ?thesis using step by (simp add: dr)
  next
    case False
    with step obtain A' where A': "permute_step lf n k0 (A, st) = Some (A', ?s)" "mset A' = mset A" by auto
    have "length A' = n" using A'(2) Suc.prems(4) by (metis mset_eq_length)
    from Suc.IH [OF _ _ Suc.prems(3) this, of ?s "Suc k0"] Suc.prems False A' show ?thesis
      by (auto simp: dr funpow_swap1 split: if_splits)
  qed
qed

lemma randpermute_ok:
  assumes "state_ok st" "length A < 2 ^ 53"
  shows "if 1 \<in> set (draws lf (length A) st) then randpermute lf (length A) (A, st) = None
    else \<exists>A' st'. randpermute lf (length A) (A, st) = Some (A', st') \<and> mset A' = mset A"
  using permute_loop [OF assms(1) _ assms(2) refl, of 0 "length A" lf] by (auto simp: randpermute_def for_up_def split: if_splits)

definition relabelled :: "int list \<Rightarrow> packed_edge \<Rightarrow> packed_edge" where
  "relabelled lbl e = write_edge (lbl ! src e) (lbl ! tgt e)"

lemma relabel_loop:
  assumes "list_all (vertices_below (length lbl)) IJ"
  shows "for_up 0 (length IJ) (relabel_edge lbl) IJ = Some (map (relabelled lbl) IJ)"
proof -
  have "\<exists>s. for_up 0 (length IJ) (relabel_edge lbl) IJ = Some s \<and>
      s = map (relabelled lbl) (take (length IJ) IJ) @ drop (length IJ) IJ"
  proof (rule for_up_rule [where P = "\<lambda>k s. s = map (relabelled lbl) (take k IJ) @ drop k IJ"])
    fix k s assume k: "k < length IJ" and s: "s = map (relabelled lbl) (take k IJ) @ drop k IJ"
    have "vertices_below (length lbl) (IJ ! k)" using assms k by (simp add: list_all_length)
    then have e: "geti lbl (get_v0_from_edge (IJ ! k)) = Some (lbl ! src (IJ ! k))" "geti lbl (get_v1_from_edge (IJ ! k)) = Some (lbl ! tgt (IJ ! k))"
      by (simp_all add: vertices_below_def geti_def get_v0_from_edge_def get_v1_from_edge_def src_def tgt_def nat_uint_eq)
    have "drop k IJ = IJ ! k # drop (Suc k) IJ" using k by (simp add: Cons_nth_drop_Suc)
    then show "\<exists>s'. relabel_edge lbl k s = Some s' \<and> s' = map (relabelled lbl) (take (Suc k) IJ) @ drop (Suc k) IJ"
      using k e by (simp add: relabel_edge_def s nth_append list_update_append take_Suc_conv_app_nth relabelled_def)
  qed simp_all
  then show ?thesis by simp
qed

lemma number_labels: "for_up 0 n (\<lambda>k xs. aset xs k (int k)) (replicate n x) = Some (map int [0..<n])"
proof -
  have "\<exists>s. for_up 0 n (\<lambda>k xs. aset xs k (int k)) (replicate n x) = Some s \<and> s = map int [0..<n] @ replicate (n - n) x"
  proof (rule for_up_rule [where P = "\<lambda>k s. s = map int [0..<k] @ replicate (n - k) x"])
    fix k s assume k: "k < n" and s: "s = map int [0..<k] @ replicate (n - k) x"
    have "replicate (n - k) x = x # replicate (n - Suc k) x" using k by (simp flip: replicate_Suc add: Suc_diff_Suc)
    then show "\<exists>s'. aset s k (int k) = Some s' \<and> s' = map int [0..<Suc k] @ replicate (n - Suc k) x"
      by (simp add: s aset_def list_update_append)
  qed simp_all
  then show ?thesis by simp
qed

lemma permute_labels_ok:
  assumes "state_ok st" "n < 2 ^ 53" "list_all (vertices_below n) IJ"
  shows "if 1 \<in> set (draws lf n st) then permute_vertex_labels lf IJ (length IJ) n st (replicate n x) = None
    else \<exists>lbl st'. permute_vertex_labels lf IJ (length IJ) n st (replicate n x) = Some (map (relabelled lbl) IJ, st', lbl) \<and> mset lbl = mset (map int [0..<n])"
proof -
  have l: "length (map int [0..<n]) = n" by simp
  note r = randpermute_ok [OF assms(1), of "map int [0..<n]" lf, unfolded l, OF assms(2)]
  show ?thesis
  proof (cases "1 \<in> set (draws lf n st)")
    case True
    then show ?thesis using r by (simp add: permute_vertex_labels_def number_labels)
  next
    case False
    then obtain lbl st' where p: "randpermute lf n (map int [0..<n], st) = Some (lbl, st')" "mset lbl = mset (map int [0..<n])" using r by auto
    have "length lbl = n" using mset_eq_length [OF p(2)] by simp
    then show ?thesis using False p relabel_loop [of lbl IJ] assms(3) by (simp add: permute_vertex_labels_def number_labels)
  qed
qed

text \<open>The two shuffles in sequence.\<close>

definition shuffles :: "bool \<Rightarrow> packed_edge list \<Rightarrow> nat \<Rightarrow> mrg_state \<Rightarrow> mrg_state \<Rightarrow> packed_edge list option" where
  "shuffles lf raw n st1 st2 = do {
     (IJ, _) \<leftarrow> permute_vertex_labels lf raw (length raw) n st1 (replicate n 0);
     (IJ, _) \<leftarrow> permute_edgelist lf IJ (length raw) st2;
     Some IJ }"

lemma shuffles_ok:
  assumes "state_ok st1" "state_ok st2" "n < 2 ^ 53" "length raw < 2 ^ 53" "list_all (vertices_below n) raw"
  shows "if 1 \<in> set (draws lf n st1) \<union> set (draws lf (length raw) st2) then shuffles lf raw n st1 st2 = None
    else \<exists>es lbl. shuffles lf raw n st1 st2 = Some es \<and> mset lbl = mset (map int [0..<n]) \<and> mset es = image_mset (relabelled lbl) (mset raw)"
proof (cases "1 \<in> set (draws lf n st1)")
  case True
  then show ?thesis using permute_labels_ok [OF assms(1,3,5), of lf 0] by (simp add: shuffles_def)
next
  case False
  then obtain lbl st' where l: "permute_vertex_labels lf raw (length raw) n st1 (replicate n 0) = Some (map (relabelled lbl) raw, st', lbl)"
    "mset lbl = mset (map int [0..<n])" using permute_labels_ok [OF assms(1,3,5), of lf 0] by auto
  from randpermute_ok [OF assms(2), of "map (relabelled lbl) raw" lf, unfolded length_map, OF assms(4)] False l
  show ?thesis by (auto simp: shuffles_def permute_edgelist_def split: if_splits)
qed

section \<open>The generator\<close>

text \<open>
  C39: R-MAT generation. For \<open>0 < S < 33\<close>, nonnegative probabilities whose sum is at most 1 and any valid state, the descent of
  \<open>rmat_edge\<close> never divides by zero or overflows in spite of all rounding errors, and every edge that it finds lies inside the matrix.
  Then, if no draw of the two shuffles is exactly 1.0, \<open>rmat_edgelist\<close> returns a valid state and the edges found, relabelled by a permutation of the
  vertices and in some order; otherwise it accesses the element behind the end of an array.
\<close>

theorem rmat_edgelist_relabels:
  assumes "0 < S" "S \<le> 32" "NRAND S (length IJ) < 2 ^ 53" "state_ok st" "0 \<le> A" "0 \<le> B" "0 \<le> C" "A + B + C \<le> 1"
  shows "\<exists>D raw st1 st2. rmat_last A B C = Some D \<and> rmat_edges lf IJ (length IJ) S (A, B, C, D) st = Some raw \<and>
    length raw = length IJ \<and> list_all (vertices_below (2 ^ S)) raw \<and>
    mrg_skip st 1 (word_of_nat (NRAND S (length IJ))) 0 = Some st1 \<and> mrg_skip st1 1 (word_of_nat (2 ^ S)) 0 = Some st2 \<and>
    (if 1 \<in> set (draws lf (2 ^ S) st1) \<union> set (draws lf (length IJ) st2)
     then rmat_edgelist lf IJ (length IJ) S A B C st = None
     else \<exists>es st' lbl. rmat_edgelist lf IJ (length IJ) S A B C st = Some (es, st') \<and> state_ok st' \<and>
       mset lbl = mset (map int [0..<2 ^ S]) \<and> mset es = image_mset (relabelled lbl) (mset raw))"
proof -
  from last_ok [of A B C] assms obtain D where D: "rmat_last A B C = Some D" "probs_ok (1000 * eps) (A, B, C, D)"
    using eps_bounds by (auto simp: probs_ok_def)
  have S: "S < 63" using assms by simp
  from rmat_edges_ok [OF assms(1) S D(2) assms(4) refl, of lf IJ] obtain raw where
    raw: "rmat_edges lf IJ (length IJ) S (A, B, C, D) st = Some raw" "length raw = length IJ" "list_all (vertices_below (2 ^ S)) raw" by blast
  have skip: "\<exists>s'. mrg_skip s 1 m 0 = Some s' \<and> state_ok s'" if "state_ok s" for s m using that mrg_skip_steps [of s 1 m 0] by simp
  from skip [OF assms(4)] obtain st1 where s1: "mrg_skip st 1 (word_of_nat (NRAND S (length IJ))) 0 = Some st1" "state_ok st1" by blast
  from skip [OF s1(2)] obtain st2 where s2: "mrg_skip st1 1 (word_of_nat (2 ^ S)) 0 = Some st2" "state_ok st2" by blast
  from skip [OF s2(2)] obtain st3 where s3: "mrg_skip st2 1 (word_of_nat (length IJ)) 0 = Some st3" "state_ok st3" by blast
  have "(2 :: nat) ^ S \<le> 2 ^ 32" using assms(2) by (intro power_increasing) simp_all
  then have n: "(2 :: nat) ^ S < 2 ^ 53" by simp
  have "1 * length IJ \<le> NRAND S (length IJ)" using assms(1) unfolding NRAND_def by (intro mult_right_mono) simp_all
  then have m: "length raw < 2 ^ 53" "\<not> 2 ^ 63 \<le> NRAND S (length IJ)" using assms(3) raw(2) by simp_all
  have "rmat_edgelist lf IJ (length IJ) S A B C st = map_option (\<lambda>es. (es, st3)) (shuffles lf raw (2 ^ S) st1 st2)"
    using S m(2) D(1) raw(1,2) s1(1) s2(1) s3(1)
    by (simp add: rmat_edgelist_def shuffles_def split: bind_splits prod.splits)
  with shuffles_ok [OF s1(2) s2(2) n m(1) raw(3), of lf] D(1) raw s1(1) s2(1) s3(2) show ?thesis by (auto split: if_splits)
qed

theorem rmat_edgelist_relabels_witness:
  "\<exists>D raw st1 st2. rmat_last (1 / 2) (1 / 8) (1 / 8) = Some D \<and> length raw = 3 \<and> list_all (vertices_below 16) raw \<and>
    (if 1 \<in> set (draws True 16 st1) \<union> set (draws True 3 st2)
     then rmat_edgelist True (replicate 3 \<lparr>v0 = 0, v1 = 0\<rparr>) 3 4 (1 / 2) (1 / 8) (1 / 8) \<lparr>z1 = 1, z2 = 2, z3 = 3, z4 = 4, z5 = 5\<rparr> = None
     else \<exists>es st' lbl. rmat_edgelist True (replicate 3 \<lparr>v0 = 0, v1 = 0\<rparr>) 3 4 (1 / 2) (1 / 8) (1 / 8) \<lparr>z1 = 1, z2 = 2, z3 = 3, z4 = 4, z5 = 5\<rparr> = Some (es, st') \<and>
       mset es = image_mset (relabelled lbl) (mset raw))"
proof -
  let ?st = "\<lparr>z1 = 1, z2 = 2, z3 = 3, z4 = 4, z5 = 5\<rparr> :: mrg_state" and ?IJ = "replicate 3 \<lparr>v0 = 0, v1 = 0\<rparr> :: packed_edge list"
  have "state_ok ?st" by (simp add: state_ok_def arg_ok_def)
  moreover have "length ?IJ = 3" "NRAND 4 (length ?IJ) < 2 ^ 53" "(2 :: nat) ^ 4 = 16" by (simp_all add: NRAND_def)
  ultimately show ?thesis using rmat_edgelist_relabels [of 4 ?IJ ?st "1 / 2" "1 / 8" "1 / 8" True] by (fastforce split: if_splits)
qed

text \<open>The overrun is real: from this state even the shuffle of a single element leaves its array.\<close>

lemma randpermute_overrun: "state_ok top_state" "randpermute lf 1 ([x], top_state) = None"
  using randpermute_ok [OF draw_one(1), of "[x]" lf] draw_one by (simp_all add: draws_def)

end
