(* ===== verification/BfsQueue.thy ===== *)
theory BfsQueue
  imports BfsVerify
begin

text \<open>
  Breadth-first search with a queue, over any way of listing the neighbours of a vertex: the interface between the
  graph representations (\<open>seq-csr\<close>, \<open>seq-list\<close>) and the searches that use them. The invariant of the search is
  stated and kept once, here; at its end it is the certificate that the validator looks for.
\<close>

section \<open>Relaxing an edge\<close>

text \<open>What a search does with a neighbour \<open>j\<close> of \<open>v\<close>: if it has no parent yet, it gets one and is queued.\<close>

definition relax :: "int \<Rightarrow> nat \<Rightarrow> int list \<times> int list \<times> nat \<Rightarrow> int list \<times> int list \<times> nat" where
  "relax v j = (\<lambda>(tree, vlist, k2). if tree ! j < 0 then (tree[j := v], vlist[k2 := int j], Suc k2) else (tree, vlist, k2))"

lemma relax_simps [simp]:
  "tree ! j < 0 \<Longrightarrow> relax v j (tree, vlist, k2) = (tree[j := v], vlist[k2 := int j], Suc k2)"
  "0 \<le> tree ! j \<Longrightarrow> relax v j (tree, vlist, k2) = (tree, vlist, k2)"
  by (simp_all add: relax_def)

section \<open>The interface\<close>

text \<open>\<open>nbrs v\<close> lists, in any order and with any repetitions, the vertices joined to \<open>v\<close> by an edge that is no self-loop.\<close>

locale neighbour_lists =
  fixes IJ :: "packed_edge list" and n :: nat and nbrs :: "nat \<Rightarrow> nat list"
  assumes ends: "e \<in> set IJ \<Longrightarrow> src e < n \<and> tgt e < n"
    and nbrs: "v < n \<Longrightarrow> set (nbrs v) = {w. w \<noteq> v \<and> adj IJ v w}"
begin

lemma adj_less: "adj IJ u v \<Longrightarrow> u < n \<and> v < n"
  using ends by (auto simp: adj_def joins_def)

lemma nbrs_less: "v < n \<Longrightarrow> w \<in> set (nbrs v) \<Longrightarrow> w < n"
  using nbrs adj_less by blast

lemma adj_sym: "adj IJ u v \<Longrightarrow> adj IJ v u"
  by (auto simp: adj_def joins_def)

text \<open>
  The state of the search: the first \<open>k\<close> vertices of the queue \<open>q\<close> are scanned, and of the next one the neighbours in \<open>S\<close>.
  The levels \<open>lv\<close> are ghost state.
\<close>

definition search :: "nat \<Rightarrow> nat \<Rightarrow> nat set \<Rightarrow> int list \<Rightarrow> nat list \<Rightarrow> int list \<Rightarrow> bool" where
  "search r k S tree q lv \<longleftrightarrow>
     n \<le> length tree \<and> length lv = n \<and> (\<forall>x<n. - 1 \<le> tree ! x) \<and>
     distinct q \<and> (\<forall>x. x \<in> set q \<longleftrightarrow> x < n \<and> 0 \<le> tree ! x) \<and> (\<forall>x<n. x \<notin> set q \<longrightarrow> lv ! x = - 1) \<and>
     r \<in> set q \<and> tree ! r = int r \<and> lv ! r = 0 \<and> (\<forall>x\<in>set q. 0 \<le> lv ! x) \<and>
     k \<le> length q \<and> sorted (map ((!) lv) q) \<and> (k < length q \<longrightarrow> lv ! last q \<le> lv ! (q ! k) + 1) \<and>
     (\<forall>x\<in>set q. x \<noteq> r \<longrightarrow> (\<exists>p\<in>set q. tree ! x = int p \<and> lv ! x = lv ! p + 1 \<and> adj IJ x p)) \<and>
     (\<forall>i<k. \<forall>w\<in>set (nbrs (q ! i)). w \<in> set q \<and> lv ! w \<le> lv ! (q ! i) + 1) \<and>
     (\<forall>w\<in>S. w \<in> set q \<and> lv ! w \<le> lv ! (q ! k) + 1)"

lemma search_init:
  assumes "r < n" "n \<le> length tree" "tree ! r = int r" "\<And>x. x < n \<Longrightarrow> x \<noteq> r \<Longrightarrow> tree ! x = - 1"
  shows "search r 0 {} tree [r] ((replicate n (- 1))[r := 0])"
proof -
  have t: "tree ! x = (if x = r then int r else - 1)" if "x < n" for x using assms that by simp
  show ?thesis using assms(1,2) t by (auto simp: search_def nth_list_update split: if_splits)
qed

lemma search_parent:
  assumes "search r k S tree q lv" "x \<in> set q" "x \<noteq> r"
  obtains p where "p \<in> set q" "tree ! x = int p" "lv ! x = lv ! p + 1" "adj IJ x p"
proof -
  have "\<forall>x\<in>set q. x \<noteq> r \<longrightarrow> (\<exists>p\<in>set q. tree ! x = int p \<and> lv ! x = lv ! p + 1 \<and> adj IJ x p)"
    using assms(1) unfolding search_def by (elim conjE)
  with assms(2,3) that show thesis by blast
qed

lemma search_scanned:
  assumes "search r k S tree q lv" "i < k" "w \<in> set (nbrs (q ! i))"
  shows "w \<in> set q \<and> lv ! w \<le> lv ! (q ! i) + 1"
proof -
  have "\<forall>i<k. \<forall>w\<in>set (nbrs (q ! i)). w \<in> set q \<and> lv ! w \<le> lv ! (q ! i) + 1"
    using assms(1) unfolding search_def by (elim conjE)
  with assms(2,3) show ?thesis by blast
qed

lemma search_current:
  assumes "search r k S tree q lv" "w \<in> S"
  shows "w \<in> set q \<and> lv ! w \<le> lv ! (q ! k) + 1"
proof -
  have "\<forall>w\<in>S. w \<in> set q \<and> lv ! w \<le> lv ! (q ! k) + 1" using assms(1) unfolding search_def by (elim conjE)
  with assms(2) show ?thesis by blast
qed

lemma search_length: "search r k S tree q lv \<Longrightarrow> length q \<le> n"
proof -
  assume s: "search r k S tree q lv"
  then have "set q \<subseteq> {..<n}" "distinct q" by (auto simp: search_def)
  then show ?thesis using card_mono [of "{..<n}" "set q"] by (simp add: distinct_card)
qed

lemma search_room: "search r k S tree q lv \<Longrightarrow> j < n \<Longrightarrow> tree ! j < 0 \<Longrightarrow> length q < n"
proof -
  assume s: "search r k S tree q lv" and j: "j < n" "tree ! j < 0"
  then have "j \<notin> set q" "set q \<subseteq> {..<n}" "distinct q" unfolding search_def by auto
  then have "set q \<subset> {..<n}" "distinct q" using j by auto
  then show ?thesis using psubset_card_mono [of "{..<n}" "set q"] by (simp add: distinct_card)
qed

lemma search_vertex: "search r k S tree q lv \<Longrightarrow> i < length q \<Longrightarrow> q ! i < n"
  by (auto simp: search_def)

text \<open>The queue is sorted by level, and its last level is at most one below the vertex being scanned.\<close>

lemma search_level:
  assumes s: "search r k S tree q lv" and k: "k < length q" and x: "x \<in> set q"
  shows "lv ! x \<le> lv ! (q ! k) + 1"
proof -
  from x obtain i where i: "i < length q" "q ! i = x" by (auto simp: in_set_conv_nth)
  have "sorted (map ((!) lv) q)" using s by (simp add: search_def)
  then have "lv ! (q ! i) \<le> lv ! (q ! (length q - 1))"
    using i k sorted_nth_mono [of "map ((!) lv) q" i "length q - 1"] by simp
  moreover have "last q = q ! (length q - 1)" using k by (intro last_conv_nth) auto
  moreover have "lv ! last q \<le> lv ! (q ! k) + 1" using s k by (simp add: search_def)
  ultimately show ?thesis using i by simp
qed

text \<open>A neighbour that is in the queue already.\<close>

lemma search_skip:
  assumes s: "search r k S tree q lv" and k: "k < length q" and j: "j \<in> set (nbrs (q ! k))" "0 \<le> tree ! j"
  shows "search r k (insert j S) tree q lv"
proof -
  have "j \<in> set q" using s j nbrs_less search_vertex [OF s k] by (auto simp: search_def)
  with s search_level [OF s k this] show ?thesis unfolding search_def by blast
qed

text \<open>A neighbour that is new.\<close>

lemma search_push:
  assumes s: "search r k S tree q lv" and k: "k < length q" and j: "j \<in> set (nbrs (q ! k))" "tree ! j < 0"
  shows "search r k (insert j S) (tree[j := int (q ! k)]) (q @ [j]) (lv[j := lv ! (q ! k) + 1])"
proof -
  let ?v = "q ! k" and ?lv = "lv[j := lv ! (q ! k) + 1]"
  have v: "?v \<in> set q" "?v < n" using k search_vertex [OF s k] by simp_all
  have jn: "j < n" using nbrs_less [OF v(2) j(1)] .
  have jq: "j \<notin> set q" using s j(2) by (simp add: search_def)
  have ad: "adj IJ j ?v" using nbrs [OF v(2)] j(1) adj_sym by blast
  have lvq: "?lv ! x = lv ! x" if "x \<in> set q" for x using that jq by (metis nth_list_update_neq)
  have lvj: "?lv ! j = lv ! ?v + 1" using s jn by (simp add: search_def)
  have mp: "map ((!) ?lv) q = map ((!) lv) q" using lvq by simp
  have srt: "sorted (map ((!) ?lv) (q @ [j]))" using s lvj search_level [OF s k] by (simp add: sorted_append mp search_def)
  have par: "\<exists>p\<in>set (q @ [j]). tree[j := int ?v] ! x = int p \<and> ?lv ! x = ?lv ! p + 1 \<and> adj IJ x p"
    if x: "x \<in> set (q @ [j])" "x \<noteq> r" for x
  proof (cases "x = j")
    case True
    then show ?thesis using lvj lvq [OF v(1)] v ad jn s by (auto simp: search_def)
  next
    case False
    then have "x \<in> set q" using x by simp
    moreover from search_parent [OF s this x(2)]
    obtain p where "p \<in> set q" "tree ! x = int p" "lv ! x = lv ! p + 1" "adj IJ x p" .
    ultimately show ?thesis using False lvq [of x] lvq [of p] by auto
  qed
  have old: "w \<in> set (q @ [j]) \<and> ?lv ! w \<le> ?lv ! ((q @ [j]) ! i) + 1" if "i < length q" "w \<in> set q" "lv ! w \<le> lv ! (q ! i) + 1" for i w
    using that lvq [of w] lvq [of "q ! i"] by (simp add: nth_append)
  have r: "r \<in> set q" "r \<noteq> j" using s jq by (auto simp: search_def)
  show ?thesis unfolding search_def
  proof (intro conjI)
    show "\<forall>x. x \<in> set (q @ [j]) \<longleftrightarrow> x < n \<and> 0 \<le> tree[j := int ?v] ! x"
      using s jn by (auto simp: search_def nth_list_update)
    show "\<forall>i<k. \<forall>w\<in>set (nbrs ((q @ [j]) ! i)). w \<in> set (q @ [j]) \<and> ?lv ! w \<le> ?lv ! ((q @ [j]) ! i) + 1"
    proof (intro allI impI ballI)
      fix i w assume i: "i < k" and w: "w \<in> set (nbrs ((q @ [j]) ! i))"
      then have "w \<in> set (nbrs (q ! i))" using k by (simp add: nth_append)
      from search_scanned [OF s i this] i k show "w \<in> set (q @ [j]) \<and> ?lv ! w \<le> ?lv ! ((q @ [j]) ! i) + 1"
        by (intro old) simp_all
    qed
    show "\<forall>w\<in>insert j S. w \<in> set (q @ [j]) \<and> ?lv ! w \<le> ?lv ! ((q @ [j]) ! k) + 1"
    proof
      fix w assume "w \<in> insert j S"
      then show "w \<in> set (q @ [j]) \<and> ?lv ! w \<le> ?lv ! ((q @ [j]) ! k) + 1"
      proof
        assume "w = j"
        then show ?thesis using k lvj lvq [OF v(1)] by (simp add: nth_append)
      next
        assume "w \<in> S"
        from search_current [OF s this] k show ?thesis by (intro old) simp_all
      qed
    qed
    show "k < length (q @ [j]) \<longrightarrow> ?lv ! last (q @ [j]) \<le> ?lv ! ((q @ [j]) ! k) + 1"
      using k lvj lvq [OF v(1)] by (simp add: nth_append)
    show "\<forall>x\<in>set (q @ [j]). x \<noteq> r \<longrightarrow> (\<exists>p\<in>set (q @ [j]). tree[j := int ?v] ! x = int p \<and> ?lv ! x = ?lv ! p + 1 \<and> adj IJ x p)"
      using par by blast
    show "\<forall>x\<in>set (q @ [j]). 0 \<le> ?lv ! x" using s lvq lvj v(1) by (simp add: search_def)
    show "\<forall>x<n. x \<notin> set (q @ [j]) \<longrightarrow> ?lv ! x = - 1" using s by (simp add: search_def nth_list_update)
    have "\<forall>x<n. - 1 \<le> tree ! x" "n \<le> length tree" using s by (simp_all add: search_def)
    then show "\<forall>x<n. - 1 \<le> tree[j := int ?v] ! x" using jn by (simp add: nth_list_update)
    show "tree[j := int ?v] ! r = int r" "?lv ! r = 0" using s r by (simp_all add: search_def)
  qed (use s k jq r srt in \<open>simp_all add: search_def\<close>)
qed

lemma search_next:
  assumes s: "search r k S tree q lv" and k: "k < length q" and S: "set (nbrs (q ! k)) \<subseteq> S"
  shows "search r (Suc k) {} tree q lv"
proof -
  have "lv ! (q ! k) \<le> lv ! (q ! Suc k)" if "Suc k < length q"
    using s that sorted_nth_mono [of "map ((!) lv) q" k "Suc k"] by (simp add: search_def)
  then show ?thesis using s k S by (auto simp: search_def less_Suc_eq)
qed

text \<open>At the end the levels certify the tree.\<close>

lemma search_done:
  assumes s: "search r (length q) S tree q lv"
  shows "certified tree lv n r IJ"
proof -
  have q: "x \<in> set q \<longleftrightarrow> x < n \<and> 0 \<le> tree ! x" for x using s by (simp add: search_def)
  have step: "w \<in> set q \<and> lv ! w \<le> lv ! v + 1" if vq: "v \<in> set q" and a: "adj IJ v w" for v w
  proof (cases "w = v")
    case False
    have "v < n" using vq by (simp only: q)
    with False a have w: "w \<in> set (nbrs v)" by (simp add: nbrs)
    obtain i where i: "i < length q" "q ! i = v" using vq unfolding in_set_conv_nth by blast
    with w have "w \<in> set (nbrs (q ! i))" by (simp only: i(2))
    from search_scanned [OF s i(1) this] i(2) show ?thesis by simp
  qed (use vq in simp)
  have fine: "edge_fine tree lv n e" if "e \<in> set IJ" for e
  proof -
    have a: "adj IJ (src e) (tgt e)" "adj IJ (tgt e) (src e)" using that by (auto simp: adj_def joins_def)
    show ?thesis using ends [OF that] step [OF _ a(1)] step [OF _ a(2)] by (auto simp: edge_fine_def q abs_le_iff)
  qed
  have par: "\<exists>p\<in>set q. tree ! x = int p \<and> lv ! x = lv ! p + 1 \<and> adj IJ x p" if "x < n" "0 \<le> tree ! x" "x \<noteq> r" for x
    using search_parent [OF s _ that(3)] that q by metis
  have lvt: "0 \<le> tree ! x" if "x < n" "0 \<le> lv ! x" for x using s that q by (fastforce simp: search_def)
  have lv0: "0 \<le> lv ! x" if "x \<in> set q" for x using s that by (simp add: search_def)
  have b: "length lv = n" "n \<le> length tree" "r < n" "lv ! r = 0" "tree ! r = int r" using s q by (simp_all add: search_def)
  have "levels_ok tree n (int r) lv" unfolding levels_ok_def
  proof (intro conjI allI impI)
    fix x assume x: "x < n" "int x \<noteq> int r" "0 \<le> lv ! x"
    with par [of x] lvt obtain p where p: "p \<in> set q" "tree ! x = int p" "lv ! x = lv ! p + 1" by auto
    then show "x < length tree" "0 \<le> tree ! x" "nat (tree ! x) < n" "0 \<le> lv ! nat (tree ! x)" "lv ! x = lv ! nat (tree ! x) + 1"
      using x b q lv0 by simp_all
  qed (use b in simp_all)
  moreover have "adj IJ x (nat (tree ! x))" if "x < n" "x \<noteq> r" "0 \<le> tree ! x" for x
    using par [OF that(1,3,2)] by auto
  ultimately show ?thesis using b fine lv0 q by (simp add: certified_def)
qed

text \<open>The queue as the programs keep it: the first \<open>k2\<close> entries of an array with room for every vertex.\<close>

definition frontier :: "nat \<Rightarrow> nat \<Rightarrow> nat set \<Rightarrow> int list \<Rightarrow> int list \<Rightarrow> nat \<Rightarrow> bool" where
  "frontier r k S tree vlist k2 \<longleftrightarrow> length vlist = n \<and>
     (\<exists>q lv. search r k S tree q lv \<and> k2 = length q \<and> take k2 vlist = map int q)"

lemma frontier_init:
  assumes t: "r < n" "n \<le> length tree" "tree ! r = int r" "\<And>x. x < n \<Longrightarrow> x \<noteq> r \<Longrightarrow> tree ! x = - 1" and l: "length vlist = n"
  shows "frontier r 0 {} tree (vlist[0 := int r]) 1"
proof -
  have "take 1 (vlist[0 := int r]) = map int [r]" using t(1) l by (cases vlist) simp_all
  moreover have "length (vlist[0 := int r]) = n" "1 = length [r]" using l by simp_all
  ultimately show ?thesis unfolding frontier_def using search_init [OF t] by blast
qed

lemma frontier_vlist:
  assumes "length vlist = n" "search r k S tree q lv" "take (length q) vlist = map int q" "i < length q"
  shows "i < length vlist" "vlist ! i = int (q ! i)"
proof -
  show "i < length vlist" using assms search_length [OF assms(2)] by simp
  have "vlist ! i = take (length q) vlist ! i" using assms(4) by simp
  with assms(3,4) show "vlist ! i = int (q ! i)" by simp
qed

lemma frontierE:
  assumes "frontier r k S tree vlist k2"
  obtains q lv where "length vlist = n" "search r k S tree q lv" "k2 = length q" "take (length q) vlist = map int q"
  using assms by (auto simp: frontier_def)

lemma frontier_vertex:
  assumes f: "frontier r k S tree vlist k2" and k: "k < k2"
  shows "k < length vlist" "0 \<le> vlist ! k" "nat (vlist ! k) < n"
proof -
  from f obtain q lv where q: "length vlist = n" "search r k S tree q lv" "k2 = length q" "take (length q) vlist = map int q" by (rule frontierE)
  have kq: "k < length q" using k q(3) by simp
  show "k < length vlist" "0 \<le> vlist ! k" "nat (vlist ! k) < n"
    using frontier_vlist [OF q(1,2,4) kq] search_vertex [OF q(2) kq] by simp_all
qed

lemma frontier_bounds: "frontier r k S tree vlist k2 \<Longrightarrow> n \<le> length tree \<and> length vlist = n \<and> k \<le> k2 \<and> k2 \<le> n"
proof -
  assume "frontier r k S tree vlist k2"
  then obtain q lv where q: "length vlist = n" "search r k S tree q lv" "k2 = length q" by (rule frontierE)
  then have "n \<le> length tree" "k \<le> length q" by (simp_all add: search_def)
  with q search_length [OF q(2)] show ?thesis by simp
qed

lemma frontier_tree: "frontier r k S tree vlist k2 \<Longrightarrow> x < n \<Longrightarrow> - 1 \<le> tree ! x"
  by (auto simp: frontier_def search_def)

lemma frontier_neighbour:
  assumes "frontier r k S tree vlist k2" "k < k2" "j \<in> set (nbrs (nat (vlist ! k)))"
  shows "j < n"
  using nbrs_less [OF frontier_vertex(3) [OF assms(1,2)] assms(3)] .

lemma frontier_skip:
  assumes f: "frontier r k S tree vlist k2" and k: "k < k2" and j: "j \<in> set (nbrs (nat (vlist ! k)))" and t: "0 \<le> tree ! j"
  shows "frontier r k (insert j S) tree vlist k2"
proof -
  from f obtain q lv where q: "length vlist = n" "search r k S tree q lv" "k2 = length q" "take (length q) vlist = map int q" by (rule frontierE)
  have kq: "k < length q" using k q(3) by simp
  have "j \<in> set (nbrs (q ! k))" using j frontier_vlist(2) [OF q(1,2,4) kq] by simp
  from search_skip [OF q(2) kq this t] q show ?thesis by (auto simp: frontier_def)
qed

lemma frontier_push:
  assumes f: "frontier r k S tree vlist k2" and k: "k < k2" and j: "j \<in> set (nbrs (nat (vlist ! k)))" and t: "tree ! j < 0"
  shows "k2 < n" "frontier r k (insert j S) (tree[j := vlist ! k]) (vlist[k2 := int j]) (Suc k2)" "vlist[k2 := int j] ! k = vlist ! k"
proof -
  from f obtain q lv where q: "length vlist = n" "search r k S tree q lv" "k2 = length q" "take (length q) vlist = map int q" by (rule frontierE)
  have kq: "k < length q" using k q(3) by simp
  note vk = frontier_vlist(2) [OF q(1,2,4) kq]
  show k2: "k2 < n" using search_room [OF q(2) frontier_neighbour [OF f k j] t] q(3) by simp
  have "j \<in> set (nbrs (q ! k))" using j vk by simp
  from search_push [OF q(2) kq this t] obtain lv' where
    "search r k (insert j S) (tree[j := vlist ! k]) (q @ [j]) lv'" unfolding vk by blast
  moreover have "take (Suc k2) (vlist[k2 := int j]) = map int (q @ [j])"
    using k2 q by (simp add: take_Suc_conv_app_nth)
  ultimately show "frontier r k (insert j S) (tree[j := vlist ! k]) (vlist[k2 := int j]) (Suc k2)"
    using q by (auto simp: frontier_def)
  show "vlist[k2 := int j] ! k = vlist ! k" using k by simp
qed

lemma frontier_next:
  assumes f: "frontier r k S tree vlist k2" and k: "k < k2" and S: "set (nbrs (nat (vlist ! k))) \<subseteq> S"
  shows "frontier r (Suc k) {} tree vlist k2"
proof -
  from f obtain q lv where q: "length vlist = n" "search r k S tree q lv" "k2 = length q" "take (length q) vlist = map int q" by (rule frontierE)
  have kq: "k < length q" using k q(3) by simp
  have "set (nbrs (q ! k)) \<subseteq> S" using S frontier_vlist(2) [OF q(1,2,4) kq] by simp
  from search_next [OF q(2) kq this] q show ?thesis by (auto simp: frontier_def)
qed

lemma frontier_done: "frontier r k2 S tree vlist k2 \<Longrightarrow> n \<le> length tree \<and> (\<forall>x<n. - 1 \<le> tree ! x) \<and> (\<exists>lv. certified tree lv n r IJ)"
proof -
  assume f: "frontier r k2 S tree vlist k2"
  then obtain q lv where q: "search r k2 S tree q lv" "k2 = length q" by (rule frontierE)
  then have "certified tree lv n r IJ" by (intro search_done) simp
  then show ?thesis using frontier_bounds [OF f] frontier_tree [OF f] by blast
qed

text \<open>The accesses of a program that relaxes an edge are in bounds, and its two tests for a missing parent agree.\<close>

lemma frontier_access:
  assumes f: "frontier r k S tree vlist k2" and k: "k < k2" and j: "j \<in> set (nbrs (nat (vlist ! k)))"
  shows "geti tree (int j) = Some (tree ! j)" "tree ! j = - 1 \<longleftrightarrow> tree ! j < 0" "seti tree (int j) x = Some (tree[j := x])"
    "tree ! j < 0 \<Longrightarrow> aset vlist k2 y = Some (vlist[k2 := y])"
proof -
  note jn = frontier_neighbour [OF f k j] and b = frontier_bounds [OF f]
  show "geti tree (int j) = Some (tree ! j)" "seti tree (int j) x = Some (tree[j := x])" using jn b by (simp_all add: geti_def seti_def)
  show "tree ! j = - 1 \<longleftrightarrow> tree ! j < 0" using frontier_tree [OF f jn] by auto
  show "aset vlist k2 y = Some (vlist[k2 := y])" if "tree ! j < 0" using frontier_push(1) [OF f k j that] b by simp
qed

lemma frontier_relax:
  assumes f: "frontier r k S tree vlist k2" and k: "k < k2" and js: "set js \<subseteq> set (nbrs (nat (vlist ! k)))"
    and e: "fold (relax (vlist ! k)) js (tree, vlist, k2) = (tree', vlist', k2')"
  shows "frontier r k (S \<union> set js) tree' vlist' k2' \<and> k2 \<le> k2' \<and> vlist' ! k = vlist ! k"
  using assms
proof (induction js arbitrary: S tree vlist k2)
  case (Cons j js)
  have j: "j \<in> set (nbrs (nat (vlist ! k)))" using Cons.prems(3) by simp
  show ?case
  proof (cases "tree ! j < 0")
    case True
    note p = frontier_push [OF Cons.prems(1,2) j True]
    have "fold (relax (vlist[k2 := int j] ! k)) js (tree[j := vlist ! k], vlist[k2 := int j], Suc k2) = (tree', vlist', k2')"
      using Cons.prems(4) True p(3) by simp
    from Cons.IH [OF p(2) _ _ this] Cons.prems(2,3) p(3) show ?thesis by simp
  next
    case False
    then have "0 \<le> tree ! j" by simp
    note p = frontier_skip [OF Cons.prems(1,2) j this]
    from Cons.IH [OF p] Cons.prems(2,3,4) False show ?thesis by simp
  qed
qed simp

lemma frontier_scan:
  assumes f: "frontier r k {} tree vlist k2" and k: "k < k2"
    and e: "fold (relax (vlist ! k)) (nbrs (nat (vlist ! k))) (tree, vlist, k2) = (tree', vlist', k2')"
  shows "frontier r (Suc k) {} tree' vlist' k2' \<and> k2 \<le> k2'"
  using frontier_relax [OF f k subset_refl e] k frontier_next [of r k _ tree' vlist' k2'] by fastforce

end

end
