(* ===== verification/BfsAccept.thy ===== *)
theory BfsAccept
  imports BfsQueue
begin

text \<open>
  The other direction of the validation in \<open>sources/graph500/verify.c\<close>: a tree with a certificate is accepted. Together with
  the searches, whose results have one, this closes the loop from a search to its validation.
\<close>

section \<open>Levels of a certified tree\<close>

lemma certified_parentE:
  assumes c: "certified tree lv n r IJ" and x: "x < n" "0 \<le> tree ! x" "x \<noteq> r"
  obtains u where "tree ! x = int u" "u < n" "0 \<le> tree ! u" "lv ! x = lv ! u + 1" "0 \<le> lv ! u" "u \<noteq> x" "adj IJ x u"
proof -
  note p = certified_parent [OF c x]
  define u where "u = nat (tree ! x)"
  have "0 \<le> tree ! u" using certified_adj [OF c p(4) x(1,2)] by (simp add: u_def)
  moreover have "tree ! x = int u" using x(2) by (simp add: u_def)
  moreover have e: "u < n" "lv ! x = lv ! u + 1" "0 \<le> lv ! u" "adj IJ x u" using p by (simp_all only: u_def)
  moreover have "u \<noteq> x"
  proof
    assume "u = x"
    with e(2) show False by (simp only:)
  qed
  ultimately show thesis by (intro that)
qed

lemma certified_level_value:
  assumes c: "certified tree lv n r IJ"
  shows "v < n \<Longrightarrow> 0 \<le> tree ! v \<Longrightarrow> d \<le> nat (lv ! v) \<Longrightarrow> \<exists>x<n. lv ! x = int d"
proof (induction "nat (lv ! v) - d" arbitrary: v)
  case 0
  moreover have "0 \<le> lv ! v" using c 0 by (simp add: certified_def)
  ultimately show ?case by (intro exI [of _ v]) simp
next
  case (Suc m)
  have "lv ! r = 0" using c by (simp add: certified_def levels_ok_def)
  then have "v \<noteq> r" using Suc.hyps(2) by auto
  from certified_parentE [OF c Suc.prems(1,2) this] obtain u where
    u: "u < n" "0 \<le> tree ! u" "lv ! v = lv ! u + 1" "0 \<le> lv ! u" .
  have "m = nat (lv ! u) - d" "d \<le> nat (lv ! u)" using Suc.hyps(2) u by auto
  from Suc.hyps(1) [OF this(1) u(1,2) this(2)] show ?case .
qed

lemma certified_level_less:
  assumes c: "certified tree lv n r IJ" and v: "v < n" "0 \<le> tree ! v"
  shows "lv ! v < int n"
proof -
  have "{..nat (lv ! v)} \<subseteq> (\<lambda>x. nat (lv ! x)) ` {..<n}"
    using certified_level_value [OF c v] by (force simp: image_iff)
  then have "card {..nat (lv ! v)} \<le> card {..<n}" by (meson card_image_le card_mono finite_imageI finite_lessThan le_trans)
  then show ?thesis by simp
qed

text \<open>The level array while it is filled: right where it is filled, and filled upwards.\<close>

definition filled :: "int list \<Rightarrow> int list \<Rightarrow> nat \<Rightarrow> nat \<Rightarrow> nat \<Rightarrow> int list \<Rightarrow> bool" where
  "filled tree lv n r x level \<longleftrightarrow> length level = n \<and> level ! r = 0 \<and>
     (\<forall>y<n. level ! y < 0 \<or> 0 \<le> tree ! y \<and> level ! y = lv ! y) \<and>
     (\<forall>y<n. 0 \<le> level ! y \<longrightarrow> y \<noteq> r \<longrightarrow> 0 \<le> level ! nat (tree ! y) \<or> nat (tree ! y) = x)"

definition closed_up :: "int list \<Rightarrow> int list \<Rightarrow> nat \<Rightarrow> nat \<Rightarrow> int list \<Rightarrow> bool" where
  "closed_up tree lv n r level \<longleftrightarrow> (\<forall>x. filled tree lv n r x level)"

lemma filled_closed: "filled tree lv n r x level \<Longrightarrow> 0 \<le> level ! x \<Longrightarrow> closed_up tree lv n r level"
  by (auto simp: filled_def closed_up_def)

lemma climb_returns:
  assumes c: "certified tree lv n r IJ" and t: "n \<le> length tree" and f: "filled tree lv n r y level"
  shows "x < n \<Longrightarrow> 0 \<le> tree ! x \<Longrightarrow> h + lv ! x < int n \<Longrightarrow>
    \<exists>p<n. climb tree level (int n) (int x) h = Some (int p, h + lv ! x - lv ! p) \<and> 0 \<le> level ! p \<and> 0 \<le> lv ! p"
proof (induction "nat (lv ! x)" arbitrary: x h rule: less_induct)
  case less
  have l: "length level = n" "level ! x < 0 \<or> level ! x = lv ! x" using f less.prems by (auto simp: filled_def)
  have lx: "0 \<le> lv ! x" using c less.prems by (simp add: certified_def)
  have g: "geti level (int x) = Some (level ! x)" "geti tree (int x) = Some (tree ! x)" using l t less.prems by (simp_all add: geti_def)
  show ?case
  proof (cases "level ! x < 0")
    case True
    then have "x \<noteq> r" using f by (auto simp: filled_def)
    from certified_parentE [OF c less.prems(1,2) this] obtain u where
      u: "tree ! x = int u" "u < n" "0 \<le> tree ! u" "lv ! x = lv ! u + 1" "0 \<le> lv ! u" "u \<noteq> x" .
    have "\<exists>q<n. climb tree level (int n) (int u) (h + 1) = Some (int q, h + 1 + lv ! u - lv ! q) \<and> 0 \<le> level ! q \<and> 0 \<le> lv ! q"
      using u less.prems(3) by (intro less.hyps) simp_all
    moreover have "climb tree level (int n) (int x) h = climb tree level (int n) (int u) (h + 1)"
      using True g u less.prems(3) by (subst climb.simps) simp
    ultimately show ?thesis using u(4) by (simp add: algebra_simps)
  next
    case False
    then have "climb tree level (int n) (int x) h = Some (int x, h)" using g by (subst climb.simps) simp
    then show ?thesis using less.prems(1) False lx by auto
  qed
qed

lemma assign_returns:
  assumes c: "certified tree lv n r IJ" and t: "n \<le> length tree"
  shows "filled tree lv n r x level \<Longrightarrow> x < n \<Longrightarrow> 0 \<le> tree ! x \<Longrightarrow>
    \<exists>level' p. assign tree level (int x) (lv ! x) = Some (level', int p, lv ! p) \<and> p < n \<and> level' ! p = lv ! p \<and>
      closed_up tree lv n r level' \<and> level' ! x = lv ! x \<and> (\<forall>y<n. 0 \<le> level ! y \<longrightarrow> level' ! y = level ! y)"
proof (induction "nat (lv ! x)" arbitrary: x level rule: less_induct)
  case less
  have l: "length level = n" "level ! x < 0 \<or> level ! x = lv ! x" using less.prems by (auto simp: filled_def)
  have g: "geti level (int x) = Some (level ! x)" "geti tree (int x) = Some (tree ! x)" using l t less.prems by (simp_all add: geti_def)
  show ?case
  proof (cases "level ! x < 0")
    case True
    then have xr: "x \<noteq> r" using less.prems by (auto simp: filled_def)
    from certified_parentE [OF c less.prems(2,3) xr] obtain u where
      u: "tree ! x = int u" "u < n" "0 \<le> tree ! u" "lv ! x = lv ! u + 1" "0 \<le> lv ! u" "u \<noteq> x" .
    define l1 where "l1 = level[x := lv ! x]"
    have l1: "l1 ! y = (if y = x then lv ! x else level ! y)" "length l1 = n" if "y < n" for y
      using l less.prems(2) that by (simp_all add: l1_def nth_list_update)
    have rn: "r < n" using c by (simp add: certified_def)
    have "filled tree lv n r u l1" unfolding filled_def
    proof (intro conjI allI impI)
      show "length l1 = n" "l1 ! r = 0" using l1 rn xr less.prems(1) by (simp_all add: filled_def)
      show "l1 ! y < 0 \<or> 0 \<le> tree ! y \<and> l1 ! y = lv ! y" if "y < n" for y
        using less.prems that l1 [OF that] by (simp add: filled_def)
      show "0 \<le> l1 ! nat (tree ! y) \<or> nat (tree ! y) = u" if y: "y < n" "0 \<le> l1 ! y" "y \<noteq> r" for y
      proof (cases "y = x")
        case False
        then have ly: "0 \<le> level ! y" using l1 y by simp
        then have ty: "0 \<le> tree ! y" using less.prems(1) y(1) by (fastforce simp: filled_def)
        from certified_parentE [OF c y(1) ty y(3)] have tn: "nat (tree ! y) < n" by (metis nat_int)
        have "0 \<le> level ! nat (tree ! y) \<or> nat (tree ! y) = x" using less.prems(1) y ly by (simp add: filled_def)
        with l1(1) [OF tn] u(4,5) show ?thesis by auto
      qed (use u(1) in simp)
    qed
    with u have "\<exists>level' q. assign tree l1 (int u) (lv ! u) = Some (level', int q, lv ! q) \<and> q < n \<and> level' ! q = lv ! q \<and>
        closed_up tree lv n r level' \<and> level' ! u = lv ! u \<and> (\<forall>y<n. 0 \<le> l1 ! y \<longrightarrow> level' ! y = l1 ! y)"
      by (intro less.hyps) simp_all
    then obtain level' q where ih: "assign tree l1 (int u) (lv ! u) = Some (level', int q, lv ! q)" "q < n" "level' ! q = lv ! q"
      "closed_up tree lv n r level'" "\<forall>y<n. 0 \<le> l1 ! y \<longrightarrow> level' ! y = l1 ! y" by blast
    have "seti level (int x) (lv ! x) = Some l1" using l less.prems by (simp add: seti_def l1_def)
    then have A: "assign tree level (int x) (lv ! x) = Some (level', int q, lv ! q)"
      using True g u ih(1) by (subst assign.simps) simp
    have "l1 ! x = lv ! x" "0 \<le> l1 ! x" using l1(1) [OF less.prems(2)] u(4,5) by simp_all
    then have B: "level' ! x = lv ! x" using ih(5) less.prems(2) by simp
    have C: "level' ! y = level ! y" if "y < n" "0 \<le> level ! y" for y
    proof -
      have "y \<noteq> x" using that True by auto
      then show ?thesis using l1(1) [OF that(1)] ih(5) that by simp
    qed
    show ?thesis by (rule exI [of _ level'], rule exI [of _ q]) (simp only: A B C ih(2-4) simp_thms cong: imp_cong)
  next
    case False
    then have "assign tree level (int x) (lv ! x) = Some (level, int x, lv ! x)" using g by (subst assign.simps) simp
    then show ?thesis using False l less.prems filled_closed [OF less.prems(1)] by auto
  qed
qed

lemma recheck_returns:
  assumes c: "certified tree lv n r IJ" and t: "n \<le> length tree" and f: "closed_up tree lv n r level"
  shows "x < n \<Longrightarrow> 0 \<le> level ! x \<Longrightarrow> recheck tree level (int x) (level ! x + 1) = Some ()"
proof (induction "nat (level ! x)" arbitrary: x rule: less_induct)
  case less
  have l: "length level = n" "level ! y < 0 \<or> 0 \<le> tree ! y \<and> level ! y = lv ! y" if "y < n" for y
    using f that by (auto simp: closed_up_def filled_def)
  have g: "geti level (int x) = Some (level ! x)" "geti tree (int x) = Some (tree ! x)" using l [OF less.prems(1)] t less.prems by (simp_all add: geti_def)
  show ?case
  proof (cases "0 < level ! x")
    case True
    then have xr: "x \<noteq> r" using f by (auto simp: closed_up_def filled_def)
    have tx: "0 \<le> tree ! x" "level ! x = lv ! x" using l [OF less.prems(1)] less.prems(2) by auto
    from certified_parentE [OF c less.prems(1) tx(1) xr] obtain u where
      u: "tree ! x = int u" "u < n" "lv ! x = lv ! u + 1" "0 \<le> lv ! u" .
    have "filled tree lv n r (Suc u) level" using f by (simp add: closed_up_def)
    then have "0 \<le> level ! nat (tree ! x) \<or> nat (tree ! x) = Suc u" using less.prems xr by (simp add: filled_def)
    with l(2) [OF u(2)] u(1) have lu: "level ! u = lv ! u" "0 \<le> level ! u" by auto
    have "level ! x = level ! u + 1" using lu u tx by simp
    moreover have "recheck tree level (int u) (level ! u + 1) = Some ()"
      using lu u tx by (intro less.hyps) simp_all
    ultimately show ?thesis using True g u(1) by (subst recheck.simps) simp
  next
    case False
    then show ?thesis using g by (subst recheck.simps) simp
  qed
qed


lemma level_vertex_returns:
  assumes c: "certified tree lv n r IJ" and t: "n \<le> length tree" and f: "closed_up tree lv n r level" and k: "k < n" "0 \<le> tree ! k" "k \<noteq> r"
  shows "\<exists>level'. level_vertex tree (int n) (int k) level = Some (0, level') \<and> closed_up tree lv n r level' \<and> 0 \<le> level' ! k \<and>
    (\<forall>y<n. 0 \<le> level ! y \<longrightarrow> level' ! y = level ! y)"
proof -
  have fk: "filled tree lv n r k level" using f by (simp add: closed_up_def)
  have lk: "lv ! k < int n" "0 \<le> lv ! k" using certified_level_less [OF c k(1,2)] c k by (simp_all add: certified_def)
  from climb_returns [OF c t fk k(1,2), of 0] lk obtain p where
    p: "p < n" "climb tree level (int n) (int k) 0 = Some (int p, lv ! k - lv ! p)" "0 \<le> level ! p" "0 \<le> lv ! p" by auto
  have lp: "level ! p = lv ! p" "length level = n" using fk p by (auto simp: filled_def)
  from assign_returns [OF c t fk k(1,2)] obtain level' q where
    a: "assign tree level (int k) (lv ! k) = Some (level', int q, lv ! q)" "q < n" "level' ! q = lv ! q"
    "closed_up tree lv n r level'" "level' ! k = lv ! k" "\<forall>y<n. 0 \<le> level ! y \<longrightarrow> level' ! y = level ! y" by blast
  have l': "length level' = n" using a(4) by (simp add: closed_up_def filled_def)
  have g: "geti level (int p) = Some (lv ! p)" "geti level' (int q) = Some (lv ! q)" "geti level' (int k) = Some (lv ! k)"
    using p a k l' lp by (simp_all add: geti_def)
  have rc: "recheck tree level' (int k) (lv ! k + 1) = Some ()" using recheck_returns [OF c t a(4) k(1)] a(5) lk by simp
  have "level_vertex tree (int n) (int k) level = Some (0, level')"
    using p(2,4) lk by (simp add: level_vertex_def g a(1) rc)
  with a lk show ?thesis by auto
qed

lemma compute_levels_returns:
  assumes c: "certified tree lv n r IJ" and t: "n \<le> length tree"
  shows "\<exists>level. compute_levels (replicate n 0) (int n) tree (int r) = Some (0, level) \<and> length level = n \<and>
    (\<forall>k<n. 0 \<le> tree ! k \<longrightarrow> level ! k = lv ! k)"
proof -
  have rn: "r < n" "0 \<le> tree ! r" "lv ! r = 0" using c by (simp_all add: certified_def levels_ok_def)
  have "\<exists>level. for_up 0 n (\<lambda>k level. aset level k (if int k = int r then 0 else - 1)) (replicate n 0) = Some level \<and>
      (length level = n \<and> (\<forall>k<n. level ! k = (if k = r then 0 else - 1 :: int)))"
    by (rule for_up_rule [where P = "\<lambda>i level. length level = n \<and> (\<forall>k<i. level ! k = (if k = r then 0 else - 1 :: int))"])
      (auto simp: nth_list_update less_Suc_eq)
  then obtain l0 :: "int list" where l0: "for_up 0 n (\<lambda>k level. aset level k (if int k = int r then 0 else - 1)) (replicate n 0) = Some l0"
    "length l0 = n" "\<forall>k<n. l0 ! k = (if k = r then 0 else - 1)" by blast
  let ?P = "\<lambda>i (s :: int \<times> int list). fst s = 0 \<and> closed_up tree lv n r (snd s) \<and> (\<forall>k<i. 0 \<le> tree ! k \<longrightarrow> 0 \<le> snd s ! k)"
  have "\<exists>s. for_up 0 n (level_step tree (int n) (int r)) (0, l0) = Some s \<and> ?P n s"
  proof (rule for_up_rule [where P = ?P])
    show "?P 0 (0, l0)" using l0 rn by (auto simp: closed_up_def filled_def)
    fix i s assume i: "i < n" and P: "?P i s"
    obtain level where s: "s = (0, level)" using P by (cases s) auto
    have f: "closed_up tree lv n r level" "\<forall>k<i. 0 \<le> tree ! k \<longrightarrow> 0 \<le> level ! k" using P by (simp_all add: s)
    have g: "aget level i = Some (level ! i)" "aget tree i = Some (tree ! i)" using i t f by (simp_all add: closed_up_def filled_def)
    show "\<exists>s'. level_step tree (int n) (int r) i s = Some s' \<and> ?P (Suc i) s'"
    proof (cases "level ! i < 0 \<and> 0 \<le> tree ! i")
      case True
      then have "i \<noteq> r" using f by (auto simp: closed_up_def filled_def)
      with level_vertex_returns [OF c t f(1) i] True obtain level' where l': "level_vertex tree (int n) (int i) level = Some (0, level')"
        "closed_up tree lv n r level'" "0 \<le> level' ! i" "\<forall>y<n. 0 \<le> level ! y \<longrightarrow> level' ! y = level ! y" by auto
      have "level_step tree (int n) (int r) i s = Some (0, level')" using True l'(1) \<open>i \<noteq> r\<close> by (simp add: level_step_def s g)
      then show ?thesis using l' f i by (auto simp: less_Suc_eq)
    next
      case False
      then have "level_step tree (int n) (int r) i s = Some s" using f by (auto simp: level_step_def s g)
      then show ?thesis using P False by (auto simp: s less_Suc_eq)
    qed
  qed simp
  then obtain s where s: "for_up 0 n (level_step tree (int n) (int r)) (0, l0) = Some s" "?P n s" by blast
  have "compute_levels (replicate n 0) (int n) tree (int r) = Some s" using l0(1) s(1) by (simp add: compute_levels_def)
  moreover have "\<forall>k<n. 0 \<le> tree ! k \<longrightarrow> snd s ! k = lv ! k" "length (snd s) = n"
    using s(2) by (fastforce simp: closed_up_def filled_def)+
  ultimately show ?thesis using s(2) by (cases s) auto
qed


section \<open>The passes accept\<close>

text \<open>After the edges: no error, the edges inside counted, and every tree edge that occurred seen.\<close>

definition passed :: "int list \<Rightarrow> nat \<Rightarrow> packed_edge list \<Rightarrow> nat \<Rightarrow> vstate \<Rightarrow> bool" where
  "passed tree n IJ k s \<longleftrightarrow> verr s = 0 \<and> vterr s = 0 \<and> length (seen s) = n \<and>
     traversed s = int (length (filter (inside tree n) (take k IJ))) \<and>
     (\<forall>e\<in>set (take k IJ). \<forall>x<n. \<forall>u. joins e x u \<and> u \<noteq> x \<and> tree ! x = int u \<longrightarrow> seen s ! x \<noteq> 0)"

lemma mark_seen_returns:
  assumes "i < n" "j < n" "n \<le> length tree" "length sn = n"
  shows "\<exists>sn'. mark_seen tree (int i) (int j) sn = Some sn' \<and> length sn' = n \<and>
    (\<forall>x<n. sn ! x \<noteq> 0 \<or> i \<noteq> j \<and> (x = i \<and> tree ! x = int j \<or> x = j \<and> tree ! x = int i) \<longrightarrow> sn' ! x \<noteq> 0)"
  using assms by (auto simp: mark_seen_def geti_def seti_def nth_list_update)

lemma edge_step_passes:
  assumes k: "k < length IJ" and t: "n \<le> length tree" "length level = n" and e: "edge_fine tree level n (IJ ! k)" and p: "passed tree n IJ k s"
  shows "\<exists>s'. edge_step tree level (int n - 1) IJ k s = Some s' \<and> passed tree n IJ (Suc k) s'"
proof -
  let ?e = "IJ ! k"
  have tk: "take (Suc k) IJ = take k IJ @ [?e]" using k by (simp add: take_Suc_conv_app_nth)
  have v: "verr s = 0" using p by (simp add: passed_def)
  note g = edge_step_good [OF k refl v, of tree level n]
  have r: "src ?e < n \<longleftrightarrow> tgt ?e < n" using e by (simp add: edge_fine_def)
  show ?thesis
  proof (cases "inside tree n ?e")
    case False
    have "edge_step tree level (int n - 1) IJ k s = Some (s\<lparr>vterr := 0\<rparr>)"
    proof (cases "n \<le> src ?e")
      case True
      then show ?thesis using r by (simp add: g)
    next
      case lt: False
      then have "tree ! src ?e < 0" using False by (simp add: inside_def)
      then show ?thesis using lt r t e by (simp add: g geti_def edge_fine_def not_le)
    qed
    moreover have "\<not> (joins ?e x u \<and> u \<noteq> x \<and> tree ! x = int u)" if "x < n" for x u
      using that False e r by (auto simp: joins_def inside_def edge_fine_def)
    ultimately show ?thesis using p False by (auto simp: passed_def tk)
  next
    case True
    then have b: "src ?e < n" "tgt ?e < n" "0 \<le> tree ! src ?e" "0 \<le> tree ! tgt ?e" "\<bar>level ! src ?e - level ! tgt ?e\<bar> \<le> 1"
      using e by (auto simp: inside_def edge_fine_def)
    have ls: "length (seen s) = n" using p by (simp add: passed_def)
    from mark_seen_returns [OF b(1,2) t(1) ls] obtain sn' where
      m: "mark_seen tree (int (src ?e)) (int (tgt ?e)) (seen s) = Some sn'" "length sn' = n"
      "\<And>x. x < n \<Longrightarrow> seen s ! x \<noteq> 0 \<or> src ?e \<noteq> tgt ?e \<and> (x = src ?e \<and> tree ! x = int (tgt ?e) \<or> x = tgt ?e \<and> tree ! x = int (src ?e)) \<Longrightarrow> sn' ! x \<noteq> 0"
      by blast
    have "edge_step tree level (int n - 1) IJ k s = Some (s\<lparr>vterr := 0, traversed := traversed s + 1, seen := sn'\<rparr>)"
      using b t m(1) by (simp add: g geti_def abs_le_iff set_err_0 not_le)
    moreover have "sn' ! x \<noteq> 0" if "f \<in> set (take (Suc k) IJ)" "x < n" "joins f x u" "u \<noteq> x" "tree ! x = int u" for f x u
    proof (cases "f = ?e")
      case True
      then show ?thesis using m(3) [OF that(2)] that by (auto simp: joins_def)
    next
      case False
      then have "f \<in> set (take k IJ)" using that(1) by (simp add: tk)
      then have "seen s ! x \<noteq> 0" using p that unfolding passed_def by blast
      then show ?thesis using m(3) [OF that(2)] by simp
    qed
    ultimately show ?thesis using p True m(2) by (auto simp: passed_def tk)
  qed
qed

lemma root_pass_returns:
  assumes "passed tree n IJ (length IJ) s" "n \<le> length tree"
    and "\<And>x. x < n \<Longrightarrow> x \<noteq> r \<Longrightarrow> 0 \<le> tree ! x \<Longrightarrow> tree ! x \<noteq> int x \<and> seen s ! x \<noteq> 0"
  shows "for_up 0 n (root_step tree (int r)) s = Some s"
proof -
  have st: "root_step tree (int r) k s = Some s" if "k < n" for k
    using assms that by (cases "0 \<le> tree ! k") (auto simp: root_step_def passed_def)
  have "\<exists>s'. for_up 0 n (root_step tree (int r)) s = Some s' \<and> s' = s"
    by (rule for_up_rule [where P = "\<lambda>_ s'. s' = s"]) (use st in simp_all)
  then show ?thesis by simp
qed

text \<open>A certified tree is accepted, with the number of edges in the component of the root.\<close>

lemma certified_accepted:
  assumes c: "certified tree lv n r IJ" and t: "n \<le> length tree"
  shows "verify_bfs_tree tree (int n - 1) (int r) IJ (length IJ) = Some (int (length (filter (\<lambda>e. reach IJ r (src e)) IJ)))"
proof -
  have rn: "r < n" "tree ! r = int r" using c by (simp_all add: certified_def)
  from compute_levels_returns [OF c t] obtain level where
    l: "compute_levels (replicate n 0) (int n) tree (int r) = Some (0, level)" "length level = n" "\<And>k. k < n \<Longrightarrow> 0 \<le> tree ! k \<Longrightarrow> level ! k = lv ! k" by blast
  have fine: "edge_fine tree level n (IJ ! k)" if "k < length IJ" for k
    using c nth_mem [OF that] l(3) by (auto simp: certified_def edge_fine_def)
  have z: "for_up 0 n (\<lambda>k sn. aset sn k 0) (replicate n (0 :: int)) = Some (replicate n 0)"
    using for_up_rule [of 0 n "\<lambda>_ sn. sn = replicate n (0 :: int)" "replicate n 0" "\<lambda>k sn. aset sn k 0"]
    by (simp add: list_update_same_conv)
  define s0 where "s0 = \<lparr>verr = 0, vterr = 0, traversed = 0, seen = replicate n 0\<rparr>"
  have "\<exists>s. for_up 0 (length IJ) (edge_step tree level (int n - 1) IJ) s0 = Some s \<and> passed tree n IJ (length IJ) s"
    by (rule for_up_rule [where P = "passed tree n IJ"]) (use edge_step_passes [OF _ t l(2) fine] in \<open>auto simp: passed_def [of _ _ _ 0] s0_def\<close>)
  then obtain s where s: "for_up 0 (length IJ) (edge_step tree level (int n - 1) IJ) s0 = Some s" "passed tree n IJ (length IJ) s" by blast
  have "for_up 0 n (root_step tree (int r)) s = Some s"
  proof (rule root_pass_returns [OF s(2) t])
    fix x assume x: "x < n" "x \<noteq> r" "0 \<le> tree ! x"
    from certified_parentE [OF c x(1,3,2)] obtain u where u: "tree ! x = int u" "u \<noteq> x" "adj IJ x u" .
    then show "tree ! x \<noteq> int x \<and> seen s ! x \<noteq> 0" using s(2) x(1) by (auto simp: passed_def adj_def)
  qed
  then have "verify_passes tree level (int n - 1) (int r) IJ (length IJ) (replicate n 0) = Some (traversed s)"
    using s z by (simp add: verify_passes_def passed_def flip: s0_def)
  moreover have "inside tree n = (\<lambda>e. reach IJ r (src e))" using certified_reach [OF c] by (simp add: fun_eq_iff inside_def)
  ultimately show ?thesis using rn t l(1) s(2) by (simp add: verify_bfs_tree_def geti_def passed_def)
qed

end
