(* ===== verification/SeqList.thy ===== *)
theory SeqList
  imports BfsAccept
begin

text \<open>
  The sequential linked-list implementation of Graph500, \<open>sources/graph500/seq-list/seq-list.c\<close>: \<open>create_graph_from_edgelist\<close>
  threads the ends of the edges on a list per vertex, \<open>make_bfs_tree\<close> searches over these lists. Half-edge \<open>2k+1\<close>
  leads to the second vertex of edge \<open>k\<close> and half-edge \<open>2k\<close> to the first. The three arrays of the single
  allocation are kept apart; an access outside of one of them and a failed \<open>assert\<close> are \<open>None\<close>.
\<close>

section \<open>Building the lists\<close>

record list_graph =
  lIJ :: "packed_edge list"
  lnIJ :: nat
  lmaxvtx :: int
  maxdeg :: int
  head :: "int list"
  deg :: "int list"
  lnext :: "int list"

text \<open>The loop for \<open>maxvtx\<close>, the same in \<open>seq-csr.c\<close>.\<close>

definition max_step :: "packed_edge list \<Rightarrow> nat \<Rightarrow> int \<Rightarrow> int option" where
  "max_step IJ k maxvtx = do {
     e \<leftarrow> aget IJ k;
     let maxvtx = (if maxvtx < get_v0_from_edge e then get_v0_from_edge e else maxvtx);
     let maxvtx = (if maxvtx < get_v1_from_edge e then get_v1_from_edge e else maxvtx);
     Some maxvtx }"

definition find_maxvtx :: "packed_edge list \<Rightarrow> nat \<Rightarrow> int option" where
  "find_maxvtx IJ nedge = for_up 0 nedge (max_step IJ) (- 1)"

text \<open>Put half-edge \<open>t\<close> in front of the list of vertex \<open>i\<close>.\<close>

definition link_half :: "nat \<Rightarrow> int \<Rightarrow> int \<Rightarrow> int list \<times> int list \<times> int list \<Rightarrow> (int list \<times> int list \<times> int list) option" where
  "link_half nIJ i t = (\<lambda>(hs, dg, nx). do {
     t_head \<leftarrow> geti hs i;
     hs \<leftarrow> seti hs i t;
     if \<not> t_head < 2 * int nIJ then None else do {
     nx \<leftarrow> seti nx t t_head;
     d \<leftarrow> geti dg i;
     dg \<leftarrow> seti dg i (d + 1);
     Some (hs, dg, nx) } })"

definition link_edge :: "packed_edge list \<Rightarrow> nat \<Rightarrow> nat \<Rightarrow> int list \<times> int list \<times> int list \<Rightarrow> (int list \<times> int list \<times> int list) option" where
  "link_edge IJ nIJ k = (\<lambda>(hs, dg, nx). do {
     e \<leftarrow> aget IJ k;
     let i = get_v0_from_edge e;
     let j = get_v1_from_edge e;
     if 0 \<le> i \<and> 0 \<le> j \<and> i \<noteq> j then do {
       nx \<leftarrow> seti nx (2 * int k) (- 1);
       nx \<leftarrow> seti nx (1 + 2 * int k) (- 1);
       let t = 2 * int k + 1;
       s \<leftarrow> link_half nIJ i t (hs, dg, nx);
       let t = t - 1;
       link_half nIJ j t s }
     else Some (hs, dg, nx) })"

definition clear_vertex :: "nat \<Rightarrow> int list \<times> int list \<Rightarrow> (int list \<times> int list) option" where
  "clear_vertex k = (\<lambda>(hs, dg). do { hs \<leftarrow> aset hs k (- 1); dg \<leftarrow> aset dg k 0; Some (hs, dg) })"

definition max_deg_step :: "int list \<Rightarrow> nat \<Rightarrow> int \<Rightarrow> int option" where
  "max_deg_step dg kg mdeg = do { d \<leftarrow> aget dg kg; Some (if mdeg < d then d else mdeg) }"

definition list_create_graph :: "packed_edge list \<Rightarrow> nat \<Rightarrow> list_graph option" where
  "list_create_graph IJ nedge = do {
     maxvtx \<leftarrow> find_maxvtx IJ nedge;
     let nv = nat (maxvtx + 1);
     let hs = replicate nv 0;
     let dg = replicate nv 0;
     let nx = replicate (2 * nedge) 0;
     (hs, dg) \<leftarrow> for_up 0 nv clear_vertex (hs, dg);
     (hs, dg, nx) \<leftarrow> for_up 0 nedge (link_edge IJ nedge) (hs, dg, nx);
     mdeg \<leftarrow> for_up 0 nv (max_deg_step dg) (- 1);
     Some \<lparr>lIJ = IJ, lnIJ = nedge, lmaxvtx = maxvtx, maxdeg = mdeg, head = hs, deg = dg, lnext = nx\<rparr> }"

section \<open>The search\<close>

definition half_target :: "packed_edge list \<Rightarrow> int \<Rightarrow> int option" where
  "half_target IJ p = do {
     e \<leftarrow> geti IJ (p div 2);
     Some (if p mod 2 \<noteq> 0 then get_v1_from_edge e else get_v0_from_edge e) }"

text \<open>\<open>while (p >= 0)\<close>: along the list of a vertex.\<close>

partial_function (option) scan_list :: "list_graph \<Rightarrow> int \<Rightarrow> int \<Rightarrow> int list \<times> int list \<times> nat \<Rightarrow> (int list \<times> int list \<times> nat) option" where
  "scan_list g parent p s =
     (if 0 \<le> p then do {
        newv \<leftarrow> half_target (lIJ g) p;
        let (tree, vlist, newk2) = s;
        t \<leftarrow> geti tree newv;
        s \<leftarrow> (if t < 0 then do {
                tree \<leftarrow> seti tree newv parent;
                vlist \<leftarrow> aset vlist newk2 newv;
                Some (tree, vlist, newk2 + 1) }
              else Some (tree, vlist, newk2));
        p \<leftarrow> geti (lnext g) p;
        scan_list g parent p s }
      else Some s)"

text \<open>
  \<open>for (k = k1; k < k2; ++k)\<close>, whose body ends with \<open>k1 = k2; k2 = newk2\<close>; \<open>newk2\<close> is part of the state.
\<close>

partial_function (option) list_for :: "list_graph \<Rightarrow> nat \<Rightarrow> nat \<Rightarrow> nat \<Rightarrow> int list \<times> int list \<times> nat \<Rightarrow> (nat \<times> nat \<times> int list \<times> int list) option" where
  "list_for g k k1 k2 s =
     (if k < k2 then do {
        let (tree, vlist, newk2) = s;
        parent \<leftarrow> aget vlist k;
        p \<leftarrow> geti (head g) parent;
        (tree, vlist, newk2) \<leftarrow> scan_list g parent p (tree, vlist, newk2);
        list_for g (k + 1) k2 newk2 (tree, vlist, newk2) }
      else (case s of (tree, vlist, newk2) \<Rightarrow> Some (k1, k2, tree, vlist)))"

partial_function (option) list_while :: "list_graph \<Rightarrow> nat \<Rightarrow> nat \<Rightarrow> int list \<Rightarrow> int list \<Rightarrow> int list option" where
  "list_while g k1 k2 tree vlist =
     (if k1 \<noteq> k2 then do {
        (k1, k2, tree, vlist) \<leftarrow> list_for g k1 k1 k2 (tree, vlist, k2);
        list_while g k1 k2 tree vlist }
      else Some tree)"

text \<open>\<open>make_bfs_tree\<close> returns the error code, \<open>*max_vtx_out\<close> and the tree.\<close>

definition list_make_bfs_tree :: "list_graph \<Rightarrow> int list \<Rightarrow> int \<Rightarrow> (int \<times> int \<times> int list) option" where
  "list_make_bfs_tree g bfs_tree srcvtx = do {
     let nv = lmaxvtx g + 1;
     tree \<leftarrow> seti bfs_tree srcvtx srcvtx;
     let vlist = replicate (nat nv) 0;
     tree \<leftarrow> seti tree srcvtx srcvtx;
     vlist \<leftarrow> seti vlist 0 srcvtx;
     tree \<leftarrow> for_up 0 (nat srcvtx) (\<lambda>k tree. aset tree k (- 1)) tree;
     tree \<leftarrow> for_up (nat (srcvtx + 1)) (nat nv) (\<lambda>k tree. aset tree k (- 1)) tree;
     tree \<leftarrow> list_while g 0 1 tree vlist;
     Some (0, lmaxvtx g, tree) }"

section \<open>The largest vertex\<close>

lemma max_step_ok:
  assumes "k < length IJ"
  shows "max_step IJ k m = Some (max (max m (int (src (IJ ! k)))) (int (tgt (IJ ! k))))"
  using assms by (simp add: max_step_def get_edge max_def)

lemma find_maxvtx_ok:
  "\<exists>m. find_maxvtx IJ (length IJ) = Some m \<and> - 1 \<le> m \<and> (\<forall>e\<in>set IJ. int (src e) \<le> m \<and> int (tgt e) \<le> m)"
proof -
  have "\<exists>m. for_up 0 (length IJ) (max_step IJ) (- 1) = Some m \<and>
      (- 1 \<le> m \<and> (\<forall>e\<in>set (take (length IJ) IJ). int (src e) \<le> m \<and> int (tgt e) \<le> m))"
    by (rule for_up_rule [where P = "\<lambda>k m. - 1 \<le> m \<and> (\<forall>e\<in>set (take k IJ). int (src e) \<le> m \<and> int (tgt e) \<le> m)"])
      (auto simp: max_step_ok take_Suc_conv_app_nth)
  then show ?thesis by (simp add: find_maxvtx_def)
qed

section \<open>The lists\<close>

text \<open>The half-edges of a vertex among the first \<open>k\<close> edges, the last one first.\<close>

fun halves :: "packed_edge list \<Rightarrow> nat \<Rightarrow> nat \<Rightarrow> nat list" where
  "halves IJ v 0 = []"
| "halves IJ v (Suc k) = (let e = IJ ! k in
     if src e = tgt e then halves IJ v k
     else if src e = v then (2 * k + 1) # halves IJ v k
     else if tgt e = v then (2 * k) # halves IJ v k
     else halves IJ v k)"

fun threaded :: "int list \<Rightarrow> int \<Rightarrow> nat list \<Rightarrow> bool" where
  "threaded nx p [] \<longleftrightarrow> p = - 1"
| "threaded nx p (t # ts) \<longleftrightarrow> p = int t \<and> t < length nx \<and> threaded nx (nx ! t) ts"

lemma threaded_update: "t \<notin> set ts \<Longrightarrow> threaded (nx[t := x]) p ts = threaded nx p ts"
  by (induction ts arbitrary: p) auto

lemma halves_less: "t \<in> set (halves IJ v k) \<Longrightarrow> t < 2 * k"
  by (induction k) (auto simp: Let_def split: if_splits)

lemma threaded_head: "threaded nx p ts \<Longrightarrow> p < int (length nx)"
  by (cases ts) auto

definition lists_ok :: "packed_edge list \<Rightarrow> nat \<Rightarrow> nat \<Rightarrow> int list \<times> int list \<times> int list \<Rightarrow> bool" where
  "lists_ok IJ n k = (\<lambda>(hs, dg, nx). length hs = n \<and> length dg = n \<and> length nx = 2 * length IJ \<and>
     (\<forall>v<n. threaded nx (hs ! v) (halves IJ v k) \<and> dg ! v = int (length (halves IJ v k))))"

lemma link_half_ok:
  assumes "i < length hs" "i < length dg" "t < length nx" "hs ! i < 2 * int m"
  shows "link_half m (int i) (int t) (hs, dg, nx) = Some (hs[i := int t], dg[i := dg ! i + 1], nx[t := hs ! i])"
  using assms by (simp add: link_half_def geti_def seti_def)

lemma link_edge_ok:
  assumes k: "k < length IJ" and e: "src (IJ ! k) < n" "tgt (IJ ! k) < n" and l: "lists_ok IJ n k s"
  shows "\<exists>s'. link_edge IJ (length IJ) k s = Some s' \<and> lists_ok IJ n (Suc k) s'"
proof -
  obtain hs dg nx where s: "s = (hs, dg, nx)" by (cases s)
  let ?i = "src (IJ ! k)" and ?j = "tgt (IJ ! k)"
  have len: "length hs = n" "length dg = n" "length nx = 2 * length IJ" using l by (simp_all add: lists_ok_def s)
  have th: "threaded nx (hs ! v) (halves IJ v k)" "dg ! v = int (length (halves IJ v k))" if "v < n" for v
    using l that by (simp_all add: lists_ok_def s)
  show ?thesis
  proof (cases "?i = ?j")
    case True
    then show ?thesis using k l by (simp add: link_edge_def s get_edge lists_ok_def)
  next
    case False
    define t where "t = 2 * k + 1"
    define u where "u = 2 * k"
    have tu: "int u + 1 = int t" "1 + int u = int t" "2 * int k = int u" "int t - 1 = int u" "t \<noteq> u" "t < length nx" "u < length nx"
      using k len by (simp_all add: t_def u_def)
    define nx' where "nx' = nx[u := - 1, t := - 1]"
    have n': "seti nx (int u) (- 1) = Some (nx[u := - 1])" "seti (nx[u := - 1]) (int t) (- 1) = Some nx'"
      using tu by (simp_all add: seti_def nx'_def)
    have hb: "hs ! v < 2 * int (length IJ)" if "v < n" for v using threaded_head [OF th(1) [OF that]] len by simp
    have h1: "link_half (length IJ) (int ?i) (int t) (hs, dg, nx') = Some (hs[?i := int t], dg[?i := dg ! ?i + 1], nx'[t := hs ! ?i])"
      using e len tu hb [OF e(1)] by (intro link_half_ok) (simp_all add: nx'_def)
    have h2: "link_half (length IJ) (int ?j) (int u) (hs[?i := int t], dg[?i := dg ! ?i + 1], nx'[t := hs ! ?i]) =
        Some (hs[?i := int t, ?j := int u], dg[?i := dg ! ?i + 1, ?j := dg ! ?j + 1], nx'[t := hs ! ?i, u := hs ! ?j])"
      using e len tu hb [OF e(2)] False link_half_ok [of ?j "hs[?i := int t]" "dg[?i := dg ! ?i + 1]" u "nx'[t := hs ! ?i]" "length IJ"]
      by (simp add: nx'_def)
    have nxu: "nx'[t := hs ! ?i, u := hs ! ?j] = nx[u := hs ! ?j, t := hs ! ?i]"
      using tu(5-7) by (intro nth_equalityI) (auto simp: nx'_def nth_list_update)
    have step: "link_edge IJ (length IJ) k s = Some (hs[?i := int t, ?j := int u],
        dg[?i := dg ! ?i + 1, ?j := dg ! ?j + 1], nx[u := hs ! ?j, t := hs ! ?i])"
      using k False by (simp add: link_edge_def s get_edge tu n' h1 h2 nxu Let_def)
    have "t \<notin> set (halves IJ v k)" "u \<notin> set (halves IJ v k)" for v
      using halves_less [of _ IJ v k] by (force simp: t_def u_def)+
    then have keep: "threaded (nx[u := x, t := y]) p (halves IJ v k) = threaded nx p (halves IJ v k)" for x y p v
      by (simp add: threaded_update)
    have hv: "halves IJ v (Suc k) = (if ?i = v then t # halves IJ v k else if ?j = v then u # halves IJ v k else halves IJ v k)" for v
      using False by (simp add: t_def u_def Let_def)
    have "lists_ok IJ n (Suc k) (hs[?i := int t, ?j := int u],
        dg[?i := dg ! ?i + 1, ?j := dg ! ?j + 1], nx[u := hs ! ?j, t := hs ! ?i])"
      unfolding lists_ok_def prod.case hv
      using th e len tu(5-7) False by (auto simp: keep nth_list_update)
    with step show ?thesis by blast
  qed
qed

text \<open>The graph that is built, for any list of edges.\<close>

definition list_ok :: "packed_edge list \<Rightarrow> list_graph \<Rightarrow> bool" where
  "list_ok IJ g \<longleftrightarrow> lIJ g = IJ \<and> - 1 \<le> lmaxvtx g \<and> (\<forall>e\<in>set IJ. int (src e) \<le> lmaxvtx g \<and> int (tgt e) \<le> lmaxvtx g) \<and>
     lists_ok IJ (nat (lmaxvtx g + 1)) (length IJ) (head g, deg g, lnext g)"

lemma list_create_ok: "\<exists>g. list_create_graph IJ (length IJ) = Some g \<and> list_ok IJ g"
proof -
  from find_maxvtx_ok [of IJ] obtain m where m: "find_maxvtx IJ (length IJ) = Some m" "- 1 \<le> m"
    "\<forall>e\<in>set IJ. int (src e) \<le> m \<and> int (tgt e) \<le> m" by blast
  define n where "n = nat (m + 1)"
  have "\<exists>s. for_up 0 n clear_vertex (replicate n 0, replicate n 0) = Some s \<and>
      (length (fst s) = n \<and> length (snd s) = n \<and> (\<forall>v<n. fst s ! v = - 1 \<and> snd s ! v = 0))"
    by (rule for_up_rule [where P = "\<lambda>k s. length (fst s) = n \<and> length (snd s) = n \<and> (\<forall>v<k. fst s ! v = - 1 \<and> snd s ! v = 0)"])
      (auto simp: clear_vertex_def nth_list_update less_Suc_eq)
  then obtain hs dg where i: "for_up 0 n clear_vertex (replicate n 0, replicate n 0) = Some (hs, dg)"
    "length hs = n" "length dg = n" "\<forall>v<n. hs ! v = - 1 \<and> dg ! v = 0" by auto
  have l0: "lists_ok IJ n 0 (hs, dg, replicate (2 * length IJ) 0)" using i by (simp add: lists_ok_def)
  have "\<exists>s. for_up 0 (length IJ) (link_edge IJ (length IJ)) (hs, dg, replicate (2 * length IJ) 0) = Some s \<and> lists_ok IJ n (length IJ) s"
  proof (rule for_up_rule [where P = "lists_ok IJ n", OF _ l0])
    fix k s assume k: "k < length IJ" and s: "lists_ok IJ n k s"
    have "src (IJ ! k) < n" "tgt (IJ ! k) < n" using m(3) nth_mem [OF k] by (auto simp: n_def)
    from link_edge_ok [OF k this s] show "\<exists>s'. link_edge IJ (length IJ) k s = Some s' \<and> lists_ok IJ n (Suc k) s'" .
  qed simp
  then obtain hs' dg' nx' where l: "for_up 0 (length IJ) (link_edge IJ (length IJ)) (hs, dg, replicate (2 * length IJ) 0) = Some (hs', dg', nx')"
    "lists_ok IJ n (length IJ) (hs', dg', nx')" by auto
  have "\<exists>md. for_up 0 n (max_deg_step dg') (- 1) = Some md \<and> True"
    by (rule for_up_rule [where P = "\<lambda>_ _. True"]) (use l(2) in \<open>auto simp: lists_ok_def max_deg_step_def\<close>)
  then obtain md where "for_up 0 n (max_deg_step dg') (- 1) = Some md" by blast
  then show ?thesis using m i l by (simp add: list_create_graph_def n_def [symmetric] list_ok_def)
qed

text \<open>The neighbours along the list of a vertex; no list is longer than the array.\<close>

fun walk :: "nat \<Rightarrow> int list \<Rightarrow> int \<Rightarrow> nat list" where
  "walk 0 nx p = []"
| "walk (Suc f) nx p = (if p < 0 then [] else nat p # walk f nx (nx ! nat p))"

lemma threaded_walk: "threaded nx p ts \<Longrightarrow> length ts \<le> f \<Longrightarrow> walk f nx p = ts"
proof (induction ts arbitrary: f p)
  case Nil
  then show ?case by (cases f) simp_all
next
  case (Cons t ts)
  then show ?case by (cases f) auto
qed

lemma length_halves: "length (halves IJ v k) \<le> k"
  by (induction k) (auto simp: Let_def)

definition half_tgt :: "packed_edge list \<Rightarrow> nat \<Rightarrow> nat" where
  "half_tgt IJ t = (if odd t then tgt (IJ ! (t div 2)) else src (IJ ! (t div 2)))"

definition list_neighbours :: "list_graph \<Rightarrow> nat \<Rightarrow> nat list" where
  "list_neighbours g v = map (half_tgt (lIJ g)) (walk (length (lnext g)) (lnext g) (head g ! v))"

lemma list_neighbours_halves:
  "list_ok IJ g \<Longrightarrow> v < nat (lmaxvtx g + 1) \<Longrightarrow> list_neighbours g v = map (half_tgt IJ) (halves IJ v (length IJ))"
  using threaded_walk [of "lnext g" "head g ! v" "halves IJ v (length IJ)"] length_halves [of IJ v "length IJ"]
  by (auto simp: list_ok_def lists_ok_def list_neighbours_def)

lemma set_halves: "k \<le> length IJ \<Longrightarrow> half_tgt IJ ` set (halves IJ v k) = {w. w \<noteq> v \<and> adj (take k IJ) v w}"
proof (induction k)
  case (Suc k)
  let ?e = "IJ ! k"
  have tk: "take (Suc k) IJ = take k IJ @ [?e]" using Suc.prems by (simp add: take_Suc_conv_app_nth)
  have ht: "half_tgt IJ (2 * k + 1) = tgt ?e" "half_tgt IJ (2 * k) = src ?e" by (simp_all add: half_tgt_def)
  have ad: "adj (take (Suc k) IJ) v w \<longleftrightarrow> adj (take k IJ) v w \<or> joins ?e v w" for w by (auto simp: tk adj_def)
  show ?case using Suc ht by (auto simp: ad joins_def Let_def)
qed (simp add: adj_def)

text \<open>The representation that is built provides the interface.\<close>

definition list_built :: "packed_edge list \<Rightarrow> list_graph" where
  "list_built IJ = the (list_create_graph IJ (length IJ))"

definition list_nv :: "packed_edge list \<Rightarrow> nat" where
  "list_nv IJ = nat (lmaxvtx (list_built IJ) + 1)"

lemma list_built: "list_create_graph IJ (length IJ) = Some (list_built IJ)" "list_ok IJ (list_built IJ)"
  using list_create_ok [of IJ] by (auto simp: list_built_def)

interpretation lists: neighbour_lists IJ "list_nv IJ" "list_neighbours (list_built IJ)" for IJ
proof
  note ok = list_built(2) [of IJ]
  show "src e < list_nv IJ \<and> tgt e < list_nv IJ" if "e \<in> set IJ" for e
    using ok that by (auto simp: list_ok_def list_nv_def)
  show "set (list_neighbours (list_built IJ) v) = {w. w \<noteq> v \<and> adj IJ v w}" if "v < list_nv IJ" for v
    using list_neighbours_halves [OF ok, of v] that set_halves [of "length IJ" IJ v] by (simp add: list_nv_def)
qed

section \<open>The search follows the lists\<close>

lemma half_target_ok:
  assumes "t < 2 * length IJ"
  shows "half_target IJ (int t) = Some (int (half_tgt IJ t))"
proof -
  have "int t div 2 = int (t div 2)" "int t mod 2 = int (t mod 2)" by (simp_all add: zdiv_int zmod_int)
  then show ?thesis using assms by (simp add: half_target_def half_tgt_def geti_def get_edge odd_iff_mod_2_eq_one)
qed

lemma scan_list_ok:
  assumes "lists.frontier IJ r k S tree vlist k2" "k < k2" "threaded (lnext (list_built IJ)) p ts"
    "half_tgt IJ ` set ts \<subseteq> set (list_neighbours (list_built IJ) (nat (vlist ! k)))"
  shows "scan_list (list_built IJ) (vlist ! k) p (tree, vlist, k2) = Some (fold (relax (vlist ! k)) (map (half_tgt IJ) ts) (tree, vlist, k2))"
  using assms
proof (induction ts arbitrary: p S tree vlist k2)
  case Nil
  then show ?case by (subst scan_list.simps) simp
next
  case (Cons t ts)
  let ?g = "list_built IJ" and ?j = "half_tgt IJ t"
  have g: "lIJ ?g = IJ" "length (lnext ?g) = 2 * length IJ" using list_built(2) [of IJ] by (simp_all add: list_ok_def lists_ok_def)
  have p: "p = int t" "t < 2 * length IJ" "threaded (lnext ?g) (lnext ?g ! t) ts" using Cons.prems(3) g by simp_all
  have j: "?j \<in> set (list_neighbours ?g (nat (vlist ! k)))" and js: "half_tgt IJ ` set ts \<subseteq> set (list_neighbours ?g (nat (vlist ! k)))"
    using Cons.prems(4) by simp_all
  note a = lists.frontier_access [OF Cons.prems(1,2) j]
  have nx: "geti (lnext ?g) (int t) = Some (lnext ?g ! t)" using p g by (simp add: geti_def)
  show ?case
  proof (cases "tree ! ?j < 0")
    case True
    note f = lists.frontier_push [OF Cons.prems(1,2) j True]
    have "scan_list ?g (vlist ! k) p (tree, vlist, k2) =
        scan_list ?g (vlist ! k) (lnext ?g ! t) (tree[?j := vlist ! k], vlist[k2 := int ?j], Suc k2)"
      using True p g by (subst scan_list.simps) (simp add: half_target_ok a nx)
    with Cons.IH [OF f(2) _ p(3)] js Cons.prems(2) f(3) True show ?thesis by simp
  next
    case False
    then have nn: "0 \<le> tree ! ?j" by simp
    have "scan_list ?g (vlist ! k) p (tree, vlist, k2) = scan_list ?g (vlist ! k) (lnext ?g ! t) (tree, vlist, k2)"
      using nn p g by (subst scan_list.simps) (simp add: half_target_ok a nx)
    with Cons.IH [OF lists.frontier_skip [OF Cons.prems(1,2) j nn] _ p(3)] js Cons.prems(2) nn show ?thesis by simp
  qed
qed

lemma list_vertex_step:
  assumes f: "lists.frontier IJ r k {} tree vlist k2" and k: "k < k2"
  shows "\<exists>tree' vlist' k2'. lists.frontier IJ r (Suc k) {} tree' vlist' k2' \<and> k2 \<le> k2' \<and>
    list_for (list_built IJ) k k1 k2 (tree, vlist, k2) = list_for (list_built IJ) (Suc k) k2 k2' (tree', vlist', k2')"
proof -
  let ?g = "list_built IJ" and ?v = "nat (vlist ! k)"
  note v = lists.frontier_vertex [OF f k] and ok = list_built(2) [of IJ]
  have vn: "?v < nat (lmaxvtx ?g + 1)" using v(3) by (simp add: list_nv_def)
  have th: "threaded (lnext ?g) (head ?g ! ?v) (halves IJ ?v (length IJ))" "length (head ?g) = nat (lmaxvtx ?g + 1)"
    using ok vn by (simp_all add: list_ok_def lists_ok_def)
  have nb: "list_neighbours ?g ?v = map (half_tgt IJ) (halves IJ ?v (length IJ))" by (rule list_neighbours_halves [OF ok vn])
  obtain tree' vlist' k2' where e: "fold (relax (vlist ! k)) (list_neighbours ?g ?v) (tree, vlist, k2) = (tree', vlist', k2')"
    by (cases "fold (relax (vlist ! k)) (list_neighbours ?g ?v) (tree, vlist, k2)")
  have "scan_list ?g (vlist ! k) (head ?g ! ?v) (tree, vlist, k2) = Some (tree', vlist', k2')"
    using scan_list_ok [OF f k th(1)] e by (simp add: nb)
  moreover have "geti (head ?g) (vlist ! k) = Some (head ?g ! ?v)" using v(2) vn th(2) by (simp add: geti_def)
  ultimately have "list_for ?g k k1 k2 (tree, vlist, k2) = list_for ?g (Suc k) k2 k2' (tree', vlist', k2')"
    using k v(1) by (subst list_for.simps) simp
  with lists.frontier_scan [OF f k e] show ?thesis by blast
qed

text \<open>One pass of the outer loop empties the queue, because the inner loop moves its bound.\<close>

lemma list_for_ok:
  assumes "lists.frontier IJ r k {} tree vlist k2" "k < k2"
  shows "\<exists>k2' tree' vlist'. list_for (list_built IJ) k k1 k2 (tree, vlist, k2) = Some (k2', k2', tree', vlist') \<and>
    lists.frontier IJ r k2' {} tree' vlist' k2'"
  using assms
proof (induction "list_nv IJ - k" arbitrary: k k1 k2 tree vlist rule: less_induct)
  case less
  from list_vertex_step [OF less.prems, of k1] obtain tree' vlist' k2' where
    f: "lists.frontier IJ r (Suc k) {} tree' vlist' k2'" "k2 \<le> k2'"
    and e: "list_for (list_built IJ) k k1 k2 (tree, vlist, k2) = list_for (list_built IJ) (Suc k) k2 k2' (tree', vlist', k2')" by blast
  show ?case
  proof (cases "Suc k < k2'")
    case True
    moreover have "list_nv IJ - Suc k < list_nv IJ - k" using lists.frontier_bounds [OF less.prems(1)] less.prems(2) by linarith
    ultimately show ?thesis using less.hyps f(1) e by simp
  next
    case False
    then have "k2' = Suc k" "k2 = Suc k" using less.prems(2) f(2) lists.frontier_bounds [OF f(1)] by auto
    with f(1) e show ?thesis by (simp add: list_for.simps [of _ "Suc k"])
  qed
qed

lemma clear_range:
  assumes "lo \<le> hi" "hi \<le> length tree"
  shows "\<exists>tree'. for_up lo hi (\<lambda>k tree. aset tree k (- 1)) tree = Some tree' \<and>
    (length tree' = length tree \<and> (\<forall>x. tree' ! x = (if lo \<le> x \<and> x < hi then (- 1 :: int) else tree ! x)))"
proof (rule for_up_rule [where P = "\<lambda>i tree'. length tree' = length tree \<and> (\<forall>x. tree' ! x = (if lo \<le> x \<and> x < i then - 1 else tree ! x))"])
  fix i tree' assume i: "lo \<le> i" "i < hi"
    and t: "length tree' = length tree \<and> (\<forall>x. tree' ! x = (if lo \<le> x \<and> x < i then (- 1 :: int) else tree ! x))"
  then show "\<exists>s'. aset tree' i (- 1) = Some s' \<and> (length s' = length tree \<and> (\<forall>x. s' ! x = (if lo \<le> x \<and> x < Suc i then - 1 else tree ! x)))"
    using assms by (auto simp: nth_list_update)
qed (use assms in auto)

text \<open>The tree that is returned is certified, whatever the array held before.\<close>

lemma list_bfs_certified:
  assumes r: "r < list_nv IJ" and l: "list_nv IJ \<le> length tree0"
  shows "\<exists>tree lv. list_make_bfs_tree (list_built IJ) tree0 (int r) = Some (0, int (list_nv IJ) - 1, tree) \<and>
    list_nv IJ \<le> length tree \<and> (\<forall>x<list_nv IJ. - 1 \<le> tree ! x) \<and> certified tree lv (list_nv IJ) r IJ"
proof -
  let ?g = "list_built IJ" and ?n = "list_nv IJ"
  have mx: "lmaxvtx ?g = int ?n - 1" using list_built(2) [of IJ] by (simp add: list_ok_def list_nv_def)
  define tree1 where "tree1 = tree0[r := int r]"
  have s: "seti tree0 (int r) (int r) = Some tree1" "seti tree1 (int r) (int r) = Some tree1" "length tree1 = length tree0"
    using r l by (simp_all add: seti_def tree1_def)
  from clear_range [of 0 r tree1] r l s obtain tree2 where t2: "for_up 0 r (\<lambda>k tree. aset tree k (- 1)) tree1 = Some tree2"
    "length tree2 = length tree0" "\<And>x. tree2 ! x = (if x < r then - 1 else tree1 ! x)" by auto
  from clear_range [of "Suc r" ?n tree2] r l t2 obtain tree3 where t3: "for_up (Suc r) ?n (\<lambda>k tree. aset tree k (- 1)) tree2 = Some tree3"
    "length tree3 = length tree0" "\<And>x. tree3 ! x = (if Suc r \<le> x \<and> x < ?n then - 1 else tree2 ! x)" by auto
  have "tree1 ! r = int r" using r l by (simp add: tree1_def)
  then have f: "lists.frontier IJ r 0 {} tree3 ((replicate ?n 0)[0 := int r]) 1"
    using r l t2 t3 by (intro lists.frontier_init) auto
  from list_for_ok [OF f, of 0] obtain k2 tree vlist where
    lf: "list_for ?g 0 0 1 (tree3, (replicate ?n 0)[0 := int r], 1) = Some (k2, k2, tree, vlist)" "lists.frontier IJ r k2 {} tree vlist k2" by auto
  have w: "list_while ?g 0 1 tree3 ((replicate ?n 0)[0 := int r]) = Some tree"
    by (subst list_while.simps) (simp add: lf(1) [simplified] list_while.simps [of _ k2])
  have v: "seti (replicate ?n 0) 0 (int r) = Some ((replicate ?n 0)[0 := int r])" using r by (simp add: seti_def)
  have i: "nat (int r + 1) = Suc r" by simp
  have "list_make_bfs_tree ?g tree0 (int r) = Some (0, int ?n - 1, tree)"
    unfolding list_make_bfs_tree_def mx
    using s v t2(1) t3(1) w by (simp add: i)
  with lists.frontier_done [OF lf(2)] show ?thesis by blast
qed

section \<open>Searching and validating\<close>

text \<open>
  C37: The linked-list implementation is correct. For every list of edges \<open>create_graph_from_edgelist\<close> succeeds; then for every
  root in range and every output array that is large enough \<open>make_bfs_tree\<close> returns without an error, the tree it writes is a
  breadth-first tree of the component of the root, and \<open>verify_bfs_tree\<close> accepts it with the number of edges inside
  that component.
\<close>

theorem list_search_validated:
  "\<exists>g. list_create_graph IJ (length IJ) = Some g \<and>
    (\<forall>root tree0. 0 \<le> root \<and> root \<le> lmaxvtx g \<and> lmaxvtx g < int (length tree0) \<longrightarrow>
      (\<exists>tree. list_make_bfs_tree g tree0 root = Some (0, lmaxvtx g, tree) \<and>
        is_bfs_tree IJ (nat (lmaxvtx g + 1)) (nat root) tree \<and>
        verify_bfs_tree tree (lmaxvtx g) root IJ (length IJ) = Some (int (length (filter (\<lambda>e. reach IJ (nat root) (src e)) IJ)))))"
proof (intro exI [of _ "list_built IJ"] conjI list_built(1) allI impI)
  let ?g = "list_built IJ" and ?n = "list_nv IJ"
  have mx: "lmaxvtx ?g = int ?n - 1" using list_built(2) [of IJ] by (simp add: list_ok_def list_nv_def)
  fix root :: int and tree0 :: "int list"
  assume a: "0 \<le> root \<and> root \<le> lmaxvtx ?g \<and> lmaxvtx ?g < int (length tree0)"
  then obtain r where r: "root = int r" "r < ?n" "?n \<le> length tree0" using mx by (metis nonneg_int_cases zle_diff1_eq of_nat_less_iff linorder_not_less)
  from list_bfs_certified [OF r(2,3)] obtain tree lv where
    t: "list_make_bfs_tree ?g tree0 (int r) = Some (0, int ?n - 1, tree)" "?n \<le> length tree" "certified tree lv ?n r IJ" by blast
  then show "\<exists>tree. list_make_bfs_tree ?g tree0 root = Some (0, lmaxvtx ?g, tree) \<and> is_bfs_tree IJ (nat (lmaxvtx ?g + 1)) (nat root) tree \<and>
      verify_bfs_tree tree (lmaxvtx ?g) root IJ (length IJ) = Some (int (length (filter (\<lambda>e. reach IJ (nat root) (src e)) IJ)))"
    using certified_accepted [OF t(3,2)] certified_is_bfs_tree [OF t(3)] by (simp add: mx r(1))
qed

theorem list_search_validated_witness:
  "\<exists>g tree. list_create_graph sample_edges 4 = Some g \<and> list_make_bfs_tree g [7, 7, 7, 7, 7] 1 = Some (0, 3, tree) \<and>
     is_bfs_tree sample_edges 4 1 tree"
proof -
  have l: "length sample_edges = 4" by (simp add: sample_edges_def)
  have m: "find_maxvtx sample_edges 4 = Some 3" by code_simp
  from list_search_validated [of sample_edges] obtain g where g: "list_create_graph sample_edges 4 = Some g"
    "\<And>root tree0. 0 \<le> root \<and> root \<le> lmaxvtx g \<and> lmaxvtx g < int (length tree0) \<Longrightarrow>
      \<exists>tree. list_make_bfs_tree g tree0 root = Some (0, lmaxvtx g, tree) \<and> is_bfs_tree sample_edges (nat (lmaxvtx g + 1)) (nat root) tree"
    unfolding l by blast
  have "lmaxvtx g = 3" using g(1) m by (auto simp: list_create_graph_def Let_def elim!: bind_SomeE)
  with g(2) [of 1 "[7, 7, 7, 7, 7]"] g(1) show ?thesis by auto
qed

end
