(* ===== verification/SeqCsr.thy ===== *)
theory SeqCsr
  imports SeqList
begin

text \<open>
  The sequential compressed-sparse-row implementation of Graph500, \<open>sources/graph500/seq-csr/seq-csr.c\<close>: degrees and offsets,
  scattering of the edges, sorting and packing of the neighbours of each vertex, and the level-by-level search.
  \<open>XOFF(k)\<close> is entry \<open>2k\<close> of \<open>xoff\<close>, \<open>XENDOFF(k)\<close> is entry \<open>2k+1\<close>, and \<open>xadj\<close> starts at entry \<open>MINVECT_SIZE\<close> of
  \<open>xadjstore\<close>. An access outside of an array is \<open>None\<close>.
\<close>

section \<open>The arrays\<close>

definition MINVECT_SIZE :: int where "MINVECT_SIZE = 2"

record csr_graph =
  cmaxvtx :: int
  cnv :: int
  xoff :: "int list"
  xadjstore :: "int list"

definition XOFF :: "int list \<Rightarrow> int \<Rightarrow> int option" where "XOFF xo k = geti xo (2 * k)"
definition XENDOFF :: "int list \<Rightarrow> int \<Rightarrow> int option" where "XENDOFF xo k = geti xo (1 + 2 * k)"
definition set_XOFF :: "int list \<Rightarrow> int \<Rightarrow> int \<Rightarrow> int list option" where "set_XOFF xo k x = seti xo (2 * k) x"
definition set_XENDOFF :: "int list \<Rightarrow> int \<Rightarrow> int \<Rightarrow> int list option" where "set_XENDOFF xo k x = seti xo (1 + 2 * k) x"

definition xadj :: "int list \<Rightarrow> int \<Rightarrow> int option" where "xadj store i = geti store (MINVECT_SIZE + i)"
definition set_xadj :: "int list \<Rightarrow> int \<Rightarrow> int \<Rightarrow> int list option" where "set_xadj store i x = seti store (MINVECT_SIZE + i) x"

definition find_nv :: "packed_edge list \<Rightarrow> nat \<Rightarrow> (int \<times> int) option" where
  "find_nv IJ nedge = do { maxvtx \<leftarrow> for_up 0 nedge (max_step IJ) (- 1); Some (maxvtx, 1 + maxvtx) }"

definition alloc_graph :: "int \<Rightarrow> int list" where
  "alloc_graph nv = replicate (nat (2 * nv + 2)) 0"

section \<open>Degrees and offsets\<close>

definition incr_XOFF :: "int \<Rightarrow> int list \<Rightarrow> int list option" where
  "incr_XOFF i xo = do { x \<leftarrow> XOFF xo i; set_XOFF xo i (x + 1) }"

definition count_edge :: "packed_edge list \<Rightarrow> nat \<Rightarrow> int list \<Rightarrow> int list option" where
  "count_edge IJ k xo = do {
     e \<leftarrow> aget IJ k;
     let i = get_v0_from_edge e;
     let j = get_v1_from_edge e;
     if i \<noteq> j then do {
       xo \<leftarrow> (if 0 \<le> i then incr_XOFF i xo else Some xo);
       (if 0 \<le> j then incr_XOFF j xo else Some xo) }
     else Some xo }"

definition offset_step :: "nat \<Rightarrow> int list \<times> int \<Rightarrow> (int list \<times> int) option" where
  "offset_step k = (\<lambda>(xo, accum). do {
     tmp \<leftarrow> XOFF xo (int k);
     let tmp = (if tmp < MINVECT_SIZE then MINVECT_SIZE else tmp);
     xo \<leftarrow> set_XOFF xo (int k) accum;
     Some (xo, accum + tmp) })"

definition endoff_step :: "nat \<Rightarrow> int list \<Rightarrow> int list option" where
  "endoff_step k xo = do { x \<leftarrow> XOFF xo (int k); set_XENDOFF xo (int k) x }"

definition setup_deg_off :: "packed_edge list \<Rightarrow> nat \<Rightarrow> int \<Rightarrow> int list \<Rightarrow> (int list \<times> int list) option" where
  "setup_deg_off IJ nedge nv xo = do {
     xo \<leftarrow> for_up 0 (nat (2 * nv + 2)) (\<lambda>k xo. aset xo k 0) xo;
     xo \<leftarrow> for_up 0 nedge (count_edge IJ) xo;
     (xo, accum) \<leftarrow> for_up 0 (nat nv) offset_step (xo, 0);
     xo \<leftarrow> set_XOFF xo nv accum;
     xo \<leftarrow> for_up 0 (nat nv) endoff_step xo;
     let store = replicate (nat (accum + MINVECT_SIZE)) 0;
     store \<leftarrow> for_up 0 (nat (accum + MINVECT_SIZE)) (\<lambda>k store. aset store k (- 1)) store;
     Some (xo, store) }"

section \<open>Scattering and packing\<close>

definition scatter_edge :: "int \<Rightarrow> int \<Rightarrow> int list \<times> int list \<Rightarrow> (int list \<times> int list) option" where
  "scatter_edge i j = (\<lambda>(xo, store). do {
     where \<leftarrow> XENDOFF xo i;
     xo \<leftarrow> set_XENDOFF xo i (where + 1);
     store \<leftarrow> set_xadj store where j;
     Some (xo, store) })"

definition i64cmp :: "int \<Rightarrow> int \<Rightarrow> int" where
  "i64cmp ia ib = (if ia < ib then - 1 else if ib < ia then 1 else 0)"

text \<open>
  \<open>qsort\<close> orders an array by a comparison function; which order it gives to equal elements is not specified. For \<open>i64cmp\<close>
  equal elements are the same number, so that the result is determined.
\<close>

fun insert_cmp :: "('a \<Rightarrow> 'a \<Rightarrow> int) \<Rightarrow> 'a \<Rightarrow> 'a list \<Rightarrow> 'a list" where
  "insert_cmp cmp x [] = [x]"
| "insert_cmp cmp x (y # ys) = (if cmp x y \<le> 0 then x # y # ys else y # insert_cmp cmp x ys)"

definition sort_cmp :: "('a \<Rightarrow> 'a \<Rightarrow> int) \<Rightarrow> 'a list \<Rightarrow> 'a list" where
  "sort_cmp cmp xs = foldr (insert_cmp cmp) xs []"

definition qsort :: "int list \<Rightarrow> int \<Rightarrow> int \<Rightarrow> int list option" where
  "qsort store lo cnt = (let a = nat (MINVECT_SIZE + lo); c = nat cnt in
     if 0 \<le> MINVECT_SIZE + lo \<and> 0 \<le> cnt \<and> a + c \<le> length store
     then Some (take a store @ sort_cmp i64cmp (take c (drop a store)) @ drop (a + c) store) else None)"

definition pack_step :: "nat \<Rightarrow> int list \<times> int \<Rightarrow> (int list \<times> int) option" where
  "pack_step k = (\<lambda>(store, kcur). do {
     a \<leftarrow> xadj store (int k);
     b \<leftarrow> xadj store kcur;
     if a \<noteq> b then do {
       let kcur = kcur + 1;
       x \<leftarrow> xadj store (int k);
       store \<leftarrow> set_xadj store kcur x;
       Some (store, kcur) }
     else Some (store, kcur) })"

definition pack_vtx_edges :: "nat \<Rightarrow> int list \<times> int list \<Rightarrow> (int list \<times> int list) option" where
  "pack_vtx_edges i = (\<lambda>(xo, store). do {
     lo \<leftarrow> XOFF xo (int i);
     hi \<leftarrow> XENDOFF xo (int i);
     if hi \<le> lo + 1 then Some (xo, store) else do {
       store \<leftarrow> qsort store lo (hi - lo);
       (store, kcur) \<leftarrow> for_up (nat (lo + 1)) (nat hi) pack_step (store, lo);
       let kcur = kcur + 1;
       store \<leftarrow> for_up (nat kcur) (nat hi) (\<lambda>k store. set_xadj store (int k) (- 1)) store;
       xo \<leftarrow> set_XENDOFF xo (int i) kcur;
       Some (xo, store) } })"

definition pack_edges :: "int \<Rightarrow> int list \<times> int list \<Rightarrow> (int list \<times> int list) option" where
  "pack_edges nv s = for_up 0 (nat nv) pack_vtx_edges s"

definition gather_edge :: "packed_edge list \<Rightarrow> nat \<Rightarrow> int list \<times> int list \<Rightarrow> (int list \<times> int list) option" where
  "gather_edge IJ k s = do {
     e \<leftarrow> aget IJ k;
     let i = get_v0_from_edge e;
     let j = get_v1_from_edge e;
     if 0 \<le> i \<and> 0 \<le> j \<and> i \<noteq> j then do { s \<leftarrow> scatter_edge i j s; scatter_edge j i s }
     else Some s }"

definition gather_edges :: "packed_edge list \<Rightarrow> nat \<Rightarrow> int \<Rightarrow> int list \<times> int list \<Rightarrow> (int list \<times> int list) option" where
  "gather_edges IJ nedge nv s = do {
     s \<leftarrow> for_up 0 nedge (gather_edge IJ) s;
     pack_edges nv s }"

definition csr_create_graph :: "packed_edge list \<Rightarrow> nat \<Rightarrow> csr_graph option" where
  "csr_create_graph IJ nedge = do {
     (maxvtx, nv) \<leftarrow> find_nv IJ nedge;
     let xo = alloc_graph nv;
     (xo, store) \<leftarrow> setup_deg_off IJ nedge nv xo;
     (xo, store) \<leftarrow> gather_edges IJ nedge nv (xo, store);
     Some \<lparr>cmaxvtx = maxvtx, cnv = nv, xoff = xo, xadjstore = store\<rparr> }"

section \<open>The search\<close>

definition scan_neighbour :: "csr_graph \<Rightarrow> int \<Rightarrow> nat \<Rightarrow> int list \<times> int list \<times> nat \<Rightarrow> (int list \<times> int list \<times> nat) option" where
  "scan_neighbour g v vo = (\<lambda>(tree, vlist, k2). do {
     j \<leftarrow> xadj (xadjstore g) (int vo);
     t \<leftarrow> geti tree j;
     if t = - 1 then do {
       tree \<leftarrow> seti tree j v;
       vlist \<leftarrow> aset vlist k2 j;
       Some (tree, vlist, k2 + 1) }
     else Some (tree, vlist, k2) })"

definition scan_vertex :: "csr_graph \<Rightarrow> nat \<Rightarrow> int list \<times> int list \<times> nat \<Rightarrow> (int list \<times> int list \<times> nat) option" where
  "scan_vertex g k = (\<lambda>(tree, vlist, k2). do {
     v \<leftarrow> aget vlist k;
     veo \<leftarrow> XENDOFF (xoff g) v;
     vo \<leftarrow> XOFF (xoff g) v;
     for_up (nat vo) (nat veo) (scan_neighbour g v) (tree, vlist, k2) })"

partial_function (option) csr_while :: "csr_graph \<Rightarrow> nat \<Rightarrow> nat \<Rightarrow> int list \<Rightarrow> int list \<Rightarrow> int list option" where
  "csr_while g k1 k2 tree vlist =
     (if k1 \<noteq> k2 then do {
        let oldk2 = k2;
        (tree, vlist, k2) \<leftarrow> for_up k1 oldk2 (scan_vertex g) (tree, vlist, k2);
        csr_while g oldk2 k2 tree vlist }
      else Some tree)"

text \<open>\<open>make_bfs_tree\<close> returns the error code, \<open>*max_vtx_out\<close> and the tree.\<close>

definition csr_make_bfs_tree :: "csr_graph \<Rightarrow> int list \<Rightarrow> int \<Rightarrow> (int \<times> int \<times> int list) option" where
  "csr_make_bfs_tree g bfs_tree srcvtx = do {
     let nv = cnv g;
     let vlist = replicate (nat nv) 0;
     tree \<leftarrow> for_up 0 (nat nv) (\<lambda>k tree. aset tree k (- 1)) bfs_tree;
     vlist \<leftarrow> seti vlist 0 srcvtx;
     tree \<leftarrow> seti tree srcvtx srcvtx;
     tree \<leftarrow> csr_while g 0 1 tree vlist;
     Some (0, cmaxvtx g, tree) }"

section \<open>Half-edges and offsets\<close>

text \<open>The edges in the order in which they are scattered, and the neighbours of a vertex in that order.\<close>

definition half_edges :: "packed_edge list \<Rightarrow> (nat \<times> nat) list" where
  "half_edges IJ = concat (map (\<lambda>e. if src e = tgt e then [] else [(src e, tgt e), (tgt e, src e)]) IJ)"

definition out :: "(nat \<times> nat) list \<Rightarrow> nat \<Rightarrow> nat list" where
  "out hs v = map snd (filter (\<lambda>h. fst h = v) hs)"

definition slot :: "packed_edge list \<Rightarrow> nat \<Rightarrow> nat" where
  "slot IJ v = (\<Sum>u<v. max 2 (length (out (half_edges IJ) u)))"

lemma half_edges_Suc:
  assumes "k < length IJ"
  shows "half_edges (take (Suc k) IJ) = half_edges (take k IJ) @
    (if src (IJ ! k) = tgt (IJ ! k) then [] else [(src (IJ ! k), tgt (IJ ! k)), (tgt (IJ ! k), src (IJ ! k))])"
  using assms by (simp add: half_edges_def take_Suc_conv_app_nth)

lemma out_append: "out (hs @ ks) v = out hs v @ out ks v"
  by (simp add: out_def)

lemma mem_half_edges: "(v, w) \<in> set (half_edges IJ) \<longleftrightarrow> v \<noteq> w \<and> adj IJ v w"
  by (induction IJ) (auto simp: half_edges_def adj_def joins_def)

lemma set_out: "set (out (half_edges IJ) v) = {w. w \<noteq> v \<and> adj IJ v w}"
proof -
  have "w \<in> set (out hs v) \<longleftrightarrow> (v, w) \<in> set hs" for hs w by (force simp: out_def)
  then show ?thesis by (auto simp: mem_half_edges)
qed

lemma slot_Suc: "slot IJ (Suc v) = slot IJ v + max 2 (length (out (half_edges IJ) v))"
  by (simp add: slot_def)

lemma slot_mono: "u \<le> v \<Longrightarrow> slot IJ u \<le> slot IJ v"
  unfolding slot_def by (rule sum_mono2) auto

lemma slot_room: "u < v \<Longrightarrow> slot IJ u + length (out (half_edges IJ) u) \<le> slot IJ v"
  using slot_mono [of "Suc u" v IJ] by (simp add: slot_Suc)

section \<open>Accesses\<close>

lemma off_access:
  assumes "length xo = 2 * n + 2" "v \<le> n"
  shows "XOFF xo (int v) = Some (xo ! (2 * v))" "XENDOFF xo (int v) = Some (xo ! Suc (2 * v))"
    "set_XOFF xo (int v) x = Some (xo[2 * v := x])" "set_XENDOFF xo (int v) x = Some (xo[Suc (2 * v) := x])"
proof -
  have "nat (2 * int v) = 2 * v" "nat (1 + 2 * int v) = Suc (2 * v)" by simp_all
  then show "XOFF xo (int v) = Some (xo ! (2 * v))" "XENDOFF xo (int v) = Some (xo ! Suc (2 * v))"
    "set_XOFF xo (int v) x = Some (xo[2 * v := x])" "set_XENDOFF xo (int v) x = Some (xo[Suc (2 * v) := x])"
    using assms by (simp_all add: XOFF_def XENDOFF_def set_XOFF_def set_XENDOFF_def geti_def seti_def)
qed

lemma adj_access:
  assumes "Suc (Suc i) < length store"
  shows "xadj store (int i) = Some (store ! Suc (Suc i))" "set_xadj store (int i) x = Some (store[Suc (Suc i) := x])"
proof -
  have "nat (2 + int i) = Suc (Suc i)" by simp
  then show "xadj store (int i) = Some (store ! Suc (Suc i))" "set_xadj store (int i) x = Some (store[Suc (Suc i) := x])"
    using assms by (simp_all add: xadj_def set_xadj_def MINVECT_SIZE_def geti_def seti_def)
qed

lemma double_neq: "2 * u \<noteq> Suc (2 * v)" "Suc (2 * v) \<noteq> 2 * u" for u v :: nat
  by presburger+

section \<open>Degrees and offsets\<close>

definition counted :: "nat \<Rightarrow> (nat \<times> nat) list \<Rightarrow> int list \<Rightarrow> bool" where
  "counted n hs xo \<longleftrightarrow> length xo = 2 * n + 2 \<and> (\<forall>v<n. xo ! (2 * v) = int (length (out hs v)))"

lemma incr_counted:
  assumes "counted n hs xo" "u < n"
  shows "\<exists>xo'. incr_XOFF (int u) xo = Some xo' \<and> counted n (hs @ [(u, w)]) xo'"
proof -
  have l: "length xo = 2 * n + 2" using assms by (simp add: counted_def)
  have "incr_XOFF (int u) xo = Some (xo[2 * u := xo ! (2 * u) + 1])"
    using assms(2) by (simp add: incr_XOFF_def off_access [OF l])
  moreover have "counted n (hs @ [(u, w)]) (xo[2 * u := xo ! (2 * u) + 1])"
    using assms l by (auto simp: counted_def out_append out_def nth_list_update)
  ultimately show ?thesis by blast
qed

lemma count_edge_ok:
  assumes k: "k < length IJ" and e: "src (IJ ! k) < n" "tgt (IJ ! k) < n" and c: "counted n (half_edges (take k IJ)) xo"
  shows "\<exists>xo'. count_edge IJ k xo = Some xo' \<and> counted n (half_edges (take (Suc k) IJ)) xo'"
proof (cases "src (IJ ! k) = tgt (IJ ! k)")
  case True
  then show ?thesis using k c by (simp add: count_edge_def get_edge half_edges_Suc)
next
  case False
  from incr_counted [OF c e(1), of "tgt (IJ ! k)"] obtain xo1 where
    1: "incr_XOFF (int (src (IJ ! k))) xo = Some xo1" "counted n (half_edges (take k IJ) @ [(src (IJ ! k), tgt (IJ ! k))]) xo1" by blast
  from incr_counted [OF 1(2) e(2), of "src (IJ ! k)"] obtain xo2 where
    2: "incr_XOFF (int (tgt (IJ ! k))) xo1 = Some xo2"
       "counted n ((half_edges (take k IJ) @ [(src (IJ ! k), tgt (IJ ! k))]) @ [(tgt (IJ ! k), src (IJ ! k))]) xo2" by blast
  show ?thesis using k False 1(1) 2 by (simp add: count_edge_def get_edge half_edges_Suc)
qed

lemma fill_ok:
  "\<exists>xs'. for_up 0 (length xs) (\<lambda>k xs. aset xs k c) xs = Some xs' \<and> xs' = replicate (length xs) (c :: int)"
proof -
  have "\<exists>xs'. for_up 0 (length xs) (\<lambda>k xs. aset xs k c) xs = Some xs' \<and> (length xs' = length xs \<and> (\<forall>i<length xs. xs' ! i = c))"
    by (rule for_up_rule [where P = "\<lambda>j xs'. length xs' = length xs \<and> (\<forall>i<j. xs' ! i = c)"]) (auto simp: nth_list_update less_Suc_eq)
  then show ?thesis by (metis length_replicate nth_equalityI nth_replicate)
qed

lemma offsets_ok:
  assumes c: "counted n (half_edges IJ) xo"
  shows "\<exists>s. for_up 0 n offset_step (xo, 0) = Some s \<and>
    (length (fst s) = 2 * n + 2 \<and> snd s = int (slot IJ n) \<and> (\<forall>v<n. fst s ! (2 * v) = int (slot IJ v)))"
proof -
  let ?P = "\<lambda>j s. length (fst s) = 2 * n + 2 \<and> snd s = int (slot IJ j) \<and>
      (\<forall>v<n. fst s ! (2 * v) = (if v < j then int (slot IJ v) else int (length (out (half_edges IJ) v))))"
  have "\<exists>s. for_up 0 n offset_step (xo, 0) = Some s \<and> ?P n s"
  proof (rule for_up_rule [where P = ?P])
    show "?P 0 (xo, 0)" using c by (simp add: counted_def slot_def)
    fix j s assume j: "j < n" and P: "?P j s"
    obtain xs a where s: "s = (xs, a)" by (cases s)
    have l: "length xs = 2 * n + 2" using P s by simp
    have "offset_step j s = Some (xs[2 * j := a], a + int (max 2 (length (out (half_edges IJ) j))))"
      using P j by (simp add: offset_step_def s off_access [OF l] MINVECT_SIZE_def)
    then show "\<exists>s'. offset_step j s = Some s' \<and> ?P (Suc j) s'"
      using P j l s by (auto simp: slot_Suc nth_list_update less_Suc_eq)
  qed simp
  then show ?thesis by auto
qed

section \<open>The rows\<close>

text \<open>
  Row \<open>v\<close> starts at its slot and holds the list \<open>row v\<close>; no row is longer than its slot.
\<close>

definition rows :: "packed_edge list \<Rightarrow> nat \<Rightarrow> (nat \<Rightarrow> nat list) \<Rightarrow> int list \<times> int list \<Rightarrow> bool" where
  "rows IJ n row = (\<lambda>(xo, store). length xo = 2 * n + 2 \<and> length store = slot IJ n + 2 \<and>
     (\<forall>v<n. xo ! (2 * v) = int (slot IJ v) \<and> xo ! Suc (2 * v) = int (slot IJ v + length (row v)) \<and>
        length (row v) \<le> length (out (half_edges IJ) v) \<and>
        (\<forall>i<length (row v). store ! Suc (Suc (slot IJ v + i)) = int (row v ! i))))"

lemma rowsD:
  assumes "rows IJ n row (xo, store)"
  shows "length xo = 2 * n + 2" "length store = slot IJ n + 2"
    "v < n \<Longrightarrow> xo ! (2 * v) = int (slot IJ v)" "v < n \<Longrightarrow> xo ! Suc (2 * v) = int (slot IJ v + length (row v))"
    "v < n \<Longrightarrow> length (row v) \<le> length (out (half_edges IJ) v)"
    "v < n \<Longrightarrow> i < length (row v) \<Longrightarrow> store ! Suc (Suc (slot IJ v + i)) = int (row v ! i)"
  using assms by (auto simp: rows_def)

text \<open>Changing one row inside its slot keeps the others.\<close>

lemma rows_update:
  assumes r: "rows IJ n row (xo, store)" and u: "u < n" and len: "length xs \<le> length (out (half_edges IJ) u)"
    and st: "length store' = length store" "\<And>i. i < length xs \<Longrightarrow> store' ! Suc (Suc (slot IJ u + i)) = int (xs ! i)"
    and other: "\<And>i. i < slot IJ u \<or> slot IJ u + length (out (half_edges IJ) u) \<le> i \<Longrightarrow> store' ! Suc (Suc i) = store ! Suc (Suc i)"
  shows "rows IJ n (row(u := xs)) (xo[Suc (2 * u) := int (slot IJ u + length xs)], store')"
proof -
  note d = rowsD [OF r]
  have keep: "store' ! Suc (Suc (slot IJ v + i)) = int (row v ! i)" if v: "v < n" "v \<noteq> u" "i < length (row v)" for v i
  proof -
    have "slot IJ v + i < slot IJ u \<or> slot IJ u + length (out (half_edges IJ) u) \<le> slot IJ v + i"
    proof (cases "v < u")
      case True
      then show ?thesis using slot_room [OF True, of IJ] d(5) [OF v(1)] v(3) by linarith
    next
      case False
      then have "u < v" using v(2) by simp
      then show ?thesis using slot_room [of u v IJ] by linarith
    qed
    then show ?thesis using other d(6) [OF v(1,3)] by simp
  qed
  have "rows IJ n (row(u := xs)) (xo[Suc (2 * u) := int (slot IJ u + length xs)], store')"
    unfolding rows_def prod.case
  proof (intro conjI allI impI)
    fix v i assume v: "v < n"
    show "xo[Suc (2 * u) := int (slot IJ u + length xs)] ! (2 * v) = int (slot IJ v)"
      using d(3) [OF v] by (simp add: double_neq)
    show "xo[Suc (2 * u) := int (slot IJ u + length xs)] ! Suc (2 * v) = int (slot IJ v + length ((row(u := xs)) v))"
      using d(1,4) v u by (simp add: nth_list_update)
    show "length ((row(u := xs)) v) \<le> length (out (half_edges IJ) v)" using d(5) [OF v] len by simp
    assume "i < length ((row(u := xs)) v)"
    then show "store' ! Suc (Suc (slot IJ v + i)) = int ((row(u := xs)) v ! i)"
      using keep [OF v] st(2) by (cases "v = u") simp_all
  qed (use d(1,2) st(1) in simp_all)
  then show ?thesis .
qed

lemma setup_ok:
  assumes e: "\<And>e. e \<in> set IJ \<Longrightarrow> src e < n \<and> tgt e < n"
  shows "\<exists>s. setup_deg_off IJ (length IJ) (int n) (alloc_graph (int n)) = Some s \<and> rows IJ n (\<lambda>_. []) s"
proof -
  have a: "alloc_graph (int n) = replicate (2 * n + 2) 0" by (simp add: alloc_graph_def nat_add_distrib nat_mult_distrib)
  have n2: "nat (2 * int n + 2) = 2 * n + 2" by simp
  from fill_ok [of "replicate (2 * n + 2) 0" 0] have z: "for_up 0 (2 * n + 2) (\<lambda>k xo. aset xo k 0) (replicate (2 * n + 2) 0) = Some (replicate (2 * n + 2) (0 :: int))" by simp
  have "counted n (half_edges (take 0 IJ)) (replicate (2 * n + 2) 0)" by (simp add: counted_def half_edges_def out_def del: replicate.simps)
  then have "\<exists>xo. for_up 0 (length IJ) (count_edge IJ) (replicate (2 * n + 2) 0) = Some xo \<and> counted n (half_edges (take (length IJ) IJ)) xo"
    using count_edge_ok e by (intro for_up_rule [where P = "\<lambda>k. counted n (half_edges (take k IJ))"]) auto
  then obtain xo1 where 1: "for_up 0 (length IJ) (count_edge IJ) (replicate (2 * n + 2) 0) = Some xo1" "counted n (half_edges IJ) xo1" by auto
  from offsets_ok [OF 1(2)] obtain xo2 accum where 2: "for_up 0 n offset_step (xo1, 0) = Some (xo2, accum)"
    "length xo2 = 2 * n + 2" "accum = int (slot IJ n)" "\<forall>v<n. xo2 ! (2 * v) = int (slot IJ v)" by auto
  define xo3 where "xo3 = xo2[2 * n := accum]"
  have 3: "set_XOFF xo2 (int n) accum = Some xo3" "length xo3 = 2 * n + 2" "\<forall>v<n. xo3 ! (2 * v) = int (slot IJ v)"
    using 2 by (simp_all add: off_access [OF 2(2)] xo3_def)
  let ?P = "\<lambda>j xo. length xo = 2 * n + 2 \<and> (\<forall>v<n. xo ! (2 * v) = int (slot IJ v)) \<and> (\<forall>v<j. xo ! Suc (2 * v) = int (slot IJ v))"
  have "\<exists>xo. for_up 0 n endoff_step xo3 = Some xo \<and> ?P n xo"
  proof (rule for_up_rule [where P = ?P])
    show "?P 0 xo3" using 3 by simp
    fix j xo assume j: "j < n" and P: "?P j xo"
    then have l: "length xo = 2 * n + 2" by simp
    have "endoff_step j xo = Some (xo[Suc (2 * j) := int (slot IJ j)])" using P j by (simp add: endoff_step_def off_access [OF l])
    then show "\<exists>xo'. endoff_step j xo = Some xo' \<and> ?P (Suc j) xo'"
      using P j by (auto simp: nth_list_update less_Suc_eq double_neq)
  qed simp
  then obtain xo4 where 4: "for_up 0 n endoff_step xo3 = Some xo4" "?P n xo4" by blast
  from fill_ok [of "replicate (slot IJ n + 2) 0" "- 1"] have
    5: "for_up 0 (slot IJ n + 2) (\<lambda>k store. aset store k (- 1)) (replicate (slot IJ n + 2) 0) = Some (replicate (slot IJ n + 2) (- 1 :: int))" by simp
  have ns: "nat (accum + MINVECT_SIZE) = slot IJ n + 2" by (simp add: 2(3) MINVECT_SIZE_def nat_add_distrib)
  have "setup_deg_off IJ (length IJ) (int n) (alloc_graph (int n)) = Some (xo4, replicate (slot IJ n + 2) (- 1))"
    unfolding setup_deg_off_def a n2 nat_int z 1(1) bind.bind_lunit 2(1) prod.case 3(1) 4(1) Let_def ns 5 ..
  moreover have "rows IJ n (\<lambda>_. []) (xo4, replicate (slot IJ n + 2) (- 1))" using 4(2) by (simp add: rows_def del: replicate.simps)
  ultimately show ?thesis by blast
qed

text \<open>Scattering fills the rows with the half-edges in order.\<close>

lemma scatter_ok:
  assumes r: "rows IJ n (out hs) s" and u: "u < n" and h: "half_edges IJ = hs @ (u, w) # ks"
  shows "\<exists>s'. scatter_edge (int u) (int w) s = Some s' \<and> rows IJ n (out (hs @ [(u, w)])) s'"
proof -
  obtain xo store where s: "s = (xo, store)" by (cases s)
  note d = rowsD [OF r [unfolded s]]
  let ?l = "length (out hs u)"
  have o: "out (hs @ [(u, w)]) = (out hs)(u := out hs u @ [w])" by (rule ext) (auto simp: out_def)
  have len: "Suc ?l \<le> length (out (half_edges IJ) u)" by (simp add: h out_def)
  have b: "Suc (Suc (slot IJ u + ?l)) < length store" using len slot_room [OF u, of IJ] d(2) by simp
  have e: "xo ! Suc (2 * u) = int (slot IJ u + ?l)" by (rule d(4) [OF u])
  have "scatter_edge (int u) (int w) s = Some (xo[Suc (2 * u) := int (slot IJ u + ?l) + 1], store[Suc (Suc (slot IJ u + ?l)) := int w])"
    using u by (simp add: scatter_edge_def s off_access [OF d(1)] e adj_access [OF b] del: of_nat_add)
  moreover have "rows IJ n ((out hs)(u := out hs u @ [w])) (xo[Suc (2 * u) := int (slot IJ u + length (out hs u @ [w]))], store[Suc (Suc (slot IJ u + ?l)) := int w])"
  proof (rule rows_update [OF r [unfolded s] u])
    show "length (out hs u @ [w]) \<le> length (out (half_edges IJ) u)" using len by simp
    show "store[Suc (Suc (slot IJ u + ?l)) := int w] ! Suc (Suc (slot IJ u + i)) = int ((out hs u @ [w]) ! i)" if "i < length (out hs u @ [w])" for i
      using that b d(6) [OF u, of i] by (auto simp: nth_list_update nth_append less_Suc_eq)
    show "store[Suc (Suc (slot IJ u + ?l)) := int w] ! Suc (Suc i) = store ! Suc (Suc i)" if "i < slot IJ u \<or> slot IJ u + length (out (half_edges IJ) u) \<le> i" for i
      using that len by (intro nth_list_update_neq) auto
  qed simp
  ultimately show ?thesis by (simp add: o add.commute)
qed

lemma gather_edge_ok:
  assumes k: "k < length IJ" and e: "src (IJ ! k) < n" "tgt (IJ ! k) < n" and r: "rows IJ n (out (half_edges (take k IJ))) s"
  shows "\<exists>s'. gather_edge IJ k s = Some s' \<and> rows IJ n (out (half_edges (take (Suc k) IJ))) s'"
proof (cases "src (IJ ! k) = tgt (IJ ! k)")
  case True
  then show ?thesis using k r by (simp add: gather_edge_def get_edge half_edges_Suc)
next
  case False
  let ?u = "src (IJ ! k)" and ?w = "tgt (IJ ! k)" and ?hs = "half_edges (take k IJ)"
  have "half_edges IJ = half_edges (take (Suc k) IJ) @ half_edges (drop (Suc k) IJ)"
    unfolding half_edges_def concat_append [symmetric] map_append [symmetric] append_take_drop_id ..
  then have h: "half_edges IJ = ?hs @ (?u, ?w) # (?w, ?u) # half_edges (drop (Suc k) IJ)" using False k by (simp add: half_edges_Suc)
  from scatter_ok [OF r e(1) h] obtain s1 where 1: "scatter_edge (int ?u) (int ?w) s = Some s1" "rows IJ n (out (?hs @ [(?u, ?w)])) s1" by blast
  have h': "half_edges IJ = (?hs @ [(?u, ?w)]) @ (?w, ?u) # half_edges (drop (Suc k) IJ)" using h by simp
  from scatter_ok [OF 1(2) e(2) h'] obtain s2 where 2: "scatter_edge (int ?w) (int ?u) s1 = Some s2"
    "rows IJ n (out ((?hs @ [(?u, ?w)]) @ [(?w, ?u)])) s2" by blast
  show ?thesis using k False 1(1) 2 by (simp add: gather_edge_def get_edge half_edges_Suc)
qed

section \<open>Packing a row\<close>

lemma insert_cmp_i64: "insert_cmp i64cmp x xs = insort x xs"
  by (induction xs) (auto simp: i64cmp_def)

lemma sort_cmp_i64: "sort_cmp i64cmp xs = sort xs"
  by (induction xs) (simp_all add: sort_cmp_def insert_cmp_i64)

text \<open>A packed row is sorted and has no repetitions.\<close>

definition packed :: "nat list \<Rightarrow> nat list" where
  "packed xs = remdups_adj (sort xs)"

lemma set_packed [simp]: "set (packed xs) = set xs"
  by (simp add: packed_def)

lemma length_packed: "length (packed xs) \<le> length xs"
  using remdups_adj_length [of "sort xs"] by (simp add: packed_def)

lemma packed_short: "length xs \<le> 1 \<Longrightarrow> packed xs = xs"
  by (cases xs) (simp_all add: packed_def)

lemma distinct_remdups_adj: "sorted xs \<Longrightarrow> distinct (remdups_adj xs)" for xs :: "nat list"
proof (induction xs rule: remdups_adj.induct)
  case (3 x y xs)
  then show ?case by (cases "x = y") force+
qed simp_all

lemma packed_sorted: "sorted (packed xs)" "distinct (packed xs)"
  by (simp_all add: packed_def sorted_remdups_adj distinct_remdups_adj)

lemma packed_int: "remdups_adj (sort (map int xs)) = map int (packed xs)"
proof -
  have "sort (map int xs) = map int (sort xs)"
    by (rule properties_for_sort) (simp_all add: sorted_map mono_def)
  then show ?thesis by (simp add: packed_def remdups_adj_map_injective)
qed

lemma remdups_adj_snoc: "xs \<noteq> [] \<Longrightarrow> remdups_adj (xs @ [x]) = (if last xs = x then remdups_adj xs else remdups_adj xs @ [x])"
proof (induction xs rule: remdups_adj.induct)
  case (3 a b xs)
  then show ?case by (auto split: if_splits)
qed auto

lemma pack_loop:
  assumes o: "Suc (Suc (lo + length xs)) \<le> length store" and xs: "xs \<noteq> []" and st: "\<And>i. i < length xs \<Longrightarrow> store ! Suc (Suc (lo + i)) = xs ! i"
  shows "\<exists>s. for_up (lo + 1) (lo + length xs) pack_step (store, int lo) = Some s \<and>
    (length (fst s) = length store \<and> snd s + 1 = int (lo + length (remdups_adj xs)) \<and>
     (\<forall>i<length (remdups_adj xs). fst s ! Suc (Suc (lo + i)) = remdups_adj xs ! i) \<and>
     (\<forall>i. i < lo \<or> lo + length xs \<le> i \<longrightarrow> fst s ! Suc (Suc i) = store ! Suc (Suc i)))"
proof -
  let ?r = "\<lambda>m. remdups_adj (take (m - lo) xs)"
  let ?P = "\<lambda>m s. length (fst s) = length store \<and> snd s + 1 = int (lo + length (?r m)) \<and>
     (\<forall>i<length (?r m). fst s ! Suc (Suc (lo + i)) = ?r m ! i) \<and>
     (\<forall>i. m - lo \<le> i \<and> i < length xs \<longrightarrow> fst s ! Suc (Suc (lo + i)) = xs ! i) \<and>
     (\<forall>i. i < lo \<or> lo + length xs \<le> i \<longrightarrow> fst s ! Suc (Suc i) = store ! Suc (Suc i))"
  have "\<exists>s. for_up (lo + 1) (lo + length xs) pack_step (store, int lo) = Some s \<and> ?P (lo + length xs) s"
  proof (rule for_up_rule [where P = ?P])
    show "lo + 1 \<le> lo + length xs" using xs by (cases xs) simp_all
    show "?P (lo + 1) (store, int lo)" using xs st [of 0] st by (cases xs) (auto simp: less_Suc_eq)
    fix m s assume m: "lo + 1 \<le> m" "m < lo + length xs" and P: "?P m s"
    obtain st' kc where s: "s = (st', kc)" by (cases s)
    define i where "i = m - lo"
    have i: "m = lo + i" "0 < i" "i < length xs" using m by (auto simp: i_def)
    let ?t = "take i xs" and ?d = "remdups_adj (take i xs)"
    have ne: "?t \<noteq> []" "?d \<noteq> []" using i by auto
    have dl: "0 < length ?d" "length ?d \<le> i" using ne(2) remdups_adj_length [of ?t] i by auto
    have kc1: "kc + 1 = int (lo + length ?d)" using P s i(1) by simp
    then have kc: "kc = int (lo + (length ?d - 1))" using dl by linarith
    have l': "length st' = length store" using P s by simp
    have a: "xadj st' (int m) = Some (xs ! i)"
      using P o i l' by (subst adj_access(1)) (simp_all add: s)
    have b: "xadj st' kc = Some (last ?t)"
    proof -
      have "\<forall>j<length ?d. st' ! Suc (Suc (lo + j)) = ?d ! j" using P s i(1) by simp
      then have "st' ! Suc (Suc (lo + (length ?d - 1))) = ?d ! (length ?d - 1)" using dl(1) diff_less zero_less_one by blast
      also have "\<dots> = last ?t" using last_conv_nth [OF ne(2)] last_remdups_adj [of ?t] by (rule trans [OF sym])
      finally have "st' ! Suc (Suc (lo + (length ?d - 1))) = last ?t" .
      moreover have "Suc (Suc (lo + (length ?d - 1))) < length st'" using o i dl(2) l' by linarith
      ultimately show ?thesis unfolding kc by (simp only: adj_access)
    qed
    have tk: "take (Suc i) xs = ?t @ [xs ! i]" using i by (simp add: take_Suc_conv_app_nth)
    have r: "?r (Suc m) = (if last ?t = xs ! i then ?d else ?d @ [xs ! i])"
      using i remdups_adj_snoc [OF ne(1), of "xs ! i"] by (simp add: tk Suc_diff_le)
    show "\<exists>s'. pack_step m s = Some s' \<and> ?P (Suc m) s'"
    proof (cases "xs ! i = last ?t")
      case True
      then have "pack_step m s = Some s" by (simp add: pack_step_def s a b)
      then show ?thesis using P r True i by (auto simp: s)
    next
      case False
      define st2 where "st2 = st'[Suc (Suc (lo + length ?d)) := xs ! i]"
      have "set_xadj st' (kc + 1) (xs ! i) = Some st2" using o i dl l' by (simp add: kc1 adj_access st2_def del: of_nat_add)
      then have "pack_step m s = Some (st2, kc + 1)" using False by (simp add: pack_step_def s a b)
      moreover have "?P (Suc m) (st2, kc + 1)"
        using P r False i dl o l' kc1 by (auto simp: s st2_def nth_list_update nth_append less_Suc_eq)
      ultimately show ?thesis by blast
    qed
  qed
  then show ?thesis by auto
qed

lemma row_slice:
  assumes r: "rows IJ n row (xo, store)" and u: "u < n"
  shows "Suc (Suc (slot IJ u + length (row u))) \<le> length store" "take (length (row u)) (drop (Suc (Suc (slot IJ u))) store) = map int (row u)"
proof -
  note d = rowsD [OF r]
  show b: "Suc (Suc (slot IJ u + length (row u))) \<le> length store" using slot_room [OF u, of IJ] d(2) d(5) [OF u] by simp
  show "take (length (row u)) (drop (Suc (Suc (slot IJ u))) store) = map int (row u)"
    using b d(6) [OF u] by (intro nth_equalityI) simp_all
qed

lemma qsort_row:
  assumes b: "Suc (Suc (lo + length xs)) \<le> length store" and sl: "take (length xs) (drop (Suc (Suc lo)) store) = xs"
  shows "\<exists>store'. qsort store (int lo) (int (length xs)) = Some store' \<and> length store' = length store \<and>
    (\<forall>i<length xs. store' ! Suc (Suc (lo + i)) = sort xs ! i) \<and>
    (\<forall>i. i < lo \<or> lo + length xs \<le> i \<longrightarrow> store' ! Suc (Suc i) = store ! Suc (Suc i))"
proof -
  let ?a = "Suc (Suc lo)"
  let ?s = "take ?a store @ sort xs @ drop (?a + length xs) store"
  have "nat (2 + int lo) = ?a" by simp
  then have "qsort store (int lo) (int (length xs)) = Some ?s"
    using b sl by (simp add: qsort_def MINVECT_SIZE_def sort_cmp_i64)
  moreover have "length ?s = length store" using b by simp
  moreover have "?s ! Suc (Suc (lo + i)) = sort xs ! i" if "i < length xs" for i using that b by (simp add: nth_append)
  moreover have "?s ! Suc (Suc i) = store ! Suc (Suc i)" if "i < lo \<or> lo + length xs \<le> i" for i
    using that b by (auto simp: nth_append)
  ultimately show ?thesis by blast
qed

lemma blank_ok:
  assumes "lo \<le> hi" "Suc (Suc hi) \<le> length store"
  shows "\<exists>store'. for_up lo hi (\<lambda>k store. set_xadj store (int k) (- 1)) store = Some store' \<and>
    (length store' = length store \<and> (\<forall>i. i < lo \<or> hi \<le> i \<longrightarrow> store' ! Suc (Suc i) = store ! Suc (Suc i)))"
proof -
  have "\<exists>store'. for_up lo hi (\<lambda>k store. set_xadj store (int k) (- 1)) store = Some store' \<and>
    (length store' = length store \<and> (\<forall>i. i < lo \<or> hi \<le> i \<longrightarrow> store' ! Suc (Suc i) = store ! Suc (Suc i)))"
    by (rule for_up_rule [where P = "\<lambda>m store'. length store' = length store \<and>
        (\<forall>i. i < lo \<or> m \<le> i \<longrightarrow> store' ! Suc (Suc i) = store ! Suc (Suc i))"])
      (use assms in \<open>auto simp: adj_access\<close>)
  then show ?thesis .
qed

lemma pack_vtx_edges_ok:
  assumes r: "rows IJ n row s" and u: "u < n"
  shows "\<exists>s'. pack_vtx_edges u s = Some s' \<and> rows IJ n (row(u := packed (row u))) s'"
proof -
  obtain xo store where s: "s = (xo, store)" by (cases s)
  note r' = r [unfolded s] and d = rowsD [OF r [unfolded s]]
  let ?lo = "slot IJ u" and ?l = "length (row u)"
  have o: "XOFF xo (int u) = Some (int ?lo)" "XENDOFF xo (int u) = Some (int (?lo + ?l))"
    using u by (simp_all add: off_access [OF d(1)] d(3) d(4) del: of_nat_add)
  show ?thesis
  proof (cases "?l \<le> 1")
    case True
    then have "pack_vtx_edges u s = Some s" by (simp add: pack_vtx_edges_def s o)
    then show ?thesis using r packed_short [OF True] by simp
  next
    case False
    let ?xs = "map int (row u)"
    let ?p = "map int (packed (row u))"
    note sl = row_slice [OF r' u]
    have b: "Suc (Suc (?lo + length ?xs)) \<le> length store" using sl(1) by simp
    from qsort_row [of ?lo ?xs store] sl obtain s1 where 1: "qsort store (int ?lo) (int (length ?xs)) = Some s1" "length s1 = length store"
      "\<And>i. i < length ?xs \<Longrightarrow> s1 ! Suc (Suc (?lo + i)) = sort ?xs ! i"
      "\<And>i. i < ?lo \<or> ?lo + length ?xs \<le> i \<Longrightarrow> s1 ! Suc (Suc i) = store ! Suc (Suc i)" by auto
    have ne: "sort ?xs \<noteq> []" using False by (cases "row u") auto
    have "Suc (Suc (?lo + length (sort ?xs))) \<le> length s1" using b 1(2) by simp
    from pack_loop [OF this ne] 1(3) obtain p where p: "for_up (?lo + 1) (?lo + length (sort ?xs)) pack_step (s1, int ?lo) = Some p"
      "length (fst p) = length s1" "snd p + 1 = int (?lo + length ?p)" "\<forall>i<length ?p. fst p ! Suc (Suc (?lo + i)) = ?p ! i"
      "\<forall>i. i < ?lo \<or> ?lo + length (sort ?xs) \<le> i \<longrightarrow> fst p ! Suc (Suc i) = s1 ! Suc (Suc i)"
      unfolding packed_int length_sort by blast
    define s2 kc where "s2 = fst p" and "kc = snd p"
    have 2: "for_up (?lo + 1) (?lo + length (sort ?xs)) pack_step (s1, int ?lo) = Some (s2, kc)"
      "length s2 = length s1" "kc + 1 = int (?lo + length ?p)" "\<And>i. i < length ?p \<Longrightarrow> s2 ! Suc (Suc (?lo + i)) = ?p ! i"
      "\<And>i. i < ?lo \<or> ?lo + length (sort ?xs) \<le> i \<Longrightarrow> s2 ! Suc (Suc i) = s1 ! Suc (Suc i)"
      using p(1) p(2,3) p(4) p(5) unfolding s2_def kc_def by (simp, simp, simp, blast, blast)
    have pl: "length ?p \<le> ?l" by (simp add: length_packed)
    from blank_ok [of "?lo + length ?p" "?lo + ?l" s2] pl b 1(2) 2(2) obtain s3 where
      3: "for_up (?lo + length ?p) (?lo + ?l) (\<lambda>k store. set_xadj store (int k) (- 1)) s2 = Some s3" "length s3 = length s2"
      "\<And>i. i < ?lo + length ?p \<or> ?lo + ?l \<le> i \<Longrightarrow> s3 ! Suc (Suc i) = s2 ! Suc (Suc i)" by auto
    have c: "(int (?lo + ?l) \<le> int ?lo + 1) = False" "nat (int ?lo + 1) = ?lo + 1" "int (?lo + ?l) - int ?lo = int (length ?xs)"
      "?lo + length (sort ?xs) = ?lo + ?l" using False by simp_all
    have un: "u \<le> n" using u by simp
    have "pack_vtx_edges u s = Some (xo[Suc (2 * u) := int (?lo + length ?p)], s3)"
      by (simp only: pack_vtx_edges_def s prod.case o bind.bind_lunit c if_False nat_int 1(1) 2(1) [unfolded c(4)] Let_def 2(3) 3(1) off_access [OF d(1) un])
    moreover have "rows IJ n (row(u := packed (row u))) (xo[Suc (2 * u) := int (?lo + length (packed (row u)))], s3)"
    proof (rule rows_update [OF r' u])
      show "length (packed (row u)) \<le> length (out (half_edges IJ) u)" using pl d(5) [OF u] by simp
      show "length s3 = length store" using 1(2) 2(2) 3(2) by simp
      show "s3 ! Suc (Suc (?lo + i)) = int (packed (row u) ! i)" if "i < length (packed (row u))" for i
        using that 3(3) [of "?lo + i"] 2(4) [of i] by simp
      show "s3 ! Suc (Suc i) = store ! Suc (Suc i)" if i: "i < ?lo \<or> ?lo + length (out (half_edges IJ) u) \<le> i" for i
      proof -
        have "i < ?lo \<or> ?lo + ?l \<le> i" using i d(5) [OF u] by linarith
        then show ?thesis using 3(3) [of i] 2(5) [of i] 1(4) [of i] by auto
      qed
    qed
    ultimately show ?thesis by simp
  qed
qed

section \<open>The graph that is built\<close>

definition csr_ok :: "packed_edge list \<Rightarrow> csr_graph \<Rightarrow> bool" where
  "csr_ok IJ g \<longleftrightarrow> - 1 \<le> cmaxvtx g \<and> cnv g = 1 + cmaxvtx g \<and> (\<forall>e\<in>set IJ. int (src e) \<le> cmaxvtx g \<and> int (tgt e) \<le> cmaxvtx g) \<and>
     rows IJ (nat (cnv g)) (\<lambda>v. packed (out (half_edges IJ) v)) (xoff g, xadjstore g)"

lemma pack_edges_ok:
  assumes "rows IJ n row s"
  shows "\<exists>s'. for_up 0 n pack_vtx_edges s = Some s' \<and> rows IJ n (\<lambda>v. packed (row v)) s'"
proof -
  let ?P = "\<lambda>j. rows IJ n (\<lambda>v. if v < j then packed (row v) else row v)"
  have "\<exists>s'. for_up 0 n pack_vtx_edges s = Some s' \<and> ?P n s'"
  proof (rule for_up_rule [where P = ?P])
    fix j s assume j: "j < n" and P: "?P j s"
    have "(\<lambda>v. if v < j then packed (row v) else row v)(j := packed (if j < j then packed (row j) else row j)) =
        (\<lambda>v. if v < Suc j then packed (row v) else row v)" by (auto simp: fun_eq_iff less_Suc_eq)
    then show "\<exists>s'. pack_vtx_edges j s = Some s' \<and> ?P (Suc j) s'" using pack_vtx_edges_ok [OF P j] by simp
  qed (use assms in simp_all)
  then obtain s' where s': "for_up 0 n pack_vtx_edges s = Some s'" "?P n s'" by blast
  then have "rows IJ n (\<lambda>v. packed (row v)) s'" by (cases s') (simp add: rows_def)
  with s'(1) show ?thesis by blast
qed

lemma csr_create_ok: "\<exists>g. csr_create_graph IJ (length IJ) = Some g \<and> csr_ok IJ g"
proof -
  from find_maxvtx_ok [of IJ] obtain m where m: "find_maxvtx IJ (length IJ) = Some m" "- 1 \<le> m"
    "\<forall>e\<in>set IJ. int (src e) \<le> m \<and> int (tgt e) \<le> m" by blast
  define n where "n = nat (m + 1)"
  have n: "1 + m = int n" using m(2) by (simp add: n_def)
  have e: "src e < n \<and> tgt e < n" if "e \<in> set IJ" for e using m(3) that n by auto
  from setup_ok [of IJ n, OF e] obtain s1 where
    1: "setup_deg_off IJ (length IJ) (int n) (alloc_graph (int n)) = Some s1" "rows IJ n (\<lambda>_. []) s1" by blast
  have "rows IJ n (out (half_edges (take 0 IJ))) s1"
    using 1(2) by (simp add: half_edges_def out_def [abs_def])
  then have "\<exists>s2. for_up 0 (length IJ) (gather_edge IJ) s1 = Some s2 \<and> rows IJ n (out (half_edges (take (length IJ) IJ))) s2"
    using gather_edge_ok e by (intro for_up_rule [where P = "\<lambda>k. rows IJ n (out (half_edges (take k IJ)))"]) auto
  then obtain s2 where 2: "for_up 0 (length IJ) (gather_edge IJ) s1 = Some s2" "rows IJ n (out (half_edges IJ)) s2" by auto
  from pack_edges_ok [OF 2(2)] obtain s3 where 3: "for_up 0 n pack_vtx_edges s2 = Some s3"
    "rows IJ n (\<lambda>v. packed (out (half_edges IJ) v)) s3" by blast
  have "gather_edges IJ (length IJ) (int n) s1 = Some s3" by (simp add: gather_edges_def 2(1) pack_edges_def 3(1))
  then have "csr_create_graph IJ (length IJ) = Some \<lparr>cmaxvtx = m, cnv = int n, xoff = fst s3, xadjstore = snd s3\<rparr>"
    using m(1) 1(1) n by (cases s1; cases s3) (simp add: csr_create_graph_def find_nv_def find_maxvtx_def)
  then show ?thesis using 3(2) m n by (auto simp: csr_ok_def)
qed

text \<open>The neighbours of a vertex, read from its row.\<close>

definition csr_neighbours :: "csr_graph \<Rightarrow> nat \<Rightarrow> nat list" where
  "csr_neighbours g v = map (\<lambda>vo. nat (xadjstore g ! Suc (Suc vo))) [nat (xoff g ! (2 * v))..<nat (xoff g ! Suc (2 * v))]"

definition csr_built :: "packed_edge list \<Rightarrow> csr_graph" where
  "csr_built IJ = the (csr_create_graph IJ (length IJ))"

definition csr_nv :: "packed_edge list \<Rightarrow> nat" where
  "csr_nv IJ = nat (cnv (csr_built IJ))"

lemma csr_built: "csr_create_graph IJ (length IJ) = Some (csr_built IJ)" "csr_ok IJ (csr_built IJ)"
  using csr_create_ok [of IJ] by (auto simp: csr_built_def)

lemma csr_rows: "rows IJ (csr_nv IJ) (\<lambda>v. packed (out (half_edges IJ) v)) (xoff (csr_built IJ), xadjstore (csr_built IJ))"
  using csr_built(2) [of IJ] unfolding csr_ok_def csr_nv_def by blast

lemma csr_neighbours_packed:
  assumes "v < csr_nv IJ"
  shows "csr_neighbours (csr_built IJ) v = packed (out (half_edges IJ) v)"
proof -
  note d = rowsD [OF csr_rows]
  show ?thesis using d(3,4,6) [OF assms]
    by (intro nth_equalityI) (simp_all add: csr_neighbours_def nat_add_distrib)
qed

interpretation csr: neighbour_lists IJ "csr_nv IJ" "csr_neighbours (csr_built IJ)" for IJ
proof
  show "src e < csr_nv IJ \<and> tgt e < csr_nv IJ" if "e \<in> set IJ" for e
    using csr_built(2) [of IJ] that by (auto simp: csr_ok_def csr_nv_def)
  show "set (csr_neighbours (csr_built IJ) v) = {w. w \<noteq> v \<and> adj IJ v w}" if "v < csr_nv IJ" for v
    by (simp add: csr_neighbours_packed [OF that] set_out)
qed

section \<open>The search follows the rows\<close>

lemma scan_row:
  assumes f: "csr.frontier IJ r k S tree vlist k2" and k: "k < k2" and x: "a \<le> b"
    and adr: "\<And>vo. a \<le> vo \<Longrightarrow> vo < b \<Longrightarrow> xadj (xadjstore (csr_built IJ)) (int vo) = Some (int (nb vo))"
    and nb: "nb ` {a..<b} \<subseteq> set (csr_neighbours (csr_built IJ) (nat (vlist ! k)))"
  shows "for_up a b (scan_neighbour (csr_built IJ) (vlist ! k)) (tree, vlist, k2) = Some (fold (relax (vlist ! k)) (map nb [a..<b]) (tree, vlist, k2))"
  using assms
proof (induction "b - a" arbitrary: a S tree vlist k2)
  case 0
  then show ?case by (simp add: for_up_def)
next
  case (Suc m)
  then have ab: "a < b" by simp
  let ?g = "csr_built IJ" and ?j = "nb a"
  have j: "?j \<in> set (csr_neighbours ?g (nat (vlist ! k)))" using Suc.prems(5) ab by auto
  note a = csr.frontier_access [OF Suc.prems(1,2) j]
  have u: "[a..<b] = a # [Suc a..<b]" using ab by (rule upt_conv_Cons)
  have fu: "for_up a b F s = F a s \<bind> for_up (Suc a) b F" for F :: "nat \<Rightarrow> int list \<times> int list \<times> nat \<Rightarrow> (int list \<times> int list \<times> nat) option" and s
    using ab by (simp add: for_up_def [abs_def] Suc_diff_Suc [symmetric])
  have x: "xadj (xadjstore ?g) (int a) = Some (int ?j)" using Suc.prems(4) ab by simp
  have m: "m = b - Suc a" "Suc a \<le> b" using Suc.hyps(2) ab by simp_all
  have nb': "nb ` {Suc a..<b} \<subseteq> set (csr_neighbours ?g (nat (vlist ! k)))" using Suc.prems(5) by auto
  show ?case
  proof (cases "tree ! ?j < 0")
    case True
    note p = csr.frontier_push [OF Suc.prems(1,2) j True]
    have "scan_neighbour ?g (vlist ! k) a (tree, vlist, k2) = Some (tree[?j := vlist ! k], vlist[k2 := int ?j], Suc k2)"
      using True by (simp add: scan_neighbour_def x a)
    moreover have "for_up (Suc a) b (scan_neighbour ?g (vlist[k2 := int ?j] ! k)) (tree[?j := vlist ! k], vlist[k2 := int ?j], Suc k2) =
        Some (fold (relax (vlist[k2 := int ?j] ! k)) (map nb [Suc a..<b]) (tree[?j := vlist ! k], vlist[k2 := int ?j], Suc k2))"
      using Suc.prems(2,4) p nb' by (intro Suc.hyps(1) [OF m(1) p(2) _ m(2)]) simp_all
    ultimately show ?thesis using True p(3) by (simp add: fu u)
  next
    case False
    then have t: "0 \<le> tree ! ?j" by simp
    have "scan_neighbour ?g (vlist ! k) a (tree, vlist, k2) = Some (tree, vlist, k2)" using False by (simp add: scan_neighbour_def x a)
    moreover have "for_up (Suc a) b (scan_neighbour ?g (vlist ! k)) (tree, vlist, k2) =
        Some (fold (relax (vlist ! k)) (map nb [Suc a..<b]) (tree, vlist, k2))"
      using Suc.prems(2,4) nb' by (intro Suc.hyps(1) [OF m(1) csr.frontier_skip [OF Suc.prems(1,2) j t] _ m(2)]) simp_all
    ultimately show ?thesis using t by (simp add: fu u)
  qed
qed

lemma scan_vertex_ok:
  assumes f: "csr.frontier IJ r k {} tree vlist k2" and k: "k < k2"
  shows "\<exists>tree' vlist' k2'. scan_vertex (csr_built IJ) k (tree, vlist, k2) = Some (tree', vlist', k2') \<and>
    csr.frontier IJ r (Suc k) {} tree' vlist' k2' \<and> k2 \<le> k2'"
proof -
  let ?g = "csr_built IJ" and ?v = "nat (vlist ! k)"
  note v = csr.frontier_vertex [OF f k] and d = rowsD [OF csr_rows [of IJ]]
  let ?a = "slot IJ ?v" and ?row = "packed (out (half_edges IJ) ?v)"
  have vv: "vlist ! k = int ?v" using v(2) by simp
  have vn: "?v \<le> csr_nv IJ" using v(3) by simp
  have o: "XOFF (xoff ?g) (vlist ! k) = Some (int ?a)" "XENDOFF (xoff ?g) (vlist ! k) = Some (int (?a + length ?row))"
    using off_access(1,2) [OF d(1) vn] d(3,4) [OF v(3)] by (simp_all only: vv [symmetric])
  define nb where "nb vo = ?row ! (vo - ?a)" for vo
  have sl: "Suc (Suc (?a + length ?row)) \<le> length (xadjstore ?g)" using row_slice(1) [OF csr_rows v(3)] .
  have adr: "xadj (xadjstore ?g) (int vo) = Some (int (nb vo))" if "?a \<le> vo" "vo < ?a + length ?row" for vo
    using that sl d(6) [OF v(3), of "vo - ?a"] by (simp add: adj_access nb_def)
  have mp: "map nb [?a..<?a + length ?row] = csr_neighbours ?g ?v"
    unfolding csr_neighbours_packed [OF v(3)] by (intro nth_equalityI) (simp_all add: nb_def)
  then have "nb ` {?a..<?a + length ?row} \<subseteq> set (csr_neighbours ?g ?v)" by (metis atLeastLessThan_upt image_set order_refl)
  from scan_row [OF f k _ adr this] have
    "for_up ?a (?a + length ?row) (scan_neighbour ?g (vlist ! k)) (tree, vlist, k2) = Some (fold (relax (vlist ! k)) (csr_neighbours ?g ?v) (tree, vlist, k2))"
    unfolding mp by simp
  moreover obtain tree' vlist' k2' where e: "fold (relax (vlist ! k)) (csr_neighbours ?g ?v) (tree, vlist, k2) = (tree', vlist', k2')"
    by (cases "fold (relax (vlist ! k)) (csr_neighbours ?g ?v) (tree, vlist, k2)")
  ultimately have "scan_vertex ?g k (tree, vlist, k2) = Some (tree', vlist', k2')"
    using v(1) by (simp add: scan_vertex_def o nat_add_distrib del: of_nat_add)
  with csr.frontier_scan [OF f k e] show ?thesis by blast
qed

lemma scan_level_ok:
  assumes f: "csr.frontier IJ r k1 {} tree vlist k2"
  shows "\<exists>s. for_up k1 k2 (scan_vertex (csr_built IJ)) (tree, vlist, k2) = Some s \<and>
    (csr.frontier IJ r k2 {} (fst s) (fst (snd s)) (snd (snd s)) \<and> k2 \<le> snd (snd s))"
proof (rule for_up_rule [where P = "\<lambda>k s. csr.frontier IJ r k {} (fst s) (fst (snd s)) (snd (snd s)) \<and> k2 \<le> snd (snd s)"])
  show "k1 \<le> k2" using csr.frontier_bounds [OF f] by simp
  fix k s assume k: "k < k2" and P: "csr.frontier IJ r k {} (fst s) (fst (snd s)) (snd (snd s)) \<and> k2 \<le> snd (snd s)"
  then have "k < snd (snd s)" by simp
  from scan_vertex_ok [OF conjunct1 [OF P] this] P show "\<exists>s'. scan_vertex (csr_built IJ) k s = Some s' \<and>
      (csr.frontier IJ r (Suc k) {} (fst s') (fst (snd s')) (snd (snd s')) \<and> k2 \<le> snd (snd s'))" by fastforce
qed (use f in simp)

lemma csr_while_ok:
  assumes "csr.frontier IJ r k1 {} tree vlist k2"
  shows "\<exists>tree' vlist' k2'. csr_while (csr_built IJ) k1 k2 tree vlist = Some tree' \<and> csr.frontier IJ r k2' {} tree' vlist' k2'"
  using assms
proof (induction "csr_nv IJ - k1" arbitrary: k1 k2 tree vlist rule: less_induct)
  case less
  show ?case
  proof (cases "k1 = k2")
    case True
    then show ?thesis using less.prems by (auto simp: csr_while.simps [of _ k2])
  next
    case False
    from scan_level_ok [OF less.prems] obtain tree' vlist' k2' where
      l: "for_up k1 k2 (scan_vertex (csr_built IJ)) (tree, vlist, k2) = Some (tree', vlist', k2')" "csr.frontier IJ r k2 {} tree' vlist' k2'" by auto
    have "csr_nv IJ - k2 < csr_nv IJ - k1" using False csr.frontier_bounds [OF less.prems] by linarith
    from less.hyps [OF this l(2)] show ?thesis using False by (subst csr_while.simps) (simp add: l(1))
  qed
qed

lemma csr_bfs_certified:
  assumes r: "r < csr_nv IJ" and l: "csr_nv IJ \<le> length tree0"
  shows "\<exists>tree lv. csr_make_bfs_tree (csr_built IJ) tree0 (int r) = Some (0, int (csr_nv IJ) - 1, tree) \<and>
    csr_nv IJ \<le> length tree \<and> certified tree lv (csr_nv IJ) r IJ"
proof -
  let ?g = "csr_built IJ" and ?n = "csr_nv IJ"
  have mx: "cnv ?g = int ?n" "cmaxvtx ?g = int ?n - 1" using csr_built(2) [of IJ] by (simp_all add: csr_ok_def csr_nv_def)
  from clear_range [of 0 ?n tree0] l obtain tree1 where t1: "for_up 0 ?n (\<lambda>k tree. aset tree k (- 1)) tree0 = Some tree1"
    "length tree1 = length tree0" "\<And>x. tree1 ! x = (if x < ?n then - 1 else tree0 ! x)" by auto
  have s: "seti tree1 (int r) (int r) = Some (tree1[r := int r])" "seti (replicate ?n 0) 0 (int r) = Some ((replicate ?n 0)[0 := int r])"
    using r l t1 by (simp_all add: seti_def)
  have f: "csr.frontier IJ r 0 {} (tree1[r := int r]) ((replicate ?n 0)[0 := int r]) 1"
    using r l t1 by (intro csr.frontier_init) auto
  from csr_while_ok [OF f] obtain tree vlist k2 where
    w: "csr_while ?g 0 1 (tree1[r := int r]) ((replicate ?n 0)[0 := int r]) = Some tree" "csr.frontier IJ r k2 {} tree vlist k2" by blast
  have "csr_make_bfs_tree ?g tree0 (int r) = Some (0, int ?n - 1, tree)"
    unfolding csr_make_bfs_tree_def mx using s t1(1) w(1) by simp
  with csr.frontier_done [OF w(2)] show ?thesis by blast
qed

section \<open>Searching and validating\<close>

text \<open>
  C38: The compressed-row implementation is correct. For every list of edges \<open>create_graph_from_edgelist\<close> succeeds and
  each row holds, in increasing order and without repetitions, exactly the neighbours of its vertex; then for every root in range and every
  output array that is large enough \<open>make_bfs_tree\<close> returns without an error, the tree it writes is a breadth-first tree of the
  component of the root, and \<open>verify_bfs_tree\<close> accepts it with the number of edges inside that component.
\<close>

theorem csr_search_validated:
  "\<exists>g. csr_create_graph IJ (length IJ) = Some g \<and>
    (\<forall>v. int v \<le> cmaxvtx g \<longrightarrow> sorted (csr_neighbours g v) \<and> distinct (csr_neighbours g v) \<and> set (csr_neighbours g v) = {w. w \<noteq> v \<and> adj IJ v w}) \<and>
    (\<forall>root tree0. 0 \<le> root \<and> root \<le> cmaxvtx g \<and> cmaxvtx g < int (length tree0) \<longrightarrow>
      (\<exists>tree. csr_make_bfs_tree g tree0 root = Some (0, cmaxvtx g, tree) \<and>
        is_bfs_tree IJ (nat (cmaxvtx g + 1)) (nat root) tree \<and>
        verify_bfs_tree tree (cmaxvtx g) root IJ (length IJ) = Some (int (length (filter (\<lambda>e. reach IJ (nat root) (src e)) IJ)))))"
proof (intro exI [of _ "csr_built IJ"] conjI csr_built(1) allI impI)
  let ?g = "csr_built IJ" and ?n = "csr_nv IJ"
  have mx: "cmaxvtx ?g = int ?n - 1" using csr_built(2) [of IJ] by (simp add: csr_ok_def csr_nv_def)
  show "sorted (csr_neighbours ?g v)" "distinct (csr_neighbours ?g v)" "set (csr_neighbours ?g v) = {w. w \<noteq> v \<and> adj IJ v w}"
    if "int v \<le> cmaxvtx ?g" for v
    using csr.nbrs [of v IJ] csr_neighbours_packed [of v IJ] that mx
    by (simp_all add: packed_sorted)
  fix root :: int and tree0 :: "int list"
  assume a: "0 \<le> root \<and> root \<le> cmaxvtx ?g \<and> cmaxvtx ?g < int (length tree0)"
  then obtain r where r: "root = int r" "r < ?n" "?n \<le> length tree0" using mx by (metis nonneg_int_cases zle_diff1_eq of_nat_less_iff linorder_not_less)
  from csr_bfs_certified [OF r(2,3)] obtain tree lv where
    t: "csr_make_bfs_tree ?g tree0 (int r) = Some (0, int ?n - 1, tree)" "?n \<le> length tree" "certified tree lv ?n r IJ" by blast
  then show "\<exists>tree. csr_make_bfs_tree ?g tree0 root = Some (0, cmaxvtx ?g, tree) \<and> is_bfs_tree IJ (nat (cmaxvtx ?g + 1)) (nat root) tree \<and>
      verify_bfs_tree tree (cmaxvtx ?g) root IJ (length IJ) = Some (int (length (filter (\<lambda>e. reach IJ (nat root) (src e)) IJ)))"
    using certified_accepted [OF t(3,2)] certified_is_bfs_tree [OF t(3)] by (simp add: mx r(1))
qed

theorem csr_search_validated_witness:
  "\<exists>g tree. csr_create_graph sample_edges 4 = Some g \<and> csr_make_bfs_tree g [7, 7, 7, 7, 7] 1 = Some (0, 3, tree) \<and>
     is_bfs_tree sample_edges 4 1 tree \<and> distinct (csr_neighbours g 2)"
proof -
  have l: "length sample_edges = 4" by (simp add: sample_edges_def)
  have m: "find_nv sample_edges 4 = Some (3, 4)" by code_simp
  obtain g where g: "csr_create_graph sample_edges 4 = Some g"
    "\<forall>v. int v \<le> cmaxvtx g \<longrightarrow> sorted (csr_neighbours g v) \<and> distinct (csr_neighbours g v) \<and>
      set (csr_neighbours g v) = {w. w \<noteq> v \<and> adj sample_edges v w}"
    "\<forall>root tree0. 0 \<le> root \<and> root \<le> cmaxvtx g \<and> cmaxvtx g < int (length tree0) \<longrightarrow>
      (\<exists>tree. csr_make_bfs_tree g tree0 root = Some (0, cmaxvtx g, tree) \<and>
        is_bfs_tree sample_edges (nat (cmaxvtx g + 1)) (nat root) tree \<and>
        verify_bfs_tree tree (cmaxvtx g) root sample_edges 4 = Some (int (length (filter (\<lambda>e. reach sample_edges (nat root) (src e)) sample_edges))))"
    using csr_search_validated [of sample_edges, unfolded l] by (elim exE conjE)
  from g(1) m obtain s where "g = \<lparr>cmaxvtx = 3, cnv = 4, xoff = fst s, xadjstore = snd s\<rparr>"
    unfolding csr_create_graph_def by (auto simp only: bind.bind_lunit prod.case Let_def fst_conv snd_conv option.inject elim!: bind_SomeE split: prod.splits)
  then have "cmaxvtx g = 3" by simp
  then have "\<exists>tree. csr_make_bfs_tree g [7, 7, 7, 7, 7] 1 = Some (0, 3, tree) \<and> is_bfs_tree sample_edges 4 1 tree" "distinct (csr_neighbours g 2)"
    using g(3) [rule_format, of 1 "[7, 7, 7, 7, 7]"] g(2) [rule_format, of 2] by auto
  then show ?thesis using g(1) by blast
qed

end
