(* ===== verification/Driver.thy ===== *)
theory Driver
  imports Rmat SeqCsr
begin

text \<open>
  The driver of Graph500, \<open>sources/graph500/graph500.c\<close>: \<open>real_main\<close> generates or reads the edges, \<open>run_bfs\<close> builds the graph, samples the
  roots, searches and validates. The two operations of an implementation (\<open>create_graph_from_edgelist\<close>, \<open>make_bfs_tree\<close>) are arguments;
  the locale \<open>search_kernel\<close> states what the driver needs of them and is interpreted on the linked-list and on the
  compressed-row implementation. Printed text and clocks are left out. As before \<open>None\<close> is undefined behaviour or a failed \<open>assert\<close>.
\<close>

section \<open>State and environment\<close>

text \<open>The global variables that the options set; \<open>NBFS\<close> is \<open>NBFS_max\<close> and no option changes it.\<close>

definition NBFS_max :: nat where "NBFS_max = 1"

record g500_options =
  SCALE :: nat
  edgefactor :: int
  use_RMAT :: bool
  rmatA :: double
  rmatB :: double
  rmatC :: double
  dumpname :: "string option"
  rootname :: "string option"

text \<open>
  What the system and the compiler contribute: the environment variables, which of two calls the compiled code makes first, the value found in
  the variable \<open>t\<close> that \<open>run_bfs\<close> never sets, what \<open>read\<close> returns for a graph file and the
  values it stores when asked for \<open>NBFS\<close> roots (\<open>None\<close> if the file cannot be opened), and whether the marker files can be created.
\<close>

record g500_env =
  SEED :: "string option"
  SKIP_VALIDATION :: bool
  left_first :: bool
  uninit_t :: int
  dump_read :: "string \<Rightarrow> int option"
  root_read :: "string \<Rightarrow> int list option"
  ready_file :: bool
  done_file :: bool

datatype outcome = Exit int | Abort

text \<open>The marker files and, in between, each search with the number of edges the validation returned.\<close>

datatype event = Ready | Searched int "int option" | Done

section \<open>Roots\<close>

definition adj_step :: "packed_edge list \<Rightarrow> nat \<Rightarrow> int list \<Rightarrow> int list option" where
  "adj_step IJ k has_adj = do {
     e \<leftarrow> aget IJ k;
     let i = get_v0_from_edge e;
     let j = get_v1_from_edge e;
     if i \<noteq> j then do { has_adj \<leftarrow> seti has_adj j 1; seti has_adj i 1 } else Some has_adj }"

definition count_step :: "int list \<Rightarrow> nat \<Rightarrow> int \<Rightarrow> int option" where
  "count_step has_adj k nvtx_connected = do {
     h \<leftarrow> aget has_adj k;
     Some (if h \<noteq> 0 then nvtx_connected + 1 else nvtx_connected) }"

definition sample_step :: "bool \<Rightarrow> int list \<Rightarrow> nat \<Rightarrow> int list \<times> nat \<times> mrg_state \<Rightarrow> (int list \<times> nat \<times> mrg_state) option" where
  "sample_step lf has_adj nvtx_scale = (\<lambda>(bfs_root, m, st). do {
     (r, st) \<leftarrow> mrg_get_double_orig lf st;
     p \<leftarrow> dmul r (of_int64 (int nvtx_scale - 1));
     let challenge = truncate_double p;
     h \<leftarrow> geti has_adj challenge;
     if h \<noteq> 0 then do {
       i \<leftarrow> scan 0 m (\<lambda>i. do { b \<leftarrow> aget bfs_root i; Some (b \<noteq> challenge) });
       if i = m then do { bfs_root \<leftarrow> aset bfs_root m challenge; Some (bfs_root, m + 1, st) }
       else Some (bfs_root, m, st) }
     else Some (bfs_root, m, st) })"

fun sample_loop :: "nat \<Rightarrow> bool \<Rightarrow> int list \<Rightarrow> nat \<Rightarrow> nat \<Rightarrow> int list \<times> nat \<times> mrg_state \<Rightarrow> (int list \<times> nat \<times> mrg_state) option" where
  "sample_loop 0 lf has_adj nvtx_scale NBFS s = Some s"
| "sample_loop (Suc c) lf has_adj nvtx_scale NBFS s =
     (if fst (snd s) < NBFS then do {
        s \<leftarrow> sample_step lf has_adj nvtx_scale s;
        sample_loop c lf has_adj nvtx_scale NBFS s }
      else Some s)"

text \<open>The roots and their number, or the exit.\<close>

definition sample_roots :: "g500_env \<Rightarrow> packed_edge list \<Rightarrow> nat \<Rightarrow> nat \<Rightarrow> mrg_state \<Rightarrow> (outcome + int list \<times> nat) option" where
  "sample_roots env IJ nedge nvtx_scale st = do {
     let NBFS = NBFS_max;
     let has_adj = replicate nvtx_scale 0;
     has_adj \<leftarrow> for_up 0 nvtx_scale (\<lambda>k has_adj. aset has_adj k 0) has_adj;
     has_adj \<leftarrow> for_up 0 nedge (adj_step IJ) has_adj;
     nvtx_connected \<leftarrow> for_up 0 nvtx_scale (count_step has_adj) 0;
     (bfs_root, m, st) \<leftarrow> sample_loop nvtx_scale (left_first env) has_adj nvtx_scale NBFS (replicate NBFS_max 0, 0, st);
     if nvtx_connected \<le> uninit_t env \<and> m < NBFS then
       (if 0 < m then Some (Inr (bfs_root, m)) else Some (Inl (Exit 1)))
     else Some (Inr (bfs_root, NBFS)) }"

definition read_roots :: "g500_env \<Rightarrow> string \<Rightarrow> outcome + int list \<times> nat" where
  "read_roots env name = (case root_read env name of
     None \<Rightarrow> Inl (Exit 1)
   | Some rs \<Rightarrow> if length rs \<noteq> NBFS_max then Inl (Exit 1) else Inr (rs, NBFS_max))"

section \<open>Searches\<close>

type_synonym 'g bfs = "'g \<Rightarrow> int list \<Rightarrow> int \<Rightarrow> (int \<times> int \<times> int list) option"

text \<open>The loop over the roots, from number \<open>m\<close> on; the outcome is there if the loop ends the program.\<close>

fun bfs_loop :: "nat \<Rightarrow> 'g bfs \<Rightarrow> 'g \<Rightarrow> bool \<Rightarrow> nat \<Rightarrow> packed_edge list \<Rightarrow> nat \<Rightarrow> int list \<Rightarrow> nat \<Rightarrow> int list \<Rightarrow> (event list \<times> outcome option) option" where
  "bfs_loop 0 make_bfs_tree g skip nvtx_scale IJ nedge bfs_root m bfs_tree = Some ([], None)"
| "bfs_loop (Suc c) make_bfs_tree g skip nvtx_scale IJ nedge bfs_root m bfs_tree = do {
     root \<leftarrow> aget bfs_root m;
     if \<not> root < int nvtx_scale then None else do {
     (err, max_bfsvtx, bfs_tree) \<leftarrow> make_bfs_tree g bfs_tree root;
     if err \<noteq> 0 then Some ([], Some Abort)
     else if skip then do {
       (evs, r) \<leftarrow> bfs_loop c make_bfs_tree g skip nvtx_scale IJ nedge bfs_root (m + 1) bfs_tree;
       Some (Searched root None # evs, r) }
     else do {
       bfs_nedge \<leftarrow> verify_bfs_tree bfs_tree max_bfsvtx root IJ nedge;
       if bfs_nedge < 0 then Some ([Searched root (Some bfs_nedge)], Some Abort)
       else do {
         (evs, r) \<leftarrow> bfs_loop c make_bfs_tree g skip nvtx_scale IJ nedge bfs_root (m + 1) bfs_tree;
         Some (Searched root (Some bfs_nedge) # evs, r) } } } }"

definition run_bfs :: "(packed_edge list \<Rightarrow> nat \<Rightarrow> 'g option) \<Rightarrow> 'g bfs \<Rightarrow> g500_env \<Rightarrow> g500_options \<Rightarrow> nat \<Rightarrow> packed_edge list \<Rightarrow> nat \<Rightarrow> mrg_state \<Rightarrow>
    (outcome \<times> event list) option" where
  "run_bfs create_graph make_bfs_tree env opts nvtx_scale IJ nedge st = do {
     g \<leftarrow> create_graph IJ nedge;
     let bfs_tree = replicate nvtx_scale 0;
     roots \<leftarrow> (case rootname opts of None \<Rightarrow> sample_roots env IJ nedge nvtx_scale st | Some name \<Rightarrow> Some (read_roots env name));
     case roots of Inl oc \<Rightarrow> Some (oc, []) | Inr (bfs_root, NBFS) \<Rightarrow> do {
       root \<leftarrow> aget bfs_root 0;
       (err, max_bfsvtx, bfs_tree) \<leftarrow> make_bfs_tree g bfs_tree root;
       if \<not> ready_file env then Some (Exit (- 1), [])
       else do {
         (evs, r) \<leftarrow> bfs_loop NBFS make_bfs_tree g (SKIP_VALIDATION env) nvtx_scale IJ nedge bfs_root 0 bfs_tree;
         case r of Some oc \<Rightarrow> Some (oc, Ready # evs)
         | None \<Rightarrow> if \<not> done_file env then Some (Exit (- 1), Ready # evs) else Some (Exit 0, Ready # evs @ [Done]) } } }"

section \<open>The main function\<close>

definition generate :: "g500_env \<Rightarrow> g500_options \<Rightarrow> nat \<Rightarrow> u64 \<Rightarrow> mrg_state \<Rightarrow> (nat \<times> packed_edge list \<times> mrg_state) option" where
  "generate env opts desired_nedge userseed st =
     (if use_RMAT opts then do {
        let nedge = desired_nedge;
        let IJ = replicate nedge \<lparr>v0 = 0, v1 = 0\<rparr>;
        (IJ, st) \<leftarrow> rmat_edgelist (left_first env) IJ nedge (SCALE opts) (rmatA opts) (rmatB opts) (rmatC opts) st;
        Some (nedge, IJ, st) }
      else do {
        (nedge, IJ) \<leftarrow> make_graph (SCALE opts) desired_nedge userseed userseed;
        Some (nedge, IJ, st) })"

text \<open>With a graph file the number of edges is still the initial 0 of the static variable, and \<open>IJ\<close> the null pointer.\<close>

definition real_main :: "(packed_edge list \<Rightarrow> nat \<Rightarrow> 'g option) \<Rightarrow> 'g bfs \<Rightarrow> g500_env \<Rightarrow> g500_options \<Rightarrow> (outcome \<times> event list) option" where
  "real_main create_graph make_bfs_tree env opts = (if 63 \<le> SCALE opts then None else do {
     let nvtx_scale = 2 ^ SCALE opts;
     (userseed, _, st) \<leftarrow> init_random (SEED env);
     let desired_nedge = int nvtx_scale * edgefactor opts;
     if \<not> (- (2 ^ 63) \<le> desired_nedge \<and> desired_nedge < 2 ^ 63) then None
     else if \<not> (int nvtx_scale \<le> desired_nedge \<and> edgefactor opts \<le> desired_nedge) then None
     else case dumpname opts of
       None \<Rightarrow> do {
         (nedge, IJ, st) \<leftarrow> generate env opts (nat desired_nedge) userseed st;
         run_bfs create_graph make_bfs_tree env opts nvtx_scale IJ nedge st }
     | Some name \<Rightarrow> (case dump_read env name of
         None \<Rightarrow> Some (Exit 1, [])
       | Some n \<Rightarrow>
           let nedge = 0; sz = int nedge * 8 in
           if sz \<noteq> n then Some (Exit 1, [])
           else run_bfs create_graph make_bfs_tree env opts nvtx_scale [] nedge st) })"

section \<open>The number of vertices\<close>

definition verts :: "packed_edge list \<Rightarrow> nat" where
  "verts IJ = nat (the (find_maxvtx IJ (length IJ)) + 1)"

lemma find_maxvtx_le:
  assumes "list_all (vertices_below n) IJ"
  shows "\<exists>m. find_maxvtx IJ (length IJ) = Some m \<and> m < int n"
proof -
  have "\<exists>m. for_up 0 (length IJ) (max_step IJ) (- 1) = Some m \<and> m < int n"
  proof (rule for_up_rule [where P = "\<lambda>_ m. m < int n"])
    fix k m assume k: "k < length IJ" and m: "m < int n"
    have "src (IJ ! k) < n" "tgt (IJ ! k) < n" using assms k by (simp_all add: list_all_length vertices_below_def src_def tgt_def)
    then show "\<exists>m'. max_step IJ k m = Some m' \<and> m' < int n" using k m by (simp add: max_step_ok)
  qed simp_all
  then show ?thesis by (simp add: find_maxvtx_def)
qed

lemma verts_le: "list_all (vertices_below n) IJ \<Longrightarrow> verts IJ \<le> n"
  using find_maxvtx_le [of n IJ] by (auto simp: verts_def)

lemma verts_ends: "e \<in> set IJ \<Longrightarrow> src e < verts IJ \<and> tgt e < verts IJ"
  using find_maxvtx_ok [of IJ] by (fastforce simp: verts_def)

definition component_edges :: "packed_edge list \<Rightarrow> nat \<Rightarrow> int" where
  "component_edges IJ r = int (length (filter (\<lambda>e. reach IJ r (src e)) IJ))"

section \<open>What the driver needs of an implementation\<close>

locale search_kernel =
  fixes create_graph :: "packed_edge list \<Rightarrow> nat \<Rightarrow> 'g option" and make_bfs_tree :: "'g bfs"
  assumes built: "\<exists>g. create_graph IJ (length IJ) = Some g"
    and searched: "create_graph IJ (length IJ) = Some g \<Longrightarrow> r < verts IJ \<Longrightarrow> verts IJ \<le> length tree0 \<Longrightarrow>
      \<exists>tree. make_bfs_tree g tree0 (int r) = Some (0, int (verts IJ) - 1, tree) \<and> verts IJ \<le> length tree \<and>
        verify_bfs_tree tree (int (verts IJ) - 1) (int r) IJ (length IJ) = Some (component_edges IJ r)"
begin

lemma run_ok:
  assumes roots: "(case rootname opts of None \<Rightarrow> sample_roots env IJ (length IJ) N st | Some name \<Rightarrow> Some (read_roots env name)) = Some (Inr ([int r], 1))"
    and r: "r < verts IJ" "verts IJ \<le> N"
  shows "run_bfs create_graph make_bfs_tree env opts N IJ (length IJ) st =
    Some (let found = Searched (int r) (if SKIP_VALIDATION env then None else Some (component_edges IJ r)) in
      if \<not> ready_file env then (Exit (- 1), []) else if \<not> done_file env then (Exit (- 1), [Ready, found]) else (Exit 0, [Ready, found, Done]))"
proof -
  obtain g where g: "create_graph IJ (length IJ) = Some g" using built by blast
  from searched [OF g r(1), of "replicate N 0"] r(2) obtain tree where
    t: "make_bfs_tree g (replicate N 0) (int r) = Some (0, int (verts IJ) - 1, tree)" "verts IJ \<le> length tree" by auto
  from searched [OF g r(1) t(2)] obtain tree' where
    t': "make_bfs_tree g tree (int r) = Some (0, int (verts IJ) - 1, tree')"
      "verify_bfs_tree tree' (int (verts IJ) - 1) (int r) IJ (length IJ) = Some (component_edges IJ r)" by blast
  have "0 \<le> component_edges IJ r" by (simp add: component_edges_def)
  then show ?thesis using r g t(1) t' by (simp add: run_bfs_def roots Let_def)
qed

lemma run_exits: "sample_roots env IJ (length IJ) N st = Some (Inl oc) \<Longrightarrow> rootname opts = None \<Longrightarrow>
    run_bfs create_graph make_bfs_tree env opts N IJ (length IJ) st = Some (oc, [])"
  using built [of IJ] by (auto simp: run_bfs_def)

end

lemma list_nv_verts: "list_nv IJ = verts IJ"
proof -
  have "lmaxvtx (list_built IJ) = the (find_maxvtx IJ (length IJ))"
    using list_built(1) [of IJ] by (auto simp: list_create_graph_def Let_def elim!: bind_SomeE dest!: sym [of _ "list_built IJ"])
  then show ?thesis by (simp add: list_nv_def verts_def)
qed

lemma csr_nv_verts: "csr_nv IJ = verts IJ"
proof -
  have f: "find_nv IJ (length IJ) = map_option (\<lambda>m. (m, 1 + m)) (find_maxvtx IJ (length IJ))"
    by (cases "find_maxvtx IJ (length IJ)") (simp_all add: find_nv_def find_maxvtx_def)
  obtain m where m: "find_maxvtx IJ (length IJ) = Some m" using find_maxvtx_ok [of IJ] by blast
  have "cnv (csr_built IJ) = 1 + m"
    using csr_built(1) [of IJ] unfolding csr_create_graph_def f m by (auto simp: Let_def elim!: bind_SomeE dest!: sym [of _ "csr_built IJ"])
  then show ?thesis by (simp add: csr_nv_def verts_def m add.commute)
qed

interpretation list_kernel: search_kernel list_create_graph list_make_bfs_tree
proof
  fix IJ and g :: list_graph and r :: nat and tree0 :: "int list"
  show "\<exists>g. list_create_graph IJ (length IJ) = Some g" using list_built(1) by blast
  assume "list_create_graph IJ (length IJ) = Some g" "r < verts IJ" "verts IJ \<le> length tree0"
  then show "\<exists>tree. list_make_bfs_tree g tree0 (int r) = Some (0, int (verts IJ) - 1, tree) \<and> verts IJ \<le> length tree \<and>
      verify_bfs_tree tree (int (verts IJ) - 1) (int r) IJ (length IJ) = Some (component_edges IJ r)"
    using list_bfs_certified [of r IJ tree0] certified_accepted list_built(1) [of IJ] by (fastforce simp: list_nv_verts component_edges_def)
qed

interpretation csr_kernel: search_kernel csr_create_graph csr_make_bfs_tree
proof
  fix IJ and g :: csr_graph and r :: nat and tree0 :: "int list"
  show "\<exists>g. csr_create_graph IJ (length IJ) = Some g" using csr_built(1) by blast
  assume "csr_create_graph IJ (length IJ) = Some g" "r < verts IJ" "verts IJ \<le> length tree0"
  then show "\<exists>tree. csr_make_bfs_tree g tree0 (int r) = Some (0, int (verts IJ) - 1, tree) \<and> verts IJ \<le> length tree \<and>
      verify_bfs_tree tree (int (verts IJ) - 1) (int r) IJ (length IJ) = Some (component_edges IJ r)"
    using csr_bfs_certified [of r IJ tree0] certified_accepted csr_built(1) [of IJ] by (fastforce simp: csr_nv_verts component_edges_def)
qed

section \<open>Sampling\<close>

definition has_edge :: "packed_edge list \<Rightarrow> nat \<Rightarrow> bool" where
  "has_edge IJ v \<longleftrightarrow> (\<exists>w. w \<noteq> v \<and> adj IJ v w)"

lemma has_edge_verts: "has_edge IJ v \<Longrightarrow> v < verts IJ"
  using verts_ends by (fastforce simp: has_edge_def adj_def joins_def)

lemma has_edgeI: "e \<in> set IJ \<Longrightarrow> src e \<noteq> tgt e \<Longrightarrow> has_edge IJ (src e) \<and> has_edge IJ (tgt e)"
  unfolding has_edge_def adj_def joins_def by metis

text \<open>The flags that are set belong to vertices with an edge.\<close>

definition flags_ok :: "packed_edge list \<Rightarrow> nat \<Rightarrow> int list \<Rightarrow> bool" where
  "flags_ok IJ n has \<longleftrightarrow> length has = n \<and> (\<forall>v<n. has ! v \<noteq> 0 \<longrightarrow> has_edge IJ v)"

lemma adj_loop_ok:
  assumes "list_all (vertices_below n) IJ"
  shows "\<exists>has. for_up 0 (length IJ) (adj_step IJ) (replicate n 0) = Some has \<and> flags_ok IJ n has"
proof (rule for_up_rule [where P = "\<lambda>_. flags_ok IJ n"])
  fix k has assume k: "k < length IJ" and f: "flags_ok IJ n has"
  let ?i = "src (IJ ! k)" and ?j = "tgt (IJ ! k)"
  have b: "?i < n" "?j < n" using assms k by (simp_all add: list_all_length vertices_below_def src_def tgt_def)
  have e: "has_edge IJ ?i" "has_edge IJ ?j" if "?i \<noteq> ?j" using has_edgeI [OF nth_mem [OF k] that] by simp_all
  have "adj_step IJ k has = Some (if ?i \<noteq> ?j then has[?j := 1, ?i := 1] else has)"
    using k b f by (simp add: adj_step_def get_edge flags_ok_def seti_def)
  then show "\<exists>has'. adj_step IJ k has = Some has' \<and> flags_ok IJ n has'"
    using b e f by (auto simp: flags_ok_def nth_list_update)
qed (simp_all add: flags_ok_def)

text \<open>A challenge is a vertex.\<close>

lemma challenge_range:
  assumes "0 \<le> r" "r \<le> 1" "0 < n" "n \<le> 2 ^ 53"
  shows "\<exists>c<n. (do { p \<leftarrow> dmul r (of_int64 (int n - 1)); Some (truncate_double p) }) = Some (int c)"
proof -
  let ?d = "int n - 1"
  have d: "0 \<le> ?d" "?d < 2 ^ 53" using assms by simp_all
  have i: "of_int64 ?d = of_int ?d" unfolding of_int64_def using d by (intro rnd_int) simp
  have "0 \<le> (of_int ?d :: rat)" using d(1) by (simp only: of_int_0_le_iff)
  then have b: "0 \<le> r * of_int ?d" "r * of_int ?d \<le> of_int ?d" using assms by (simp_all add: mult_left_le_one_le)
  then have a: "\<bar>r * of_int ?d\<bar> \<le> of_int ?d" by simp
  let ?p = "rnd (r * of_int ?d)"
  have p: "dmul r (of_int64 ?d) = Some ?p" unfolding dmul_def i using a d(2) by (rule finite_double_small)
  have q: "0 \<le> ?p" "?p \<le> of_int ?d" using rnd_nonneg [OF b(1)] rnd_bound [OF a d(2)] by linarith+
  have "\<lfloor>?p\<rfloor> \<le> ?d" using floor_mono [OF q(2)] by (simp only: floor_of_int)
  moreover have "0 \<le> \<lfloor>?p\<rfloor>" "truncate_double ?p = \<lfloor>?p\<rfloor>" using q(1) by (simp_all add: truncate_double_def)
  ultimately show ?thesis using p d by (intro exI [of _ "nat \<lfloor>?p\<rfloor>"]) simp
qed

definition sampled :: "packed_edge list \<Rightarrow> int list \<times> nat \<times> mrg_state \<Rightarrow> bool" where
  "sampled IJ = (\<lambda>(roots, m, st). state_ok st \<and> (m = 0 \<and> roots = [0] \<or> m = 1 \<and> (\<exists>r. roots = [int r] \<and> has_edge IJ r)))"

lemma sample_step_ok:
  assumes "sampled IJ (roots, 0, st)" "flags_ok IJ n has" "0 < n" "n \<le> 2 ^ 53"
  shows "\<exists>s'. sample_step lf has n (roots, 0, st) = Some s' \<and> sampled IJ s'"
proof -
  have st: "state_ok st" "roots = [0]" using assms by (simp_all add: sampled_def)
  note d = mrg_get_double_draw [OF st(1), of lf]
  from challenge_range [OF d(2,4) assms(3,4)] obtain c p where
    c: "c < n" "dmul (draw lf st) (of_int64 (int n - 1)) = Some p" "truncate_double p = int c" by (auto elim!: bind_SomeE)
  show ?thesis using c st assms(2)
    by (auto simp: sample_step_def d(1) geti_def flags_ok_def scan_def sampled_def Let_def)
qed

lemma sample_loop_ok:
  assumes "sampled IJ s" "flags_ok IJ n has" "0 < n" "n \<le> 2 ^ 53"
  shows "\<exists>s'. sample_loop c lf has n 1 s = Some s' \<and> sampled IJ s'"
  using assms(1)
proof (induction c arbitrary: s)
  case (Suc c)
  obtain roots m st where s: "s = (roots, m, st)" by (cases s)
  show ?case
  proof (cases "m < 1")
    case True
    with sample_step_ok [of IJ roots st n has lf] Suc.prems assms(2-) obtain s' where "sample_step lf has n s = Some s'" "sampled IJ s'" by (auto simp: s)
    then show ?thesis using True Suc.IH [of s'] by (simp add: s)
  qed (use Suc.prems in \<open>simp add: s\<close>)
qed simp

lemma clear_zero: "for_up 0 n (\<lambda>k has. aset has k 0) (replicate n 0) = Some (replicate n (0 :: int))"
proof -
  have "\<exists>has. for_up 0 n (\<lambda>k has. aset has k 0) (replicate n 0) = Some has \<and> has = replicate n (0 :: int)"
    by (rule for_up_rule [where P = "\<lambda>_ has. has = replicate n 0"]) (simp_all add: list_update_same_conv)
  then show ?thesis by simp
qed

lemma sample_roots_ok:
  assumes IJ: "list_all (vertices_below n) IJ" and st: "state_ok st" and n: "0 < n" "n \<le> 2 ^ 53"
  shows "sample_roots env IJ (length IJ) n st = Some (Inl (Exit 1)) \<or>
    (\<exists>r. (r = 0 \<or> has_edge IJ r) \<and> sample_roots env IJ (length IJ) n st = Some (Inr ([int r], 1)))"
proof -
  from adj_loop_ok [OF IJ] obtain has where h: "for_up 0 (length IJ) (adj_step IJ) (replicate n 0) = Some has" "flags_ok IJ n has" by blast
  have z: "for_up 0 n (\<lambda>k has. aset has k 0) (replicate n 0) = Some (replicate n (0 :: int))"
    by (rule clear_zero)
  have "\<exists>c. for_up 0 n (count_step has) 0 = Some c \<and> True"
    by (rule for_up_rule [where P = "\<lambda>_ _. True"]) (use h(2) in \<open>auto simp: count_step_def flags_ok_def\<close>)
  then obtain conn where c: "for_up 0 n (count_step has) 0 = Some conn" by blast
  from sample_loop_ok [OF _ h(2) n, of "([0], 0, st)" n "left_first env"] st obtain s where
    s: "sample_loop n (left_first env) has n 1 ([0], 0, st) = Some s" "sampled IJ s" by (auto simp: sampled_def)
  note run = sample_roots_def NBFS_max_def z h(1) c s(1) [simplified]
  from s(2) consider st' where "s = ([0], 0, st')" | r st' where "s = ([int r], 1, st')" "has_edge IJ r"
    by (cases s) (auto simp: sampled_def)
  then show ?thesis
  proof cases
    case 1
    then show ?thesis by (cases "conn \<le> uninit_t env") (auto simp: run)
  next
    case (2 r st')
    then show ?thesis by (auto simp: run)
  qed
qed

section \<open>A run\<close>

lemma make_graph_ok:
  assumes "0 < L" "L < 63"
  shows "\<exists>es. make_graph L M u1 u2 = Some (M, es) \<and> length es = M \<and> list_all (vertices_below (2 ^ L)) es"
proof -
  from kronecker_range [OF make_mrg_seed_range [of u1 u2] assms] obtain edge where
    e: "\<And>ei. vertices_below (2 ^ L) (edge ei)" "\<And>a b arr. a \<le> b \<Longrightarrow> b - a \<le> length arr \<Longrightarrow>
      generate_kronecker_range (make_mrg_seed u1 u2) L a b arr = Some (map edge [a..<b] @ drop (b - a) arr)" by blast
  from e(2) [of 0 M] have "make_graph L M u1 u2 = Some (M, map edge [0..<M])" by (simp add: make_graph_def)
  then show ?thesis using e(1) by (simp add: list_all_iff)
qed

lemma init_random_ok: "\<exists>us sd st. init_random e = Some (us, sd, st) \<and> state_ok st"
proof -
  obtain us where i: "init_random e = do { st \<leftarrow> mrg_seed (prng_make_mrg_seed us); Some (us, prng_make_mrg_seed us, st) }"
    unfolding init_random_def Let_def by blast
  then show ?thesis using seed_range_state [OF prng_make_mrg_seed_range [of us]] by auto
qed

text \<open>With edges in range, the run ends in one of two ways that do not depend on the implementation.\<close>

lemma run_cases:
  assumes IJ: "IJ \<noteq> []" "list_all (vertices_below n) IJ" and st: "state_ok st" and n: "0 < n" "n \<le> 2 ^ 53"
    and files: "rootname opts = None" "ready_file env" "done_file env"
    and k: "search_kernel create bfs" "search_kernel create' bfs'"
  shows "run_bfs create bfs env opts n IJ (length IJ) st = run_bfs create' bfs' env opts n IJ (length IJ) st \<and>
    (sample_roots env IJ (length IJ) n st = Some (Inl (Exit 1)) \<and> run_bfs create bfs env opts n IJ (length IJ) st = Some (Exit 1, []) \<or>
     (\<exists>r. (r = 0 \<or> has_edge IJ r) \<and> run_bfs create bfs env opts n IJ (length IJ) st =
        Some (Exit 0, [Ready, Searched (int r) (if SKIP_VALIDATION env then None else Some (component_edges IJ r)), Done])))"
proof -
  consider (none) "sample_roots env IJ (length IJ) n st = Some (Inl (Exit 1))"
    | (root) r where "r = 0 \<or> has_edge IJ r" "sample_roots env IJ (length IJ) n st = Some (Inr ([int r], 1))"
    using sample_roots_ok [OF IJ(2) st n, of env] by blast
  then show ?thesis
  proof cases
    case none
    then show ?thesis using search_kernel.run_exits [OF k(1) none files(1)] search_kernel.run_exits [OF k(2) none files(1)] by simp
  next
    case (root r)
    have "0 < verts IJ" using IJ(1) verts_ends [of "hd IJ" IJ] by auto
    then have v: "r < verts IJ" using root(1) has_edge_verts by auto
    have s: "(case rootname opts of None \<Rightarrow> sample_roots env IJ (length IJ) n st | Some name \<Rightarrow> Some (read_roots env name)) = Some (Inr ([int r], 1))"
      using root(2) files(1) by simp
    note run = search_kernel.run_ok [OF _ s v verts_le [OF IJ(2)]]
    show ?thesis using root(1) files(2,3) run [OF k(1)] run [OF k(2)] by (auto simp: Let_def)
  qed
qed


definition sample_options :: g500_options where
  "sample_options = \<lparr>SCALE = 4, edgefactor = 16, use_RMAT = False, rmatA = 0, rmatB = 0, rmatC = 0, dumpname = None, rootname = None\<rparr>"

definition sample_env :: g500_env where
  "sample_env = \<lparr>SEED = Some ''7'', SKIP_VALIDATION = False, left_first = True, uninit_t = 0, dump_read = (\<lambda>_. None), root_read = (\<lambda>_. None),
     ready_file = True, done_file = True\<rparr>"


section \<open>A run on a graph file\<close>

text \<open>Nothing is read from a graph file; the run on the empty graph never ends well.\<close>

lemma no_has_edge: "\<not> has_edge [] v"
  by (simp add: has_edge_def adj_def)

lemma empty_searches:
  "list_create_graph [] 0 = Some g \<Longrightarrow> list_make_bfs_tree g tree 0 = None"
  "csr_create_graph [] 0 = Some h \<Longrightarrow> csr_make_bfs_tree h tree 0 = None"
proof -
  have v: "verts [] = 0" using verts_le [of 0 "[]"] by simp
  assume "list_create_graph [] 0 = Some g"
  then have "lmaxvtx g \<le> - 1" using list_built(1) [of "[]"] v list_nv_verts [of "[]"] by (simp add: list_nv_def)
  then show "list_make_bfs_tree g tree 0 = None" by (cases "seti tree 0 0") (auto simp: list_make_bfs_tree_def Let_def seti_def aset_def split: bind_splits)
next
  have v: "verts [] = 0" using verts_le [of 0 "[]"] by simp
  assume "csr_create_graph [] 0 = Some h"
  then have "cnv h \<le> 0" using csr_built(1) [of "[]"] v csr_nv_verts [of "[]"] by (simp add: csr_nv_def)
  then show "csr_make_bfs_tree h tree 0 = None" by (auto simp: csr_make_bfs_tree_def Let_def seti_def aset_def split: bind_splits)
qed

lemma graph_file_fails:
  assumes d: "dumpname opts = Some name" "rootname opts = None" and S: "SCALE opts \<le> 53"
  shows "real_main list_create_graph list_make_bfs_tree env opts \<in> {None, Some (Exit 1, [])}"
    "real_main csr_create_graph csr_make_bfs_tree env opts \<in> {None, Some (Exit 1, [])}"
proof -
  have "(2 :: nat) ^ SCALE opts \<le> 2 ^ 53" using S by (intro power_increasing) simp_all
  then have N: "0 < (2 :: nat) ^ SCALE opts" "(2 :: nat) ^ SCALE opts \<le> 2 ^ 53" by simp_all
  from init_random_ok [of "SEED env"] obtain us sd st where st: "init_random (SEED env) = Some (us, sd, st)" "state_ok st" by blast
  have run: "run_bfs create bfs env opts (2 ^ SCALE opts) [] 0 st \<in> {None, Some (Exit 1, [])}"
    if "\<And>g tree. create [] 0 = Some g \<Longrightarrow> bfs g tree 0 = None" for create :: "_ \<Rightarrow> _ \<Rightarrow> 'g option" and bfs
    using sample_roots_ok [OF _ st(2) N, of "[]" env] that d(2)
    by (auto simp: run_bfs_def no_has_edge split: bind_splits)
  show "real_main list_create_graph list_make_bfs_tree env opts \<in> {None, Some (Exit 1, [])}"
    "real_main csr_create_graph csr_make_bfs_tree env opts \<in> {None, Some (Exit 1, [])}"
    using run [of list_create_graph list_make_bfs_tree] run [of csr_create_graph csr_make_bfs_tree] empty_searches d(1) st(1)
    by (auto simp: real_main_def Let_def split: option.splits)
qed
end
