(* ===== verification/Spec2Isabelle.thy ===== *)
theory Spec2Isabelle
  imports Gups BtreeMain BtreeDelete Hashjoin PtDump StreamBench Driver
begin

text \<open>
  A verification development for the C workloads of a memory benchmark suite (\<open>src/sources\<close>). The suite is a
  collection of programs that stress virtual memory: each defines \<open>real_main\<close>, and one of the harnesses of
  \<open>sources/common\<close> parses the NUMA options, signals readiness through marker files, calls \<open>real_main\<close> and reports
  times and page tables. Modelled are the programs that are this suite's own C code or are compiled from C sources kept in
  the tree as its workloads: the B+ tree, GUPS, STREAM, the hash join with MurmurHash3, the harnesses with the page table dump, and
  of Graph500 the generators, the driver, the validator and the sequential searches.

  \<^bold>\<open>Conventions.\<close> C integers are words of their width, or \<open>int\<close> where the text says that values stay in range; arrays
  are lists with checked access (\<open>aget\<close>, \<open>aset\<close>, \<open>geti\<close>, \<open>seti\<close> of \<open>Prelude\<close> and \<open>BfsVerify\<close>). The option type carries
  what has no defined behaviour or does not return: an access out of bounds, a failed \<open>assert\<close>, a division by zero, an
  undefined shift, an endless loop. Error codes and exits of the programs are ordinary values. Counting loops are
  \<open>for_up\<close> and \<open>for_down\<close>, loops that may not end are partial functions in the option type, and theorems that a program
  returns are stated as such. What the system answers (memory addresses, files, NUMA topology, the page table device) is an
  argument.

  \<^bold>\<open>Theories and what they model.\<close>

  \<^item> \<open>Prelude\<close>: names for the C types, checked arrays, loops with their rules, \<open>strtol\<close> and \<open>strtoull\<close>, lemmas on words and lists.

  \<^item> \<open>Gups\<close> (\<open>gups/gups.c\<close>, \<open>gups/gupstoy.c\<close>): the random access benchmark. \<open>HPCC_starts\<close> jumps in the LFSR stream to
    the right element; the single-threaded run performs the updates of the reference stream, the multi-threaded runs
    perform the same updates under every interleaving; \<open>gupstoy\<close> writes out of bounds.

  \<^item> \<open>Btree\<close>, \<open>BtreeMem\<close>, \<open>BtreeTree\<close>, \<open>BtreeFind\<close>, \<open>BtreeNode\<close>, \<open>BtreeSplit\<close>, \<open>BtreeInsert\<close>, \<open>BtreeRefine\<close>, \<open>BtreeQuery\<close>,
    \<open>BtreeDelete\<close>, \<open>BtreeMain\<close> (\<open>btree/btree.c\<close>): the B+ tree on a heap of nodes and records with its slab allocators.
    \<open>Btree\<close> and \<open>BtreeDelete\<close> hold the operations, \<open>BtreeTree\<close> the abstraction to a tree and its invariant, the
    others the lemmas per operation. Insertion and search refine a finite map, the height is logarithmic, the leaves
    print in order, and the benchmark's main function computes the sum of the values it looks up, for any addresses the
    allocator returns; destroying a tree is undefined because records from the slab are passed to \<open>free\<close>.

  \<^item> \<open>Murmur\<close> (\<open>hashjoin/src/murmurhash.c\<close>): the three MurmurHash3 functions; reads stay inside the key, and on 8-byte keys the
    128-bit hash for x64 is injective.

  \<^item> \<open>Getopt\<close>, \<open>Hashjoin\<close> (\<open>hashjoin/src/hashjoin.c\<close>, \<open>config.h\<close>): option parsing by \<open>getopt\<close>, the build and probe loops of
    the join over bucket chains, and the report.

  \<^item> \<open>Harness\<close> (\<open>common/main-mt.c\<close>, \<open>main-st.c\<close>, \<open>main-ptdump.c\<close>, \<open>hashjoin/src/main.c\<close>): the four \<open>main\<close> functions as exit
    status and list of effects: the order of the marker files and the run, the arguments that reach \<open>real_main\<close>, and
    the options that are accepted.

  \<^item> \<open>PtDump\<close> (\<open>common/main-ptdump.c\<close>, \<open>ptdump.h\<close>): the page table dump: the CRC over table and data, the packed command words of
    the device, the walk over the dumped tables, and the retry loop.

  \<^item> \<open>ModArith\<close>, \<open>Mrg\<close> (\<open>graph500/generator/mod_arith_64bit.h\<close>, \<open>mod_arith_32bit.h\<close>, \<open>splittable_mrg.c\<close>, \<open>utils.c\<close>,
    \<open>graph500/prng.c\<close>): arithmetic modulo \<open>2 ^ 31 - 1\<close>, the multiple recursive generator, its matrix powers and seeds.
    The locale \<open>mod31\<close> states what the generator needs of either header and is interpreted on both.

  \<^item> \<open>Scramble\<close>, \<open>Kronecker\<close> (\<open>graph500/generator/graph_generator.c\<close>, \<open>make_graph.c\<close>): sampling of edges, bit reversal, vertex
    scrambling, and graph generation for one and for several processes.

  \<^item> \<open>BfsVerify\<close>, \<open>BfsAccept\<close> (\<open>graph500/verify.c\<close>): the validator of BFS trees; what it accepts is a breadth-first tree, and
    what has a certificate is accepted.

  \<^item> \<open>BfsQueue\<close>: the interface between graph representations and searches. The locale \<open>neighbour_lists\<close> fixes a function that
    lists neighbours; the invariant of a queue-based search is kept once inside it and ends in a certificate.

  \<^item> \<open>SeqList\<close>, \<open>SeqCsr\<close> (\<open>graph500/seq-list/seq-list.c\<close>, \<open>graph500/seq-csr/seq-csr.c\<close>): the linked-list and the compressed-row
    representation, each an interpretation of \<open>neighbour_lists\<close>, and their searches, shown to be correct and to pass the
    validator. \<open>qsort\<close> is a sort by the comparison function that the program passes.

  \<^item> \<open>Doubles\<close>: the C type \<open>double\<close> as rational numbers with the rounding of binary64, with error bounds.

  \<^item> \<open>StreamBench\<close> (\<open>stream/stream.c\<close>): the kernels, the statistics and the check of STREAM. Every run validates; the best times of a run include
    those of the runs before it.

  \<^item> \<open>MrgDouble\<close>: the random doubles of \<open>graph500/generator/splittable_mrg.c\<close> and \<open>make_graph.c\<close>. A draw lies between 0 and 1, the end 1
    included against the comment of the source, and the stream of draws can be entered at any position.

  \<^item> \<open>Rmat\<close> (\<open>graph500/rmat.c\<close>): the R-MAT generator. The probabilities stay in range under all rounding errors, the descent ends
    inside the matrix, and the shuffles are permutations unless a draw is exactly 1, when they leave the array.

  \<^item> \<open>Driver\<close> (\<open>graph500/graph500.c\<close>): \<open>real_main\<close> and \<open>run_bfs\<close> over an implementation of the search. The locale \<open>search_kernel\<close> states what
    the driver needs of an implementation and is interpreted on \<open>SeqList\<close> and on \<open>SeqCsr\<close>; a run has the same outcome with both, and
    its searches pass the validation. Reading a graph file never succeeds.

  \<^bold>\<open>Fuel and bounds.\<close> Retry loops are partial functions and are shown to return: \<open>bernoulli_retry\<close> within ten draws
  (\<open>draw_accepted\<close>), the list walks because lists are threaded through an array of their length, the searches because the
  queue has room for every vertex. \<open>walk\<close> has the length of its array as fuel. Generation is for \<open>0 < lgN < 63\<close>, the range
  in which the shifts are defined. The descent of R-MAT is a partial function that ends after \<open>SCALE\<close> levels; its error bounds hold for
  \<open>SCALE < 63\<close>, those of the shuffles and of the root sampling for fewer than \<open>2 ^ 53\<close> elements.

  \<^bold>\<open>Parallel code.\<close> The OpenMP loops of GUPS are modelled by the sequences of their atomic updates; the parallel loops of the
  hash join, of the generator, of the validator and of STREAM have independent iterations or write equal values and are modelled in
  program order.

  \<^bold>\<open>Not modelled.\<close> Third-party programs that the suite only builds: redis, memcached, memtier\_benchmark, liblinear, gapbs
  and canneal (C++), XSBench (a numerical kernel). Of Graph500: the OpenMP and XMT variants, the option parser (its values are an
  argument of the driver), the statistics (never reached), \<open>make-edgelist\<close> and timers. Data files, scripts and results are not programs.
  Clocks, printed progress and the PAPI counters of the harnesses have no influence on what is stated.
\<close>

end
